(* ===== verification/Prelude.thy ===== *)
theory Prelude
  imports Main "HOL-Library.Word" "HOL-Library.Monad_Syntax"
begin

text \<open>
  Shared vocabulary of the development: values of \<^verbatim>\<open>std::size_t\<close> and their wrap-around
  arithmetic, byte-addressed memory with little-endian typed access, address ranges, and the
  outcome of an operation that may not come back to its caller.

  A \<^verbatim>\<open>std::size_t\<close>, a \<^verbatim>\<open>std::uint64_t\<close> and a pointer are natural numbers below
  \<open>2 ^ 64\<close>; the null pointer is \<open>0\<close>.  Sums and differences of sizes go through
  \<open>size_add\<close> and \<open>size_sub\<close>, which wrap as the machine does; bitwise operations are done on
  \<^typ>\<open>64 word\<close>.  Pointer arithmetic, whose overflow is undefined in the source, is plain
  addition.  Memory is one total function from addresses to bytes, shared by every component, so
  the overlay of free-list links over block headers is visible in the model.
\<close>

unbundle bit_operations_syntax

named_theorems const_simps \<open>values of the program's constants\<close>
named_theorems mem_simps \<open>reads over writes of byte memory\<close>

type_synonym addr = nat
type_synonym byte = "8 word"
type_synonym memory = "addr \<Rightarrow> byte"
type_synonym region = "addr \<times> nat"

section \<open>Sizes\<close>

definition size_max :: nat where
  "size_max = 2 ^ 64"

definition size_add :: "nat \<Rightarrow> nat \<Rightarrow> nat" where
  "size_add a b = (a + b) mod size_max"

definition size_sub :: "nat \<Rightarrow> nat \<Rightarrow> nat" where
  "size_sub a b = (a + (size_max - b mod size_max)) mod size_max"

definition to_size :: "nat \<Rightarrow> 64 word" where
  "to_size n = word_of_nat n"

lemma size_max_eq [const_simps]: "size_max = 18446744073709551616"
  by (simp add: size_max_def)

lemma size_add_less [simp]: "size_add a b < size_max"
  by (simp add: size_add_def size_max_def)

lemma size_add_exact [simp]: "a + b < size_max \<Longrightarrow> size_add a b = a + b"
  by (simp add: size_add_def)

lemma size_sub_exact [simp]: "b \<le> a \<Longrightarrow> a < size_max \<Longrightarrow> size_sub a b = a - b"
  by (simp add: size_sub_def mod_if)

lemma unat_to_size [simp]: "n < size_max \<Longrightarrow> unat (to_size n) = n"
  by (simp add: to_size_def size_max_def unat_of_nat)

subsection \<open>Masks\<close>

text \<open>Clearing the low bits of a word rounds its value down to a multiple of the power of two.\<close>

lemma and_not_mask_eq:
  fixes w :: "64 word"
  shows "w AND NOT (mask k) = push_bit k (drop_bit k w)"
  by (rule bit_word_eqI) (auto simp: bit_simps)

lemma unat_and_not_mask:
  fixes w :: "64 word"
  shows "unat (w AND NOT (mask k)) = unat w div 2 ^ k * 2 ^ k"
proof -
  have lt: "unat w < 18446744073709551616"
    using unsigned_less [where 'a = nat, of w] by simp
  have "unat w div 2 ^ k * 2 ^ k \<le> unat w" by simp
  also have "\<dots> < 2 ^ 64" using lt by simp
  finally have "unat w div 2 ^ k * 2 ^ k < 2 ^ 64" .
  moreover have "unat (push_bit k (drop_bit k w)) = unat w div 2 ^ k * 2 ^ k mod 2 ^ 64"
    by (simp only: unsigned_push_bit_eq unsigned_drop_bit_eq take_bit_eq_mod
        push_bit_eq_mult [of _ "_ :: nat"] drop_bit_eq_div [of _ "_ :: nat"])
      (simp add: lt)
  ultimately show ?thesis
    by (simp add: and_not_mask_eq)
qed

section \<open>Byte memory\<close>

primrec read_le :: "nat \<Rightarrow> memory \<Rightarrow> addr \<Rightarrow> nat" where
  "read_le 0 m a = 0"
| "read_le (Suc k) m a = unat (m a) + 256 * read_le k m (Suc a)"

definition write_le :: "nat \<Rightarrow> addr \<Rightarrow> nat \<Rightarrow> memory \<Rightarrow> memory" where
  "write_le k a v m = (\<lambda>x. if a \<le> x \<and> x < a + k then word_of_nat (v div 256 ^ (x - a)) else m x)"

text \<open>\<^verbatim>\<open>std::memset\<close> and \<^verbatim>\<open>std::memcpy\<close> (whose ranges do not overlap).\<close>

definition memset :: "addr \<Rightarrow> byte \<Rightarrow> nat \<Rightarrow> memory \<Rightarrow> memory" where
  "memset a v n m = (\<lambda>x. if a \<le> x \<and> x < a + n then v else m x)"

definition memcpy :: "addr \<Rightarrow> addr \<Rightarrow> nat \<Rightarrow> memory \<Rightarrow> memory" where
  "memcpy dst src n m = (\<lambda>x. if dst \<le> x \<and> x < dst + n then m (src + (x - dst)) else m x)"

abbreviation read16 :: "memory \<Rightarrow> addr \<Rightarrow> nat" where "read16 \<equiv> read_le 2"
abbreviation read32 :: "memory \<Rightarrow> addr \<Rightarrow> nat" where "read32 \<equiv> read_le 4"
abbreviation read64 :: "memory \<Rightarrow> addr \<Rightarrow> nat" where "read64 \<equiv> read_le 8"
abbreviation write16 :: "addr \<Rightarrow> nat \<Rightarrow> memory \<Rightarrow> memory" where "write16 \<equiv> write_le 2"
abbreviation write32 :: "addr \<Rightarrow> nat \<Rightarrow> memory \<Rightarrow> memory" where "write32 \<equiv> write_le 4"
abbreviation write64 :: "addr \<Rightarrow> nat \<Rightarrow> memory \<Rightarrow> memory" where "write64 \<equiv> write_le 8"

lemma read_le_cong:
  "(\<And>x. a \<le> x \<Longrightarrow> x < a + k \<Longrightarrow> m x = m' x) \<Longrightarrow> read_le k m a = read_le k m' a"
  by (induction k arbitrary: a) auto

lemma read_le_bound: "read_le k m a < 256 ^ k"
proof (induction k arbitrary: a)
  case 0
  then show ?case by simp
next
  case (Suc k)
  have "unat (m a) < 256" using unsigned_less [where 'a = nat, of "m a"] by simp
  moreover have "read_le k m (Suc a) < 256 ^ k" by (rule Suc.IH)
  then have "read_le k m (Suc a) + 1 \<le> 256 ^ k" by simp
  then have "256 * (read_le k m (Suc a) + 1) \<le> 256 * 256 ^ k" by (rule mult_left_mono) simp
  ultimately show ?case by simp
qed

lemma read64_less_size_max [simp]: "read64 m a < size_max"
  using read_le_bound [of 8 m a] by (simp add: size_max_def)

lemma read_le_of_bytes:
  "(\<And>i. i < k \<Longrightarrow> m (a + i) = word_of_nat (v div 256 ^ i)) \<Longrightarrow> read_le k m a = v mod 256 ^ k"
proof (induction k arbitrary: a v)
  case 0
  then show ?case by simp
next
  case (Suc k)
  have hd: "unat (m a) = v mod 256"
    using Suc.prems [of 0] by (simp add: unat_of_nat)
  have "m (Suc a + i) = word_of_nat (v div 256 div 256 ^ i)" if "i < k" for i
    using Suc.prems [of "Suc i"] that by (simp add: div_mult2_eq)
  then have "read_le k m (Suc a) = v div 256 mod 256 ^ k" by (rule Suc.IH)
  with hd show ?case
    by (simp add: mod_mult2_eq)
qed

lemma read_write_same [mem_simps]:
  "read_le k (write_le k a v m) a = v mod 256 ^ k"
  by (rule read_le_of_bytes) (simp add: write_le_def)

lemma read_write_disjoint:
  "a + k \<le> b \<or> b + j \<le> a \<Longrightarrow> read_le j (write_le k a v m) b = read_le j m b"
  by (rule read_le_cong) (auto simp: write_le_def)

lemma read_memset_disjoint:
  "a + n \<le> b \<or> b + j \<le> a \<Longrightarrow> read_le j (memset a v n m) b = read_le j m b"
  by (rule read_le_cong) (auto simp: memset_def)

lemma read_memcpy_disjoint:
  "a + n \<le> b \<or> b + j \<le> a \<Longrightarrow> read_le j (memcpy a s n m) b = read_le j m b"
  by (rule read_le_cong) (auto simp: memcpy_def)

lemma read64_write64_same: "v < size_max \<Longrightarrow> read64 (write64 a v m) a = v"
  by (simp add: read_write_same size_max_def)

text \<open>Eight-byte fields at distinct multiples of eight never overlap.\<close>

lemma aligned8_disjoint: "8 dvd (a::nat) \<Longrightarrow> 8 dvd b \<Longrightarrow> a \<noteq> b \<Longrightarrow> a + 8 \<le> b \<or> b + 8 \<le> a"
  by (elim dvdE) auto

lemma read64_write64:
  "8 dvd a \<Longrightarrow> 8 dvd b \<Longrightarrow> v < size_max \<Longrightarrow>
   read64 (write64 a v m) b = (if b = a then v else read64 m b)"
  using aligned8_disjoint [of a b]
  by (auto simp: read64_write64_same intro!: read_write_disjoint)

lemma write_le_apply_out [mem_simps]: "x < a \<or> a + k \<le> x \<Longrightarrow> write_le k a v m x = m x"
  by (auto simp: write_le_def)

lemma memset_apply [mem_simps]: "memset a v n m x = (if a \<le> x \<and> x < a + n then v else m x)"
  by (simp add: memset_def)

lemma memcpy_apply [mem_simps]:
  "memcpy d s n m x = (if d \<le> x \<and> x < d + n then m (s + (x - d)) else m x)"
  by (simp add: memcpy_def)

lemmas reads_over_writes [mem_simps] =
  read_write_disjoint read_memset_disjoint read_memcpy_disjoint

section \<open>Address ranges\<close>

definition apart :: "region \<Rightarrow> region \<Rightarrow> bool" where
  "apart r r' \<longleftrightarrow> fst r + snd r \<le> fst r' \<or> fst r' + snd r' \<le> fst r"

definition lies_in :: "region \<Rightarrow> region \<Rightarrow> bool" where
  "lies_in r r' \<longleftrightarrow> fst r' \<le> fst r \<and> fst r + snd r \<le> fst r' + snd r'"

definition cells :: "region set \<Rightarrow> addr set" where
  "cells R = (\<Union>(a, n)\<in>R. {a..<a + n})"

lemma apart_sym: "apart r r' \<longleftrightarrow> apart r' r"
  by (auto simp: apart_def)

lemma apart_pair [simp]: "apart (a, n) (b, k) \<longleftrightarrow> a + n \<le> b \<or> b + k \<le> a"
  by (simp add: apart_def)

lemma lies_in_pair [simp]: "lies_in (a, n) (b, k) \<longleftrightarrow> b \<le> a \<and> a + n \<le> b + k"
  by (simp add: lies_in_def)

lemma cells_iff: "x \<in> cells R \<longleftrightarrow> (\<exists>a n. (a, n) \<in> R \<and> a \<le> x \<and> x < a + n)"
  by (fastforce simp: cells_def)

lemma cells_empty [simp]: "cells {} = {}"
  by (simp add: cells_def)

lemma cells_insert [simp]: "cells (insert (a, n) R) = {a..<a + n} \<union> cells R"
  by (simp add: cells_def)

lemma cells_Un [simp]: "cells (R \<union> S) = cells R \<union> cells S"
  by (simp add: cells_def)

lemma cells_mono: "R \<subseteq> S \<Longrightarrow> cells R \<subseteq> cells S"
  by (auto simp: cells_def)

lemma cellsI: "(a, n) \<in> R \<Longrightarrow> a \<le> x \<Longrightarrow> x < a + n \<Longrightarrow> x \<in> cells R"
  by (auto simp: cells_iff)

lemma range_sub_cells: "(a, n) \<in> R \<Longrightarrow> {a..<a + n} \<subseteq> cells R"
  by (auto intro: cellsI)

lemma lies_in_sub_cells: "lies_in (b, k) (a, n) \<Longrightarrow> (a, n) \<in> R \<Longrightarrow> {b..<b + k} \<subseteq> cells R"
  by (auto simp: cells_iff) (meson le_trans less_le_trans)

section \<open>Outcomes\<close>

text \<open>
  What running an operation may come to: it returns a value, it ends the process
  (\<^verbatim>\<open>std::abort\<close>) leaving a last state, it reads an array out of its bounds (undefined
  behaviour), or it never returns.
\<close>

datatype ('a, 's) outcome = Returns 'a 's | Aborts 's | Undefined | Diverges

fun and_then :: "('a, 's) outcome \<Rightarrow> ('a \<Rightarrow> 's \<Rightarrow> ('b, 's) outcome) \<Rightarrow> ('b, 's) outcome" where
  "and_then (Returns x s) f = f x s"
| "and_then (Aborts s) f = Aborts s"
| "and_then Undefined f = Undefined"
| "and_then Diverges f = Diverges"

lemma and_then_eq_Returns:
  "and_then r f = Returns y t \<longleftrightarrow> (\<exists>x s. r = Returns x s \<and> f x s = Returns y t)"
  by (cases r) auto

end
