(* ===== verification/BlockHeader.thy ===== *)
theory BlockHeader
  imports Prelude
begin

text \<open>
  The universal 16-byte header in front of every user pointer and the arithmetic helpers of
  \<^verbatim>\<open>src/BlockHeader.hpp\<close>: the constants, the tiers, the header as a record that is loaded
  from and stored to byte memory, \<open>headerOf\<close> and \<open>userPointerOf\<close>, \<open>alignUp\<close> and
  \<open>isPowerOfTwo\<close>.  The lemmas show that a stored header is read back, that accesses to other
  addresses leave it alone, that \<open>alignUp\<close> rounds up to the next multiple and that the bit trick
  of \<open>isPowerOfTwo\<close> decides what its name says.
\<close>

section \<open>Constants and tiers\<close>

definition kHeaderSize :: nat where
  [const_simps]: "kHeaderSize = 16"

definition kDefaultAlignment :: nat where
  [const_simps]: "kDefaultAlignment = 16"

definition kSmallMax :: nat where
  [const_simps]: "kSmallMax = 4096"

definition kMediumMax :: nat where
  [const_simps]: "kMediumMax = 256 * 1024"

definition kStateAllocated :: nat where
  [const_simps]: "kStateAllocated = 0xA11C"

definition kStateFreed :: nat where
  [const_simps]: "kStateFreed = 0xF4EE"

datatype Tier = Small | Medium | Large | AlignedShim | DebugShim

fun tier_code :: "Tier \<Rightarrow> nat" where
  "tier_code Small = 0x51"
| "tier_code Medium = 0x52"
| "tier_code Large = 0x53"
| "tier_code AlignedShim = 0x54"
| "tier_code DebugShim = 0x55"

section \<open>The header\<close>

record BlockHeader =
  payloadSize :: nat
  tier :: nat
  state :: nat
  offset :: nat

definition load_header :: "memory \<Rightarrow> addr \<Rightarrow> BlockHeader" where
  "load_header m h =
     \<lparr>payloadSize = read64 m h, tier = read16 m (h + 8), state = read16 m (h + 10),
      offset = read32 m (h + 12)\<rparr>"

definition store_header :: "addr \<Rightarrow> BlockHeader \<Rightarrow> memory \<Rightarrow> memory" where
  "store_header h b m =
     write32 (h + 12) (offset b)
       (write16 (h + 10) (state b) (write16 (h + 8) (tier b) (write64 h (payloadSize b) m)))"

definition store_state :: "addr \<Rightarrow> nat \<Rightarrow> memory \<Rightarrow> memory" where
  "store_state h v m = write16 (h + 10) v m"

definition hasValidTier :: "BlockHeader \<Rightarrow> bool" where
  "hasValidTier b \<longleftrightarrow> tier_code Small \<le> tier b \<and> tier b \<le> tier_code DebugShim"

text \<open>\<^verbatim>\<open>static_cast<Tier>(tier)\<close>; \<^term>\<open>None\<close> for a value that names no enumerator.\<close>

definition tierValue :: "BlockHeader \<Rightarrow> Tier option" where
  "tierValue b = List.find (\<lambda>t. tier_code t = tier b) [Small, Medium, Large, AlignedShim, DebugShim]"

definition headerOf :: "addr \<Rightarrow> addr" where
  "headerOf userPtr = userPtr - kHeaderSize"

definition userPointerOf :: "addr \<Rightarrow> addr" where
  "userPointerOf blockStart = blockStart + kHeaderSize"

section \<open>Arithmetic helpers\<close>

definition alignUp :: "nat \<Rightarrow> nat \<Rightarrow> nat" where
  "alignUp v alignment =
     unat ((to_size v + to_size alignment - 1) AND NOT (to_size alignment - 1))"

definition isPowerOfTwo :: "nat \<Rightarrow> bool" where
  "isPowerOfTwo v \<longleftrightarrow> v \<noteq> 0 \<and> to_size v AND (to_size v - 1) = 0"

section \<open>Lemmas\<close>

lemma headerOf_userPointerOf [simp]: "headerOf (userPointerOf b) = b"
  by (simp add: headerOf_def userPointerOf_def)

lemma tier_code_inj: "tier_code t = tier_code t' \<longleftrightarrow> t = t'"
  by (cases t; cases t') simp_all

lemma tierValue_code: "tier b = tier_code t \<Longrightarrow> tierValue b = Some t"
  by (cases t) (simp_all add: tierValue_def)

lemma hasValidTier_iff: "hasValidTier b \<longleftrightarrow> (\<exists>t. tierValue b = Some t)"
proof
  assume "hasValidTier b"
  then have "tier b \<in> {0x51, 0x52, 0x53, 0x54, 0x55}"
    by (auto simp: hasValidTier_def)
  then show "\<exists>t. tierValue b = Some t" by (auto simp: tierValue_def)
next
  assume "\<exists>t. tierValue b = Some t"
  then obtain t where "tierValue b = Some t" ..
  then have "tier b = tier_code t"
    by (auto simp: tierValue_def split: if_splits)
  then show "hasValidTier b" by (cases t) (simp_all add: hasValidTier_def)
qed

subsection \<open>Headers in memory\<close>

lemma load_store_header [mem_simps]:
  "load_header (store_header h b m) h =
     \<lparr>payloadSize = payloadSize b mod 2 ^ 64, tier = tier b mod 2 ^ 16, state = state b mod 2 ^ 16,
      offset = offset b mod 2 ^ 32\<rparr>"
  by (simp add: load_header_def store_header_def mem_simps)

lemma load_header_cong:
  "(\<And>x. h \<le> x \<Longrightarrow> x < h + 16 \<Longrightarrow> m x = m' x) \<Longrightarrow> load_header m h = load_header m' h"
  unfolding load_header_def by (auto intro!: read_le_cong)

lemma store_header_out [mem_simps]: "x < h \<or> h + 16 \<le> x \<Longrightarrow> store_header h b m x = m x"
  by (auto simp: store_header_def write_le_def)

lemma store_state_out [mem_simps]: "x < h + 10 \<or> h + 12 \<le> x \<Longrightarrow> store_state h v m x = m x"
  by (auto simp: store_state_def write_le_def)

lemma load_store_header_apart:
  "h + 16 \<le> h' \<or> h' + 16 \<le> h \<Longrightarrow> load_header (store_header h b m) h' = load_header m h'"
  by (rule load_header_cong) (auto simp: mem_simps)

lemma load_store_state [mem_simps]:
  "load_header (store_state h v m) h = (load_header m h)\<lparr>state := v mod 2 ^ 16\<rparr>"
  by (simp add: load_header_def store_state_def mem_simps)

text \<open>A link written over the first eight bytes only touches the size field.\<close>

lemma load_write64_header [mem_simps]:
  "load_header (write64 h v m) h = (load_header m h)\<lparr>payloadSize := v mod 2 ^ 64\<rparr>"
  by (simp add: load_header_def mem_simps)

subsection \<open>Powers of two\<close>

lemma nat_and_pred_zero_iff:
  "0 < n \<Longrightarrow> n AND (n - 1) = (0 :: nat) \<longleftrightarrow> (\<exists>k. n = 2 ^ k)"
proof (induction n rule: less_induct)
  case (less n)
  show ?case
  proof (cases "even n")
    case True
    then obtain j where n: "n = 2 * j" ..
    with less.prems have j: "0 < j" by simp
    have "n AND (n - 1) = 2 * (j AND (j - 1))"
    proof -
      have "(2 * j - 1) div 2 = j - 1" using j by presburger
      then show ?thesis by (subst and_nat_rec) (simp add: n)
    qed
    moreover have "j AND (j - 1) = 0 \<longleftrightarrow> (\<exists>k. j = 2 ^ k)"
      using j n by (intro less.IH) auto
    moreover have "(\<exists>k. n = 2 ^ k) \<longleftrightarrow> (\<exists>k. j = 2 ^ k)"
    proof
      assume "\<exists>k. n = 2 ^ k"
      then obtain k where k: "n = 2 ^ k" ..
      with True have "k \<noteq> 0" by (metis odd_one power_0)
      then obtain i where "k = Suc i" by (cases k) auto
      with k n show "\<exists>k. j = 2 ^ k" by auto
    next
      assume "\<exists>k. j = 2 ^ k"
      then obtain k where "j = 2 ^ k" ..
      then have "n = 2 ^ Suc k" using n by simp
      then show "\<exists>k. n = 2 ^ k" ..
    qed
    ultimately show ?thesis by simp
  next
    case False
    then obtain j where n: "n = 2 * j + 1" by (auto elim: oddE)
    have "n AND (n - 1) = 2 * j"
      by (subst and_nat_rec) (simp add: n)
    moreover have "(\<exists>k. n = 2 ^ k) \<longleftrightarrow> j = 0"
    proof
      assume "\<exists>k. n = 2 ^ k"
      then obtain k where k: "n = 2 ^ k" ..
      with False have "k = 0" by (cases k) auto
      with k n show "j = 0" by simp
    next
      assume "j = 0"
      then have "n = 2 ^ 0" using n by simp
      then show "\<exists>k. n = 2 ^ k" ..
    qed
    ultimately show ?thesis by simp
  qed
qed

lemma unat_to_size_pred:
  "0 < v \<Longrightarrow> v < size_max \<Longrightarrow> unat (to_size v - 1) = v - 1"
  by (metis One_nat_def gr0_conv_Suc less_not_refl unat_0 unat_minus_one unat_to_size)

lemma isPowerOfTwo_iff:
  assumes "v < size_max"
  shows "isPowerOfTwo v \<longleftrightarrow> (\<exists>k < 64. v = 2 ^ k)"
proof (cases "v = 0")
  case True
  then show ?thesis by (simp add: isPowerOfTwo_def)
next
  case False
  then have "to_size v AND (to_size v - 1) = 0 \<longleftrightarrow> v AND (v - 1) = 0"
    using assms
    by (simp add: unat_eq_zero [symmetric] unsigned_and_eq unat_to_size_pred del: unat_eq_zero)
  also have "\<dots> \<longleftrightarrow> (\<exists>k. v = 2 ^ k)"
    using False by (intro nat_and_pred_zero_iff) simp
  also have "\<dots> \<longleftrightarrow> (\<exists>k < 64. v = 2 ^ k)"
    using assms power_less_imp_less_exp [of "2 :: nat" _ 64] by (auto simp: size_max_def)
  finally show ?thesis using False by (simp add: isPowerOfTwo_def)
qed

lemma alignUp_pow2:
  assumes "v + 2 ^ k - 1 < size_max"
  shows "alignUp v (2 ^ k) = (v + 2 ^ k - 1) div 2 ^ k * 2 ^ k"
proof -
  have p: "(0 :: nat) < 2 ^ k" by simp
  have mask: "to_size (2 ^ k) - 1 = (mask k :: 64 word)"
    by (simp add: to_size_def mask_eq_exp_minus_1)
  have "to_size v + to_size (2 ^ k) - 1 = to_size (v + 2 ^ k - 1)"
    using p by (simp add: to_size_def of_nat_diff Suc_leI trans_le_add2 del: One_nat_def)
  then have "alignUp v (2 ^ k) = unat (to_size (v + 2 ^ k - 1) AND NOT (mask k))"
    by (simp add: alignUp_def mask)
  then show ?thesis using assms by (simp add: unat_and_not_mask)
qed

lemma ceil_mult_bounds:
  fixes v a :: nat
  assumes "0 < a"
  shows "a dvd (v + a - 1) div a * a" "v \<le> (v + a - 1) div a * a" "(v + a - 1) div a * a < v + a"
proof -
  have "(v + a - 1) div a * a = (v + a - 1) - (v + a - 1) mod a"
    by (simp add: minus_mod_eq_div_mult)
  moreover have "(v + a - 1) mod a < a" using assms by simp
  ultimately show "v \<le> (v + a - 1) div a * a" "(v + a - 1) div a * a < v + a"
    using assms by linarith+
qed simp

lemma alignUp_bounds:
  assumes "isPowerOfTwo a" "a < size_max" "v + a - 1 < size_max"
  shows "a dvd alignUp v a" "v \<le> alignUp v a" "alignUp v a < v + a"
proof -
  from assms obtain k where a: "a = 2 ^ k" by (auto simp: isPowerOfTwo_iff)
  with assms(3) have eq: "alignUp v a = (v + a - 1) div a * a" by (simp add: alignUp_pow2)
  have "0 < a" using a by simp
  note b = ceil_mult_bounds [OF this, of v]
  show "a dvd alignUp v a" "v \<le> alignUp v a" "alignUp v a < v + a"
    unfolding eq using b by auto
qed

lemma isPowerOfTwo_pow2: "k < 64 \<Longrightarrow> isPowerOfTwo (2 ^ k)"
  using power_strict_increasing [of k 64 "2 :: nat"]
  by (subst isPowerOfTwo_iff) (auto simp: size_max_def)

lemma isPowerOfTwo_16 [simp]: "isPowerOfTwo 16"
  using isPowerOfTwo_pow2 [of 4] by simp

lemma alignUp_16:
  assumes "v + 15 < size_max"
  shows "alignUp v 16 = (v + 15) div 16 * 16"
  using alignUp_pow2 [of v 4] assms by simp

section \<open>Properties\<close>

text \<open>
  \<open>alignUp\<close> computes, with one addition and one mask, the least multiple of a power-of-two
  alignment that is not below the value, as long as the addition does not wrap.
\<close>

lemma alignUp_least_multiple:
  assumes "isPowerOfTwo a" "a < size_max" "v + a - 1 < size_max"
  shows "a dvd alignUp v a \<and> v \<le> alignUp v a \<and> (\<forall>w. a dvd w \<and> v \<le> w \<longrightarrow> alignUp v a \<le> w)"
proof (intro conjI allI impI)
  fix w assume w: "a dvd w \<and> v \<le> w"
  show "alignUp v a \<le> w"
  proof (rule ccontr)
    assume "\<not> alignUp v a \<le> w"
    then have lt: "w < alignUp v a" by simp
    obtain i where i: "alignUp v a = a * i" using alignUp_bounds(1) [OF assms] ..
    obtain j where j: "w = a * j" using w by (auto elim: dvdE)
    have "a * j < a * i" using lt i j by simp
    then have "j + 1 \<le> i" by simp
    then have "a * (j + 1) \<le> a * i" by (rule mult_le_mono2)
    then have "w + a \<le> alignUp v a" using i j by simp
    then show False using alignUp_bounds(3) [OF assms] w by simp
  qed
qed (use alignUp_bounds [OF assms] in auto)

text \<open>
  A header stored in front of a block is read back field by field when its fields fit their
  widths, and storing it changes no byte outside its sixteen.
\<close>

lemma header_roundtrip:
  assumes "payloadSize b < 2 ^ 64" "tier b < 2 ^ 16" "state b < 2 ^ 16" "offset b < 2 ^ 32"
  shows "load_header (store_header h b m) h = b \<and>
    (\<forall>x. x < h \<or> h + kHeaderSize \<le> x \<longrightarrow> store_header h b m x = m x)"
  using assms by (simp add: mem_simps const_simps)

end
