(* ===== verification/SystemMemory.thy ===== *)
theory SystemMemory
  imports BlockHeader
begin

text \<open>
  The operating-system layer, \<^verbatim>\<open>src/SystemMemory.hpp\<close> and \<^verbatim>\<open>src/SystemMemory.cpp\<close>.  The machine
  is the byte memory and the list of live mappings of the process.  The system calls (\<^verbatim>\<open>mmap\<close> or
  \<^verbatim>\<open>VirtualAlloc\<close>, \<^verbatim>\<open>munmap\<close> or \<^verbatim>\<open>VirtualFree\<close>, and the page size) are not code of the repository:
  they are the parameter \<open>os\<close> of every definition, and \<open>os_ok\<close> states what their documentation
  promises.  \<open>os_state\<close> is whatever else the kernel keeps; nothing here looks at it.

  \<open>MappedRegion\<close> is the owning wrapper of a mapping: a span that is empty exactly when its length
  is \<open>0\<close>.  The lemmas show that a mapping is page-aligned, large enough and apart from every other
  live mapping, and that moving and resetting regions neither leaks nor unmaps twice.
\<close>

section \<open>The machine and the operating system\<close>

record machine =
  mem :: memory
  mapped :: "region list"
  os_state :: nat

record os =
  os_mmap :: "machine \<Rightarrow> nat \<Rightarrow> addr option \<times> machine"
  os_munmap :: "machine \<Rightarrow> addr \<Rightarrow> nat \<Rightarrow> machine"
  os_page :: nat

definition machine_ok :: "machine \<Rightarrow> bool" where
  "machine_ok M \<longleftrightarrow> sorted_wrt apart (mapped M) \<and> (\<forall>r \<in> set (mapped M). 0 < snd r)"

definition mapped_cells :: "machine \<Rightarrow> addr set" where
  "mapped_cells M = cells (set (mapped M))"

definition os_ok :: "os \<Rightarrow> bool" where
  "os_ok os \<longleftrightarrow>
     (\<exists>k. os_page os = 2 ^ k \<and> 4 \<le> k \<and> k \<le> 30) \<and>
     (\<forall>M n p M'. machine_ok M \<and> os_mmap os M n = (Some p, M') \<longrightarrow>
        0 < n \<and> 0 < p \<and> os_page os dvd p \<and> p + n \<le> 2 ^ 56 \<and>
        (\<forall>r \<in> set (mapped M). apart (p, n) r) \<and> mapped M' = (p, n) # mapped M \<and>
        (\<forall>x. x < p \<or> p + n \<le> x \<longrightarrow> mem M' x = mem M x)) \<and>
     (\<forall>M n M'. os_mmap os M n = (None, M') \<longrightarrow> mem M' = mem M \<and> mapped M' = mapped M) \<and>
     (\<forall>M p n. machine_ok M \<and> (p, n) \<in> set (mapped M) \<longrightarrow>
        mapped (os_munmap os M p n) = remove1 (p, n) (mapped M) \<and>
        (\<forall>x. x < p \<or> p + n \<le> x \<longrightarrow> mem (os_munmap os M p n) x = mem M x))"

section \<open>SystemMemory\<close>

definition pageSize :: "os \<Rightarrow> nat" where
  "pageSize os = os_page os"

definition roundToPages :: "os \<Rightarrow> nat \<Rightarrow> nat" where
  "roundToPages os sz =
     (let page = pageSize os in size_sub (size_add sz page) 1 div page * page)"

definition SystemMemory_map :: "os \<Rightarrow> nat \<Rightarrow> machine \<Rightarrow> region \<times> machine" where
  "SystemMemory_map os sz M =
     (if sz = 0 then ((0, 0), M)
      else let rounded = roundToPages os sz in
        case os_mmap os M rounded of
          (None, M') \<Rightarrow> ((0, 0), M')
        | (Some ptr, M') \<Rightarrow> ((ptr, rounded), M'))"

definition SystemMemory_unmap :: "os \<Rightarrow> region \<Rightarrow> machine \<Rightarrow> machine" where
  "SystemMemory_unmap os r M = (if snd r = 0 then M else os_munmap os M (fst r) (snd r))"

section \<open>MappedRegion\<close>

definition MappedRegion_make :: "os \<Rightarrow> nat \<Rightarrow> machine \<Rightarrow> region \<times> machine" where
  "MappedRegion_make os sz M = SystemMemory_map os sz M"

definition MappedRegion_valid :: "region \<Rightarrow> bool" where
  "MappedRegion_valid r \<longleftrightarrow> snd r \<noteq> 0"

text \<open>The default constructor, and the span, its address and its length.\<close>

definition MappedRegion_default :: region where
  "MappedRegion_default = (0, 0)"

definition MappedRegion_get :: "region \<Rightarrow> region" where
  "MappedRegion_get r = r"

definition MappedRegion_data :: "region \<Rightarrow> addr" where
  "MappedRegion_data r = fst (MappedRegion_get r)"

definition MappedRegion_size :: "region \<Rightarrow> nat" where
  "MappedRegion_size r = snd (MappedRegion_get r)"

text \<open>\<open>release\<close> gives the span away and leaves the wrapper empty: (result, new self).\<close>

definition MappedRegion_release :: "region \<Rightarrow> region \<times> region" where
  "MappedRegion_release r = (r, (0, 0))"

definition MappedRegion_reset :: "os \<Rightarrow> region \<Rightarrow> machine \<Rightarrow> region \<times> machine" where
  "MappedRegion_reset os r M =
     (if snd r \<noteq> 0 then ((0, 0), SystemMemory_unmap os r M) else (r, M))"

text \<open>The move constructor: (new object, the one moved from).\<close>

definition MappedRegion_move :: "region \<Rightarrow> region \<times> region" where
  "MappedRegion_move other = MappedRegion_release other"

text \<open>The destructor, and the move assignment \<^verbatim>\<open>self = std::move(other)\<close> of two distinct objects.\<close>

definition MappedRegion_destroy :: "os \<Rightarrow> region \<Rightarrow> machine \<Rightarrow> machine" where
  "MappedRegion_destroy os r M = snd (MappedRegion_reset os r M)"

definition MappedRegion_move_assign ::
    "os \<Rightarrow> region \<Rightarrow> region \<Rightarrow> machine \<Rightarrow> region \<times> region \<times> machine" where
  "MappedRegion_move_assign os self other M =
     (let (_, M') = MappedRegion_reset os self M; (given, rest) = MappedRegion_release other
      in (given, rest, M'))"

text \<open>Destroying a vector of regions destroys its elements in order.\<close>

definition destroy_regions :: "os \<Rightarrow> region list \<Rightarrow> machine \<Rightarrow> machine" where
  "destroy_regions os rs M = fold (MappedRegion_destroy os) rs M"

section \<open>An operating system that answers every promise\<close>

text \<open>
  It places each mapping after all the live ones and gives up past \<open>2 ^ 56\<close>.  Witnesses run the
  model on it.
\<close>

definition top_of :: "region list \<Rightarrow> nat" where
  "top_of rs = fold (\<lambda>(a, n) t. max t (a + n)) rs 65536"

definition linear_os :: os where
  "linear_os =
     \<lparr>os_mmap = (\<lambda>M n.
        let p = (top_of (mapped M) + 4095) div 4096 * 4096 in
        if n = 0 \<or> 2 ^ 56 < p + n then (None, M)
        else (Some p, M\<lparr>mapped := (p, n) # mapped M\<rparr>)),
      os_munmap = (\<lambda>M p n. M\<lparr>mapped := remove1 (p, n) (mapped M)\<rparr>),
      os_page = 4096\<rparr>"

definition blank_machine :: machine where
  "blank_machine = \<lparr>mem = (\<lambda>_. 0), mapped = [], os_state = 0\<rparr>"

section \<open>Lemmas\<close>

text \<open>A region that has been moved from owns nothing: its end unmaps nothing, and the new object has the mapping.\<close>

lemma MappedRegion_moved:
  "MappedRegion_destroy os (snd (MappedRegion_move r)) M = M" "MappedRegion_get (fst (MappedRegion_move r)) = MappedRegion_get r"
  "snd (MappedRegion_move r) = MappedRegion_default"
  by (simp_all add: MappedRegion_move_def MappedRegion_release_def MappedRegion_destroy_def MappedRegion_reset_def MappedRegion_default_def)

lemma blank_machine_ok: "machine_ok blank_machine"
  by (simp add: machine_ok_def blank_machine_def)

lemma linear_os_map:
  assumes "0 < sz" "sz \<le> 2 ^ 50" "top_of (mapped M) \<le> 2 ^ 50"
  shows "MappedRegion_make linear_os sz M =
    (let p = (top_of (mapped M) + 4095) div 4096 * 4096; n = (sz + 4095) div 4096 * 4096
     in ((p, n), M\<lparr>mapped := (p, n) # mapped M\<rparr>))"
proof -
  have "roundToPages linear_os sz = (sz + 4095) div 4096 * 4096"
    using assms by (simp add: roundToPages_def pageSize_def linear_os_def size_max_def)
  moreover have "0 < (sz + 4095) div 4096 * 4096" using assms(1) by simp
  moreover have "(sz + 4095) div 4096 * 4096 \<le> sz + 4095" "(top_of (mapped M) + 4095) div 4096 * 4096 \<le> top_of (mapped M) + 4095"
    by simp_all
  then have "(top_of (mapped M) + 4095) div 4096 * 4096 + (sz + 4095) div 4096 * 4096 \<le> 2 ^ 56"
    using assms(2,3) by simp
  ultimately show ?thesis using assms(1)
    by (simp add: MappedRegion_make_def SystemMemory_map_def linear_os_def Let_def)
qed

lemma top_of_ge: "65536 \<le> top_of rs \<and> (\<forall>r \<in> set rs. fst r + snd r \<le> top_of rs)"
proof -
  have "t \<le> fold (\<lambda>(a, n) t. max t (a + n)) rs t \<and>
        (\<forall>r \<in> set rs. fst r + snd r \<le> fold (\<lambda>(a, n) t. max t (a + n)) rs t)" for t :: nat
  proof (induction rs arbitrary: t)
    case Nil
    then show ?case by simp
  next
    case (Cons r rs)
    obtain a n where r: "r = (a, n)" by (cases r)
    show ?case using Cons.IH [of "max t (a + n)"] by (auto simp: r)
  qed
  then show ?thesis by (simp add: top_of_def)
qed

lemma linear_os_ok: "os_ok linear_os"
proof -
  have "\<exists>k. (4096 :: nat) = 2 ^ k \<and> 4 \<le> k \<and> k \<le> 30" by (rule exI [of _ 12]) simp
  moreover have "apart ((top_of rs + 4095) div 4096 * 4096, n) r"
    "0 < (top_of rs + 4095) div 4096 * 4096" if "r \<in> set rs" for n r rs
    using ceil_mult_bounds [of 4096 "top_of rs"] top_of_ge [of rs] that
    by (auto simp: apart_def)
  moreover have "0 < (top_of rs + 4095) div 4096 * 4096" for rs
    using ceil_mult_bounds [of 4096 "top_of rs"] top_of_ge [of rs] by linarith
  ultimately show ?thesis
    by (auto simp: os_ok_def linear_os_def Let_def split: if_splits)
qed

lemma os_page_pow2: "os_ok os \<Longrightarrow> \<exists>k. os_page os = 2 ^ k \<and> 4 \<le> k \<and> k \<le> 30"
  by (simp add: os_ok_def)

lemma os_page_bounds:
  assumes "os_ok os"
  shows "16 \<le> os_page os" "os_page os \<le> 2 ^ 30" "16 dvd os_page os"
proof -
  obtain k where k: "os_page os = 2 ^ k" "4 \<le> k" "k \<le> 30" using os_page_pow2 [OF assms] by blast
  have "(2 :: nat) ^ 4 dvd 2 ^ k" using k by (intro le_imp_power_dvd)
  then show "16 dvd os_page os" using k by simp
  then show "16 \<le> os_page os" using k by (auto intro: dvd_imp_le)
  show "os_page os \<le> 2 ^ 30" unfolding k(1) using k(3) by (intro power_increasing) auto
qed

lemma mmap_Some:
  assumes "os_ok os" "machine_ok M" "os_mmap os M n = (Some p, M')"
  shows "0 < n" "0 < p" "os_page os dvd p" "p + n \<le> 2 ^ 56" "\<forall>r \<in> set (mapped M). apart (p, n) r"
    "mapped M' = (p, n) # mapped M" "\<forall>x. x < p \<or> p + n \<le> x \<longrightarrow> mem M' x = mem M x"
  using assms unfolding os_ok_def by blast+

lemma mmap_None:
  "os_ok os \<Longrightarrow> os_mmap os M n = (None, M') \<Longrightarrow> mem M' = mem M \<and> mapped M' = mapped M"
  unfolding os_ok_def by blast

lemma munmap_mapped:
  assumes "os_ok os" "machine_ok M" "(p, n) \<in> set (mapped M)"
  shows "mapped (os_munmap os M p n) = remove1 (p, n) (mapped M)"
    "x < p \<or> p + n \<le> x \<Longrightarrow> mem (os_munmap os M p n) x = mem M x"
  using assms unfolding os_ok_def by blast+

lemma roundToPages_bounds:
  assumes "os_ok os" "sz + os_page os < size_max"
  shows "os_page os dvd roundToPages os sz" "sz \<le> roundToPages os sz"
    "roundToPages os sz < sz + os_page os"
proof -
  have p: "0 < os_page os" using os_page_bounds [OF assms(1)] by simp
  have eq: "roundToPages os sz = (sz + os_page os - 1) div os_page os * os_page os"
    using assms p by (simp add: roundToPages_def pageSize_def Let_def)
  show "os_page os dvd roundToPages os sz" "sz \<le> roundToPages os sz"
    "roundToPages os sz < sz + os_page os"
    unfolding eq using ceil_mult_bounds [OF p, of sz] by auto
qed

text \<open>What a successful and a failed call of \<open>map\<close> leave behind.\<close>

lemma SystemMemory_map_valid:
  assumes "os_ok os" "machine_ok M" "SystemMemory_map os sz M = ((p, n), M')" "n \<noteq> 0"
  shows "0 < sz" "n = roundToPages os sz" "0 < p" "os_page os dvd p" "p + n \<le> 2 ^ 56"
    "\<forall>r \<in> set (mapped M). apart (p, n) r" "mapped M' = (p, n) # mapped M"
    "\<forall>x. x < p \<or> p + n \<le> x \<longrightarrow> mem M' x = mem M x" "machine_ok M'"
proof -
  from assms(3,4) have call: "os_mmap os M n = (Some p, M')" and sz: "0 < sz"
    and n: "n = roundToPages os sz"
    by (auto simp: SystemMemory_map_def Let_def split: if_splits prod.splits option.splits)
  note ok = mmap_Some [OF assms(1,2) call]
  show "0 < sz" "n = roundToPages os sz" by (fact sz, fact n)
  show "0 < p" "os_page os dvd p" "p + n \<le> 2 ^ 56" "\<forall>r \<in> set (mapped M). apart (p, n) r"
    "mapped M' = (p, n) # mapped M" "\<forall>x. x < p \<or> p + n \<le> x \<longrightarrow> mem M' x = mem M x"
    using ok by blast+
  show "machine_ok M'"
    using ok assms(2) by (simp add: machine_ok_def)
qed

lemma SystemMemory_map_invalid:
  assumes "os_ok os" "machine_ok M" "SystemMemory_map os sz M = ((p, 0), M')"
  shows "mem M' = mem M \<and> mapped M' = mapped M"
proof (cases "os_mmap os M (roundToPages os sz)")
  case (Pair r M1)
  show ?thesis
  proof (cases "sz = 0")
    case True
    then show ?thesis using assms by (simp add: SystemMemory_map_def)
  next
    case False
    then show ?thesis
      using assms Pair mmap_None [OF assms(1), of M "roundToPages os sz" M1]
        mmap_Some(1) [OF assms(1,2), of "roundToPages os sz" _ M1]
      by (cases r) (auto simp: SystemMemory_map_def Let_def)
  qed
qed

text \<open>The two ways out, as callers that test \<open>valid\<close> see them.\<close>

lemma MappedRegion_make_cases:
  assumes "os_ok os" "machine_ok M" "MappedRegion_make os sz M = (r, M')"
  obtains (failed) "\<not> MappedRegion_valid r" "mem M' = mem M" "mapped M' = mapped M"
  | (valid) p n where "r = (p, n)" "MappedRegion_valid r" "n = roundToPages os sz" "0 < n" "0 < p"
      "os_page os dvd p" "p + n \<le> 2 ^ 56" "\<forall>r \<in> set (mapped M). apart (p, n) r"
      "mapped M' = (p, n) # mapped M" "\<forall>x. x < p \<or> p + n \<le> x \<longrightarrow> mem M' x = mem M x"
      "machine_ok M'"
proof (cases "MappedRegion_valid r")
  case False
  then obtain p where "r = (p, 0)" by (cases r) (auto simp: MappedRegion_valid_def)
  then show thesis
    using failed False assms SystemMemory_map_invalid [OF assms(1,2), of sz p M']
    by (simp add: MappedRegion_make_def)
next
  case True
  obtain p n where r: "r = (p, n)" by (cases r)
  then have n: "n \<noteq> 0" using True by (simp add: MappedRegion_valid_def)
  have "SystemMemory_map os sz M = ((p, n), M')" using assms(3) r by (simp add: MappedRegion_make_def)
  note v = SystemMemory_map_valid [OF assms(1,2) this n]
  show thesis using valid [OF r True v(2) _ v(3-9)] n by simp
qed

lemma mapped_cells_Cons: "mapped M' = (p, n) # mapped M \<Longrightarrow> mapped_cells M' = {p..<p + n} \<union> mapped_cells M"
  by (simp add: mapped_cells_def)

lemma mapped_cells_cong: "mapped M' = mapped M \<Longrightarrow> mapped_cells M' = mapped_cells M"
  by (simp add: mapped_cells_def)

lemma machine_ok_cong: "mapped M' = mapped M \<Longrightarrow> machine_ok M' = machine_ok M"
  by (simp add: machine_ok_def)

lemma sorted_wrt_apart:
  "sorted_wrt apart rs \<Longrightarrow> r \<in> set rs \<Longrightarrow> r' \<in> set rs \<Longrightarrow> r \<noteq> r' \<Longrightarrow> apart r r'"
  by (induction rs) (auto simp: apart_sym)

lemma machine_ok_apart:
  "machine_ok M \<Longrightarrow> r \<in> set (mapped M) \<Longrightarrow> r' \<in> set (mapped M) \<Longrightarrow> r \<noteq> r' \<Longrightarrow> apart r r'"
  unfolding machine_ok_def by (blast intro: sorted_wrt_apart)

lemma apart_distinct: "sorted_wrt apart rs \<Longrightarrow> \<forall>r \<in> set rs. 0 < snd r \<Longrightarrow> distinct rs"
  by (induction rs) (auto simp: apart_def)

lemma machine_ok_distinct: "machine_ok M \<Longrightarrow> distinct (mapped M)"
  unfolding machine_ok_def by (blast intro: apart_distinct)

lemma sorted_wrt_remove1: "sorted_wrt P xs \<Longrightarrow> sorted_wrt P (remove1 x xs)"
  by (induction xs) (auto dest: set_remove1_subset [THEN subsetD])

lemma SystemMemory_unmap_mapped:
  assumes "os_ok os" "machine_ok M" "(p, n) \<in> set (mapped M)"
  defines "M' \<equiv> SystemMemory_unmap os (p, n) M"
  shows "mapped M' = remove1 (p, n) (mapped M)" "machine_ok M'"
    "mapped_cells M' = mapped_cells M - {p..<p + n}"
    "\<forall>x. x < p \<or> p + n \<le> x \<longrightarrow> mem M' x = mem M x"
proof -
  have n: "0 < n" using assms(2,3) by (auto simp: machine_ok_def)
  then have M': "M' = os_munmap os M p n" by (simp add: M'_def SystemMemory_unmap_def)
  note un = munmap_mapped [OF assms(1-3)]
  show mp: "mapped M' = remove1 (p, n) (mapped M)" using un by (simp add: M')
  show "\<forall>x. x < p \<or> p + n \<le> x \<longrightarrow> mem M' x = mem M x" using un by (simp add: M')
  show "machine_ok M'"
    using assms(2) set_remove1_subset [of "(p, n)" "mapped M"]
    by (auto simp: machine_ok_def mp sorted_wrt_remove1)
  have set': "set (mapped M') = set (mapped M) - {(p, n)}"
    using machine_ok_distinct [OF assms(2)] by (simp add: mp)
  have "x \<in> mapped_cells M' \<longleftrightarrow> x \<in> mapped_cells M \<and> x \<notin> {p..<p + n}" for x
  proof
    assume "x \<in> mapped_cells M'"
    then obtain a k where ak: "(a, k) \<in> set (mapped M)" "(a, k) \<noteq> (p, n)" "a \<le> x" "x < a + k"
      unfolding mapped_cells_def cells_iff set' by blast
    then have "apart (a, k) (p, n)" using machine_ok_apart [OF assms(2)] assms(3) by blast
    then show "x \<in> mapped_cells M \<and> x \<notin> {p..<p + n}"
      using ak by (auto simp: mapped_cells_def intro: cellsI)
  next
    assume "x \<in> mapped_cells M \<and> x \<notin> {p..<p + n}"
    then show "x \<in> mapped_cells M'"
      unfolding mapped_cells_def cells_iff set' by fastforce
  qed
  then show "mapped_cells M' = mapped_cells M - {p..<p + n}" by blast
qed

section \<open>Properties\<close>

text \<open>
  A region that \<open>SystemMemory::map\<close> hands out is page-aligned, page-sized, covers the request,
  keeps apart from every live mapping and leaves all other memory alone; when no region comes
  back, nothing changed.
\<close>

lemma SystemMemory_map_fresh:
  assumes "os_ok os" "machine_ok M" "sz + pageSize os < size_max"
    and "SystemMemory_map os sz M = ((p, n), M')"
  shows "if n = 0 then mem M' = mem M \<and> mapped M' = mapped M
    else pageSize os dvd p \<and> pageSize os dvd n \<and> sz \<le> n \<and> n < sz + pageSize os \<and>
      (\<forall>r \<in> set (mapped M). apart (p, n) r) \<and> mapped M' = (p, n) # mapped M \<and>
      (\<forall>x. x < p \<or> p + n \<le> x \<longrightarrow> mem M' x = mem M x)"
proof (cases "n = 0")
  case True
  then show ?thesis using SystemMemory_map_invalid [OF assms(1,2)] assms(4) by simp
next
  case False
  then show ?thesis
    using SystemMemory_map_valid [OF assms(1,2,4) False] roundToPages_bounds [OF assms(1), of sz]
      assms(3) by (simp add: pageSize_def)
qed

text \<open>
  C31: mapping and then destroying the owner gives back exactly the mappings there were before, and
  the bytes of every other mapping are unchanged.
\<close>

theorem MappedRegion_roundtrip:
  assumes "os_ok os" "machine_ok M" "MappedRegion_make os sz M = (r, M1)"
  shows "mapped (MappedRegion_destroy os r M1) = mapped M \<and>
    (\<forall>x \<in> mapped_cells M. mem (MappedRegion_destroy os r M1) x = mem M x)"
  using assms
proof (cases rule: MappedRegion_make_cases)
  case failed
  then show ?thesis
    by (simp add: MappedRegion_destroy_def MappedRegion_reset_def MappedRegion_valid_def)
next
  case (valid p n)
  have d: "MappedRegion_destroy os r M1 = SystemMemory_unmap os (p, n) M1"
    using valid by (simp add: MappedRegion_destroy_def MappedRegion_reset_def)
  note un = SystemMemory_unmap_mapped [OF assms(1) \<open>machine_ok M1\<close>, of p n]
  have out: "x < p \<or> p + n \<le> x" if "x \<in> mapped_cells M" for x
    using valid that by (fastforce simp: mapped_cells_def cells_iff)
  have "mem (SystemMemory_unmap os (p, n) M1) x = mem M x" if "x \<in> mapped_cells M" for x
    using out [OF that] valid un(4) by auto
  then show ?thesis using valid un(1) unfolding d by simp
qed

theorem MappedRegion_roundtrip_witness:
  "\<exists>r M1. MappedRegion_make linear_os 5000 \<lparr>mem = (\<lambda>_. 7), mapped = [(65536, 4096)], os_state = 0\<rparr> = (r, M1)
     \<and> MappedRegion_valid r \<and> mapped (MappedRegion_destroy linear_os r M1) = [(65536, 4096)]"
proof -
  let ?M = "\<lparr>mem = (\<lambda>_. 7), mapped = [(65536, 4096)], os_state = 0\<rparr>"
  have ok: "machine_ok ?M" by (simp add: machine_ok_def)
  have run: "MappedRegion_make linear_os 5000 ?M = ((69632, 8192), ?M\<lparr>mapped := [(69632, 8192), (65536, 4096)]\<rparr>)"
    by (simp add: MappedRegion_make_def SystemMemory_map_def roundToPages_def pageSize_def linear_os_def
        top_of_def size_max_def Let_def)
  show ?thesis using run MappedRegion_roundtrip [OF linear_os_ok ok run] by (simp add: MappedRegion_valid_def)
qed

end
