(* ===== verification/TierContract.thy ===== *)
theory TierContract
  imports SystemMemory
begin

text \<open>
  The contract the three tiers (size-class pools, segment heap, large allocator) share, as the
  locale \<open>tier\<close>.  A tier holds mappings (\<open>regs\<close>) and has handed out extents, each under a key
  (the size class of a pool block, nothing for the other tiers).  \<open>inv M s R\<close> says that in machine
  \<open>M\<close> and tier state \<open>s\<close> exactly the extents \<open>R\<close> are outstanding.  The laws are those a caller
  needs: an allocation gives a fresh extent that is large enough or null, a free takes an
  outstanding one back, both leave the bytes of the other outstanding extents and of foreign
  mappings alone, extents lie in the lower \<open>2 ^ 56\<close> bytes of the address space, and the invariant does
  not depend on the bytes of outstanding extents, which
  belong to the user.
\<close>

section \<open>What one call may change\<close>

text \<open>
  \<open>tier_step E M rs M' rs'\<close>: a call that leaves the extents \<open>E\<close> outstanding and moves the tier's
  mappings from \<open>rs\<close> to \<open>rs'\<close> only wrote inside its own mappings and outside \<open>E\<close>, and the foreign
  mappings are the same as before.
\<close>

definition tier_step :: "region set \<Rightarrow> machine \<Rightarrow> region list \<Rightarrow> machine \<Rightarrow> region list \<Rightarrow> bool" where
  "tier_step E M rs M' rs' \<longleftrightarrow>
     (\<forall>x. x \<notin> cells (set rs \<union> set rs') - cells E \<longrightarrow> mem M' x = mem M x) \<and>
     set (mapped M') - set rs' = set (mapped M) - set rs"

lemma tier_step_refl: "tier_step E M rs M rs"
  by (simp add: tier_step_def)

lemma tier_step_memD:
  "tier_step E M rs M' rs' \<Longrightarrow> x \<notin> cells (set rs \<union> set rs') - cells E \<Longrightarrow> mem M' x = mem M x"
  unfolding tier_step_def by blast

lemma tier_step_mem:
  assumes "mapped M' = mapped M" "\<And>x. x \<notin> cells (set rs) - cells E \<Longrightarrow> mem M' x = mem M x"
  shows "tier_step E M rs M' rs"
  using assms by (simp add: tier_step_def)

text \<open>Adding a fresh mapping is such a step, whatever the new memory holds.\<close>

lemma fresh_not_mapped: "\<forall>q \<in> set (mapped M). apart r q \<Longrightarrow> 0 < snd r \<Longrightarrow> r \<notin> set (mapped M)"
  by (auto simp: apart_def)

lemma fresh_out:
  "\<forall>q \<in> set (mapped M). apart (p, n) q \<Longrightarrow> x \<in> mapped_cells M \<Longrightarrow> x < p \<or> p + n \<le> x"
  by (fastforce simp: mapped_cells_def cells_iff)

lemma tier_step_map:
  assumes "mapped M' = (p, n) # mapped M" "\<forall>q \<in> set (mapped M). apart (p, n) q" "0 < n"
    "\<forall>x. x < p \<or> p + n \<le> x \<longrightarrow> mem M' x = mem M x" "set rs' = insert (p, n) (set rs)"
    "cells E \<subseteq> mapped_cells M"
  shows "tier_step E M rs M' rs'"
proof -
  have "mem M' x = mem M x" if "x \<notin> cells (set rs \<union> set rs') - cells E" for x
  proof (cases "x < p \<or> p + n \<le> x")
    case False
    then have "x \<in> mapped_cells M" using that assms(5,6) by auto
    then show ?thesis using fresh_out [OF assms(2)] False by blast
  qed (use assms(4) in blast)
  moreover have "set (mapped M') - set rs' = set (mapped M) - set rs"
    using fresh_not_mapped [OF assms(2)] assms(1,3,5) by auto
  ultimately show ?thesis by (simp add: tier_step_def)
qed

text \<open>So is giving one of the tier's own mappings back, when nothing outstanding lies in it.\<close>

lemma tier_step_unmap:
  assumes "machine_ok M" "(p, n) \<in> set rs" "set rs \<subseteq> set (mapped M)"
    "mapped M' = remove1 (p, n) (mapped M)" "set rs' = set rs - {(p, n)}"
    "\<forall>x. x < p \<or> p + n \<le> x \<longrightarrow> mem M' x = mem M x" "cells E \<inter> {p..<p + n} = {}"
  shows "tier_step E M rs M' rs'"
proof -
  have "mem M' x = mem M x" if "x \<notin> cells (set rs \<union> set rs') - cells E" for x
  proof (cases "x < p \<or> p + n \<le> x")
    case False
    then have "x \<in> cells (set rs)" using assms(2) by (intro cellsI) auto
    then have "x \<in> cells E" using that by auto
    then show ?thesis using False assms(7) by auto
  qed (use assms(6) in blast)
  moreover have "set (mapped M') - set rs' = set (mapped M) - set rs"
    using machine_ok_distinct [OF assms(1)] assms(2-5) by auto
  ultimately show ?thesis by (simp add: tier_step_def)
qed

text \<open>Steps that only ever add mappings compose.\<close>

lemma tier_step_trans:
  assumes "tier_step E M rs M1 rs1" "tier_step E M1 rs1 M2 rs2" "set rs \<subseteq> set rs1" "set rs1 \<subseteq> set rs2"
  shows "tier_step E M rs M2 rs2"
proof -
  have "mem M2 x = mem M x" if "x \<notin> cells (set rs \<union> set rs2) - cells E" for x
  proof -
    have "x \<notin> cells (set rs \<union> set rs1) - cells E" "x \<notin> cells (set rs1 \<union> set rs2) - cells E"
      using that assms(3,4) cells_mono [of "set rs1" "set rs2"] by auto
    then show ?thesis using tier_step_memD [OF assms(1)] tier_step_memD [OF assms(2)] by simp
  qed
  then show ?thesis using assms(1,2) by (simp add: tier_step_def)
qed

text \<open>The bytes of a foreign mapping survive any call.\<close>

lemma tier_step_foreign:
  assumes "tier_step E M rs M' rs'" "machine_ok M" "machine_ok M'"
    "set rs \<subseteq> set (mapped M)" "set rs' \<subseteq> set (mapped M')" "x \<in> cells (set (mapped M) - set rs)"
  shows "mem M' x = mem M x"
proof -
  obtain a n where an: "(a, n) \<in> set (mapped M) - set rs" "a \<le> x" "x < a + n"
    using assms(6) by (auto simp: cells_iff)
  have an': "(a, n) \<in> set (mapped M') - set rs'"
    using assms(1) an(1) unfolding tier_step_def by blast
  have "x \<notin> cells (set rs \<union> set rs')"
  proof
    assume "x \<in> cells (set rs \<union> set rs')"
    then obtain b k where bk: "(b, k) \<in> set rs \<or> (b, k) \<in> set rs'" "b \<le> x" "x < b + k"
      by (auto simp: cells_iff)
    have "apart (a, n) (b, k)"
    proof (cases "(b, k) \<in> set rs")
      case True
      then show ?thesis using machine_ok_apart [OF assms(2)] an(1) assms(4) by blast
    next
      case False
      then show ?thesis using machine_ok_apart [OF assms(3)] an' bk(1) assms(5) by blast
    qed
    then show False using an bk by simp
  qed
  then show ?thesis using assms(1) unfolding tier_step_def by blast
qed

lemma cells_sndE:
  assumes "x \<in> cells (snd ` R)"
  obtains k p n where "(k, p, n) \<in> R" "p \<le> x" "x < p + n"
proof -
  obtain p n where "(p, n) \<in> snd ` R" "p \<le> x" "x < p + n" using assms unfolding cells_iff by blast
  then show thesis using that by (metis imageE prod.collapse)
qed

section \<open>Clients of a tier\<close>

text \<open>
  All a client can do: ask for extents, give outstanding ones back, and write into them.  The
  relation collects the states reached this way from a start state, with what is outstanding.
\<close>

inductive tier_reach ::
    "('k \<Rightarrow> nat \<Rightarrow> bool) \<Rightarrow> ('k \<Rightarrow> nat \<Rightarrow> machine \<Rightarrow> 's \<Rightarrow> (addr \<times> machine \<times> 's) option) \<Rightarrow>
     ('k \<Rightarrow> addr \<Rightarrow> machine \<Rightarrow> 's \<Rightarrow> machine \<times> 's) \<Rightarrow> ('k \<Rightarrow> machine \<Rightarrow> 's \<Rightarrow> addr \<Rightarrow> nat) \<Rightarrow>
     machine \<Rightarrow> 's \<Rightarrow> machine \<Rightarrow> 's \<Rightarrow> ('k \<times> region) set \<Rightarrow> bool"
  for admits alloc free capacity M0 s0 where
  start: "tier_reach admits alloc free capacity M0 s0 M0 s0 {}"
| null: "tier_reach admits alloc free capacity M0 s0 M s R \<Longrightarrow> admits k n \<Longrightarrow>
    alloc k n M s = Some (0, M', s') \<Longrightarrow> tier_reach admits alloc free capacity M0 s0 M' s' R"
| block: "tier_reach admits alloc free capacity M0 s0 M s R \<Longrightarrow> admits k n \<Longrightarrow>
    alloc k n M s = Some (p, M', s') \<Longrightarrow> p \<noteq> 0 \<Longrightarrow>
    tier_reach admits alloc free capacity M0 s0 M' s' (insert (k, p, capacity k M' s' p) R)"
| release: "tier_reach admits alloc free capacity M0 s0 M s R \<Longrightarrow> (k, p, len) \<in> R \<Longrightarrow>
    free k p M s = (M', s') \<Longrightarrow>
    tier_reach admits alloc free capacity M0 s0 M' s' (R - {(k, p, len)})"
| user_write: "tier_reach admits alloc free capacity M0 s0 M s R \<Longrightarrow> mapped M' = mapped M \<Longrightarrow>
    (\<forall>x. x \<notin> cells (snd ` R) \<longrightarrow> mem M' x = mem M x) \<Longrightarrow>
    tier_reach admits alloc free capacity M0 s0 M' s R"

section \<open>The contract\<close>

text \<open>
  \<open>resident\<close> is the part that does not depend on the operations: a component that lives in its own
  mappings and whose invariant ignores the bytes of what it has handed out.  \<open>ext\<close> gives the extent
  of an outstanding item.
\<close>

locale resident =
  fixes regs :: "'s \<Rightarrow> region list"
    and inv :: "machine \<Rightarrow> 's \<Rightarrow> 'e set \<Rightarrow> bool"
    and ext :: "'e \<Rightarrow> region"
  assumes inv_machine: "inv M s R \<Longrightarrow> machine_ok M \<and> set (regs s) \<subseteq> set (mapped M)"
    and inv_frame: "inv M s R \<Longrightarrow> machine_ok M' \<Longrightarrow> set (regs s) \<subseteq> set (mapped M') \<Longrightarrow>
      (\<And>x. x \<in> cells (set (regs s)) - cells (ext ` R) \<Longrightarrow> mem M' x = mem M x) \<Longrightarrow> inv M' s R"
begin

text \<open>The user may write anything into outstanding extents.\<close>

lemma inv_user_write:
  assumes "inv M s R" "mapped M' = mapped M" "\<And>x. x \<notin> cells (ext ` R) \<Longrightarrow> mem M' x = mem M x"
  shows "inv M' s R"
  using assms inv_machine [OF assms(1)] machine_ok_cong [OF assms(2)]
  by (intro inv_frame [OF assms(1)]) auto

text \<open>Steps of other components, which keep to their own mappings, do not disturb a tier.\<close>

lemma inv_foreign_step:
  assumes "inv M s R" "tier_step E M rs M' rs'" "machine_ok M'"
    "set rs \<subseteq> set (mapped M)" "set rs' \<subseteq> set (mapped M')" "set (regs s) \<inter> set rs = {}"
  shows "inv M' s R \<and> set (regs s) \<inter> set rs' = {}"
proof -
  have own: "set (regs s) \<subseteq> set (mapped M) - set rs"
    using inv_machine [OF assms(1)] assms(6) by blast
  then have own': "set (regs s) \<subseteq> set (mapped M') - set rs'"
    using assms(2) unfolding tier_step_def by blast
  have "mem M' x = mem M x" if "x \<in> cells (set (regs s))" for x
    using tier_step_foreign [OF assms(2) _ assms(3-5)] inv_machine [OF assms(1)]
      cells_mono [OF own] that by blast
  then have "inv M' s R" using own' assms(3) by (intro inv_frame [OF assms(1)]) auto
  then show ?thesis using own' by blast
qed

end

locale tier = resident regs inv snd
  for regs :: "'s \<Rightarrow> region list"
    and inv :: "machine \<Rightarrow> 's \<Rightarrow> ('k \<times> region) set \<Rightarrow> bool" +
  fixes admits :: "'k \<Rightarrow> nat \<Rightarrow> bool"
    and alloc :: "'k \<Rightarrow> nat \<Rightarrow> machine \<Rightarrow> 's \<Rightarrow> (addr \<times> machine \<times> 's) option"
    and free :: "'k \<Rightarrow> addr \<Rightarrow> machine \<Rightarrow> 's \<Rightarrow> machine \<times> 's"
    and capacity :: "'k \<Rightarrow> machine \<Rightarrow> 's \<Rightarrow> addr \<Rightarrow> nat"
  assumes inv_within: "inv M s R \<Longrightarrow> (k, e) \<in> R \<Longrightarrow> \<exists>r \<in> set (regs s). lies_in e r"
    and inv_apart: "inv M s R \<Longrightarrow> (k, e) \<in> R \<Longrightarrow> (k', e') \<in> R \<Longrightarrow> (k, e) \<noteq> (k', e') \<Longrightarrow> apart e e'"
    and inv_bounded: "inv M s R \<Longrightarrow> (k, p, len) \<in> R \<Longrightarrow> p + len \<le> 2 ^ 56"
    and alloc_returns: "inv M s R \<Longrightarrow> admits k n \<Longrightarrow> \<exists>p M' s'. alloc k n M s = Some (p, M', s')"
    and alloc_null: "inv M s R \<Longrightarrow> admits k n \<Longrightarrow> alloc k n M s = Some (0, M', s') \<Longrightarrow> inv M' s' R"
    and alloc_block: "inv M s R \<Longrightarrow> admits k n \<Longrightarrow> alloc k n M s = Some (p, M', s') \<Longrightarrow> p \<noteq> 0 \<Longrightarrow>
      n \<le> capacity k M' s' p \<and> 16 dvd p \<and> (k, p, capacity k M' s' p) \<notin> R \<and>
      inv M' s' (insert (k, p, capacity k M' s' p) R)"
    and capacity_outstanding: "inv M s R \<Longrightarrow> (k, p, len) \<in> R \<Longrightarrow> capacity k M s p = len"
    and alloc_step: "inv M s R \<Longrightarrow> admits k n \<Longrightarrow> alloc k n M s = Some (p, M', s') \<Longrightarrow>
      tier_step (snd ` R) M (regs s) M' (regs s')"
    and free_block: "inv M s R \<Longrightarrow> (k, p, len) \<in> R \<Longrightarrow> free k p M s = (M', s') \<Longrightarrow>
      inv M' s' (R - {(k, p, len)})"
    and free_step: "inv M s R \<Longrightarrow> (k, p, len) \<in> R \<Longrightarrow> free k p M s = (M', s') \<Longrightarrow>
      tier_step (snd ` (R - {(k, p, len)})) M (regs s) M' (regs s')"
begin

lemma outstanding_mapped:
  assumes "inv M s R" "(k, p, len) \<in> R"
  shows "{p..<p + len} \<subseteq> mapped_cells M"
proof -
  obtain r where "r \<in> set (regs s)" "lies_in (p, len) r" using inv_within [OF assms] by blast
  then have "{p..<p + len} \<subseteq> cells (set (regs s))"
    using lies_in_sub_cells [of p len "fst r" "snd r"] by simp
  also have "\<dots> \<subseteq> mapped_cells M"
    using inv_machine [OF assms(1)] by (auto simp: mapped_cells_def intro: cells_mono [THEN subsetD])
  finally show ?thesis .
qed

lemma outstanding_cells:
  assumes "inv M s R"
  shows "cells (snd ` R) \<subseteq> cells (set (regs s))"
proof
  fix x assume "x \<in> cells (snd ` R)"
  then obtain k p n where e: "(k, p, n) \<in> R" "p \<le> x" "x < p + n" by (rule cells_sndE)
  obtain r where "r \<in> set (regs s)" "lies_in (p, n) r" using inv_within [OF assms e(1)] by blast
  then show "x \<in> cells (set (regs s))" using lies_in_sub_cells [of p n "fst r" "snd r" "set (regs s)"] e by auto
qed

text \<open>A new extent overlaps no outstanding one.\<close>

lemma alloc_fresh:
  assumes "inv M s R" "admits k n" "alloc k n M s = Some (p, M', s')" "p \<noteq> 0"
  defines "len \<equiv> capacity k M' s' p"
  shows "n \<le> len" "16 dvd p" "inv M' s' (insert (k, p, len) R)"
    "{p..<p + len} \<subseteq> mapped_cells M'" "(k', e) \<in> R \<Longrightarrow> apart (p, len) e"
proof -
  note b = alloc_block [OF assms(1-4), folded len_def]
  show "n \<le> len" "16 dvd p" and inv': "inv M' s' (insert (k, p, len) R)" using b by auto
  show "{p..<p + len} \<subseteq> mapped_cells M'" using outstanding_mapped [OF inv'] by blast
  show "apart (p, len) e" if "(k', e) \<in> R"
    using inv_apart [OF inv', of k "(p, len)" k' e] that b by auto
qed

text \<open>User data survives allocations, and frees of other extents.\<close>

lemma alloc_keeps_data:
  assumes "inv M s R" "admits k n" "alloc k n M s = Some (p, M', s')" "(k', a, len) \<in> R"
    "a \<le> x" "x < a + len"
  shows "mem M' x = mem M x"
proof -
  have "x \<in> cells (snd ` R)" using assms(4-6) by (force simp: cells_iff)
  then show ?thesis using alloc_step [OF assms(1-3)] by (simp add: tier_step_def)
qed

lemma free_keeps_data:
  assumes "inv M s R" "(k, p, n) \<in> R" "free k p M s = (M', s')"
    "(k', a, len) \<in> R - {(k, p, n)}" "a \<le> x" "x < a + len"
  shows "mem M' x = mem M x"
proof -
  have "x \<in> cells (snd ` (R - {(k, p, n)}))" using assms(4-6) unfolding cells_iff by force
  then show ?thesis using free_step [OF assms(1-3)] by (simp add: tier_step_def)
qed

text \<open>The invariant holds in every state a client can reach, by rule induction.\<close>

lemma reach_inv:
  assumes "tier_reach admits alloc free capacity M0 s0 M s R" "inv M0 s0 {}"
  shows "inv M s R"
  using assms
proof (induction rule: tier_reach.induct)
  case start
  then show ?case .
next
  case (null M s R k n M' s')
  then show ?case by (blast intro: alloc_null)
next
  case (block M s R k n p M' s')
  then show ?case using alloc_block by blast
next
  case (release M s R k p len M' s')
  then show ?case by (blast intro: free_block)
next
  case (user_write M s R M')
  then show ?case using inv_user_write [of M s R M'] by auto
qed

end

end
