(* ===== verification/SegmentHeap.thy ===== *)
theory SegmentHeap
  imports TierContract Complex_Main
begin

text \<open>
  The medium tier, \<^verbatim>\<open>src/SegmentHeap.hpp\<close> and \<^verbatim>\<open>src/SegmentHeap.cpp\<close>: boundary-tagged blocks in
  4 MiB segments and eighteen bins of free blocks, linked through nodes inside the free blocks.
  The definitions work on byte memory exactly as the code does; a walk along a bin's links, which
  would not end on a cyclic list, is a \<^theory_text>\<open>partial_function\<close> whose value \<^term>\<open>None\<close> means that it
  does not return.  The rest of the theory relates the bit fields of a tag and the four words a
  block may hold to plain functions; the invariant and the proofs of the operations are in the
  theories that follow.
\<close>

section \<open>Constants and tags\<close>

definition kSegmentSize :: nat where [const_simps]: "kSegmentSize = 4 * 1024 * 1024"
definition kBlockHeaderSize :: nat where [const_simps]: "kBlockHeaderSize = 16"
definition kNodeOffset :: nat where [const_simps]: "kNodeOffset = 32"
definition kMinBlockSize :: nat where [const_simps]: "kMinBlockSize = 48"
definition kBinCount :: nat where [const_simps]: "kBinCount = 18"

definition kFreeFlag :: nat where [const_simps]: "kFreeFlag = 1"
definition kFirstFlag :: nat where [const_simps]: "kFirstFlag = 2"
definition kLastFlag :: nat where [const_simps]: "kLastFlag = 4"
definition kFlagMask :: nat where [const_simps]: "kFlagMask = 15"

text \<open>The word \<open>sizeAndFlags\<close>: its size, its flags, and the words with one of them changed.\<close>

definition tag_size :: "nat \<Rightarrow> nat" where
  "tag_size v = unat (to_size v AND NOT (to_size kFlagMask))"

definition tag_setSize :: "nat \<Rightarrow> nat \<Rightarrow> nat" where
  "tag_setSize v sz = unat ((to_size v AND to_size kFlagMask) OR to_size sz)"

definition tag_test :: "nat \<Rightarrow> nat \<Rightarrow> bool" where
  "tag_test flag v \<longleftrightarrow> to_size v AND to_size flag \<noteq> 0"

definition tag_setFlag :: "nat \<Rightarrow> bool \<Rightarrow> nat \<Rightarrow> nat" where
  "tag_setFlag flag on v =
     (if on then unat (to_size v OR to_size flag) else unat (to_size v AND NOT (to_size flag)))"

section \<open>Blocks and nodes in memory\<close>

text \<open>\<^verbatim>\<open>MediumBlock\<close>: \<open>sizeAndFlags\<close> at offset 0, \<open>prevSize\<close> at offset 8.\<close>

definition mb_size :: "memory \<Rightarrow> addr \<Rightarrow> nat" where
  "mb_size m block = tag_size (read64 m block)"

definition mb_setSize :: "addr \<Rightarrow> nat \<Rightarrow> memory \<Rightarrow> memory" where
  "mb_setSize block sz m = write64 block (tag_setSize (read64 m block) sz) m"

definition mb_isFree :: "memory \<Rightarrow> addr \<Rightarrow> bool" where
  "mb_isFree m block = tag_test kFreeFlag (read64 m block)"

definition mb_isFirst :: "memory \<Rightarrow> addr \<Rightarrow> bool" where
  "mb_isFirst m block = tag_test kFirstFlag (read64 m block)"

definition mb_isLast :: "memory \<Rightarrow> addr \<Rightarrow> bool" where
  "mb_isLast m block = tag_test kLastFlag (read64 m block)"

definition mb_setFlag :: "addr \<Rightarrow> nat \<Rightarrow> bool \<Rightarrow> memory \<Rightarrow> memory" where
  "mb_setFlag block flag on m = write64 block (tag_setFlag flag on (read64 m block)) m"

definition mb_prevSize :: "memory \<Rightarrow> addr \<Rightarrow> nat" where
  "mb_prevSize m block = read64 m (block + 8)"

definition mb_setPrevSize :: "addr \<Rightarrow> nat \<Rightarrow> memory \<Rightarrow> memory" where
  "mb_setPrevSize block sz m = write64 (block + 8) sz m"

text \<open>\<^verbatim>\<open>FreeNode\<close>: \<open>prev\<close> at offset 0, \<open>next\<close> at offset 8.\<close>

definition node_prev :: "memory \<Rightarrow> addr \<Rightarrow> addr" where
  "node_prev m node = read64 m node"

definition node_next :: "memory \<Rightarrow> addr \<Rightarrow> addr" where
  "node_next m node = read64 m (node + 8)"

definition node_setPrev :: "addr \<Rightarrow> addr \<Rightarrow> memory \<Rightarrow> memory" where
  "node_setPrev node p m = write64 node p m"

definition node_setNext :: "addr \<Rightarrow> addr \<Rightarrow> memory \<Rightarrow> memory" where
  "node_setNext node p m = write64 (node + 8) p m"

definition blockOf :: "addr \<Rightarrow> addr" where "blockOf payload = payload - kBlockHeaderSize"
definition payloadOf :: "addr \<Rightarrow> addr" where "payloadOf block = block + kBlockHeaderSize"
definition nodeOf :: "addr \<Rightarrow> addr" where "nodeOf block = block + kNodeOffset"
definition blockOfNode :: "addr \<Rightarrow> addr" where "blockOfNode node = node - kNodeOffset"

definition nextBlock :: "memory \<Rightarrow> addr \<Rightarrow> addr" where
  "nextBlock m block = block + mb_size m block"

definition prevBlock :: "memory \<Rightarrow> addr \<Rightarrow> addr" where
  "prevBlock m block = block - mb_prevSize m block"

section \<open>Bins\<close>

text \<open>\<^verbatim>\<open>std::bit_width\<close>.\<close>

fun bit_width :: "nat \<Rightarrow> nat" where
  "bit_width n = (if n = 0 then 0 else Suc (bit_width (n div 2)))"

declare bit_width.simps [simp del]

definition binIndex :: "nat \<Rightarrow> nat" where
  "binIndex sz =
     (let width = bit_width sz; raw = (if 6 < width then width - 6 else 0) in min raw (kBinCount - 1))"

record SegmentHeap =
  bins :: "addr list"
  segments :: "region list"

definition SegmentHeap_init :: SegmentHeap where
  "SegmentHeap_init = \<lparr>bins = replicate kBinCount 0, segments = []\<rparr>"

definition insertFree :: "addr \<Rightarrow> memory \<times> addr list \<Rightarrow> memory \<times> addr list" where
  "insertFree block = (\<lambda>(m, heads).
     let index = binIndex (mb_size m block);
         node = nodeOf block;
         m1 = node_setNext node (heads ! index) (node_setPrev node 0 m);
         m2 = (if node_next m1 node \<noteq> 0 then node_setPrev (node_next m1 node) node m1 else m1)
     in (mb_setFlag block kFreeFlag True m2, heads[index := node]))"

definition removeFree :: "addr \<Rightarrow> memory \<times> addr list \<Rightarrow> memory \<times> addr list" where
  "removeFree block = (\<lambda>(m, heads).
     let node = nodeOf block;
         (m1, heads1) = (if node_prev m node \<noteq> 0
                        then (node_setNext (node_prev m node) (node_next m node) m, heads)
                        else (m, heads[binIndex (mb_size m block) := node_next m node]));
         m2 = (if node_next m1 node \<noteq> 0
               then node_setPrev (node_next m1 node) (node_prev m1 node) m1 else m1)
     in (mb_setFlag block kFreeFlag False m2, heads1))"

text \<open>The inner loop of \<open>findFit\<close>: the block of the first node that fits, or null.\<close>

partial_function (option) walkBin :: "memory \<Rightarrow> nat \<Rightarrow> addr \<Rightarrow> addr option" where
  "walkBin m need node =
     (if node = 0 then Some 0
      else let block = blockOfNode node in
        if need \<le> mb_size m block then Some block else walkBin m need (node_next m node))"

text \<open>The outer loop, from bin \<open>index\<close> on.\<close>

function findFitFrom :: "memory \<Rightarrow> addr list \<Rightarrow> nat \<Rightarrow> nat \<Rightarrow> addr option" where
  "findFitFrom m heads need index =
     (if index < kBinCount
      then do {
        block \<leftarrow> walkBin m need (heads ! index);
        if block \<noteq> 0 then Some block else findFitFrom m heads need (Suc index)
      }
      else Some 0)"
  by pat_completeness auto
termination
  by (relation "measure (\<lambda>(m, heads, need, index). kBinCount - index)") auto

declare findFitFrom.simps [simp del]

definition findFit :: "nat \<Rightarrow> memory \<times> addr list \<Rightarrow> addr option" where
  "findFit need = (\<lambda>(m, heads). findFitFrom m heads need (binIndex need))"

section \<open>Segments\<close>

definition addSegment :: "os \<Rightarrow> machine \<Rightarrow> SegmentHeap \<Rightarrow> bool \<times> machine \<times> SegmentHeap" where
  "addSegment os M heap =
     (let (segment, M1) = MappedRegion_make os kSegmentSize M in
      if \<not> MappedRegion_valid segment then (False, M1, heap)
      else
        let block = fst segment;
            m1 = mb_setSize block (snd segment) (write64 block 0 (mem M1));
            m2 = mb_setFlag block kFirstFlag True m1;
            m3 = mb_setFlag block kLastFlag True m2;
            m4 = mb_setPrevSize block 0 m3;
            (m5, bs) = insertFree block (m4, bins heap)
        in (True, M1\<lparr>mem := m5\<rparr>, heap\<lparr>bins := bs, segments := segments heap @ [segment]\<rparr>))"

definition splitBlock :: "addr \<Rightarrow> nat \<Rightarrow> memory \<times> addr list \<Rightarrow> memory \<times> addr list" where
  "splitBlock block need = (\<lambda>(m, heads).
     let remainder = size_sub (mb_size m block) need in
     if remainder < kMinBlockSize then (m, heads)
     else
       let rest = block + need;
           m1 = mb_setSize rest remainder (write64 rest 0 m);
           m2 = mb_setFlag rest kLastFlag (mb_isLast m1 block) m1;
           m3 = mb_setPrevSize rest need m2;
           m4 = mb_setSize block need m3;
           m5 = mb_setFlag block kLastFlag False m4;
           m6 = (if \<not> mb_isLast m5 rest then mb_setPrevSize (nextBlock m5 rest) remainder m5 else m5)
       in insertFree rest (m6, heads))"

text \<open>
  \<open>releaseSegment\<close>: erasing an element of the vector of regions unmaps that region and keeps the
  others in order.
\<close>

definition releaseSegment :: "os \<Rightarrow> addr \<Rightarrow> machine \<Rightarrow> SegmentHeap \<Rightarrow> machine \<times> SegmentHeap" where
  "releaseSegment os block M heap =
     (let keep = (let (m, bs) = insertFree block (mem M, bins heap)
                  in (M\<lparr>mem := m\<rparr>, heap\<lparr>bins := bs\<rparr>)) in
      if length (segments heap) \<le> 1 then keep
      else case List.find (\<lambda>r. fst r = block) (segments heap) of
             Some r \<Rightarrow> (MappedRegion_destroy os r M, heap\<lparr>segments := remove1 r (segments heap)\<rparr>)
           | None \<Rightarrow> keep)"

section \<open>Allocation and release\<close>

definition carve :: "addr \<Rightarrow> nat \<Rightarrow> machine \<Rightarrow> SegmentHeap \<Rightarrow> addr \<times> machine \<times> SegmentHeap" where
  "carve block need M heap =
     (let (m, bs) = splitBlock block need (removeFree block (mem M, bins heap))
      in (payloadOf block, M\<lparr>mem := m\<rparr>, heap\<lparr>bins := bs\<rparr>))"

definition SegmentHeap_allocate ::
    "os \<Rightarrow> nat \<Rightarrow> machine \<Rightarrow> SegmentHeap \<Rightarrow> (addr \<times> machine \<times> SegmentHeap) option" where
  "SegmentHeap_allocate os bytes M heap =
     (let need = max (size_add (alignUp bytes kDefaultAlignment) kBlockHeaderSize) kMinBlockSize in
      if kSegmentSize < need then Some (0, M, heap)
      else do {
        block \<leftarrow> findFit need (mem M, bins heap);
        if block \<noteq> 0 then Some (carve block need M heap)
        else
          let (ok, M1, heap1) = addSegment os M heap in
          if \<not> ok then Some (0, M1, heap1)
          else do {
            block1 \<leftarrow> findFit need (mem M1, bins heap1);
            if block1 = 0 then Some (0, M1, heap1) else Some (carve block1 need M1 heap1)
          }
      })"

text \<open>The two halves of coalescing, and the whole of \<open>deallocate\<close>.\<close>

definition coalesceNext :: "addr \<Rightarrow> memory \<times> addr list \<Rightarrow> memory \<times> addr list" where
  "coalesceNext block = (\<lambda>(m, heads).
     if \<not> mb_isLast m block then
       let next = nextBlock m block in
       if mb_isFree m next then
         let (m1, heads1) = removeFree next (m, heads);
             m2 = mb_setSize block (size_add (mb_size m1 block) (mb_size m1 next)) m1;
             m3 = mb_setFlag block kLastFlag (mb_isLast m2 next) m2
         in (m3, heads1)
       else (m, heads)
     else (m, heads))"

definition coalescePrev :: "addr \<Rightarrow> memory \<times> addr list \<Rightarrow> addr \<times> memory \<times> addr list" where
  "coalescePrev block = (\<lambda>(m, heads).
     if \<not> mb_isFirst m block then
       let prev = prevBlock m block in
       if mb_isFree m prev then
         let (m1, heads1) = removeFree prev (m, heads);
             m2 = mb_setSize prev (size_add (mb_size m1 prev) (mb_size m1 block)) m1;
             m3 = mb_setFlag prev kLastFlag (mb_isLast m2 block) m2
         in (prev, m3, heads1)
       else (block, m, heads)
     else (block, m, heads))"

definition SegmentHeap_deallocate :: "os \<Rightarrow> addr \<Rightarrow> machine \<Rightarrow> SegmentHeap \<Rightarrow> machine \<times> SegmentHeap" where
  "SegmentHeap_deallocate os payload M heap =
     (let (block, m2, heads2) = coalescePrev (blockOf payload) (coalesceNext (blockOf payload) (mem M, bins heap));
          m3 = (if \<not> mb_isLast m2 block
                then mb_setPrevSize (nextBlock m2 block) (mb_size m2 block) m2 else m2)
      in if mb_isFirst m3 block \<and> mb_isLast m3 block
         then releaseSegment os block (M\<lparr>mem := m3\<rparr>) (heap\<lparr>bins := heads2\<rparr>)
         else let (m4, heads4) = insertFree block (m3, heads2)
              in (M\<lparr>mem := m4\<rparr>, heap\<lparr>bins := heads4\<rparr>))"

definition SegmentHeap_payloadCapacity :: "addr \<Rightarrow> memory \<Rightarrow> nat" where
  "SegmentHeap_payloadCapacity payload m = size_sub (mb_size m (payload - kBlockHeaderSize)) kBlockHeaderSize"

text \<open>
  \<open>externalFragmentation\<close> walks every bin; its \<^verbatim>\<open>double\<close> result is an exact real here.
\<close>

partial_function (option) walkSizes :: "memory \<Rightarrow> addr \<Rightarrow> nat \<Rightarrow> nat \<Rightarrow> (nat \<times> nat) option" where
  "walkSizes m node totalFree largestFree =
     (if node = 0 then Some (totalFree, largestFree)
      else let sz = mb_size m (blockOfNode node) in
        walkSizes m (node_next m node) (size_add totalFree sz) (max largestFree sz))"

fun walkAllSizes :: "memory \<Rightarrow> addr list \<Rightarrow> nat \<Rightarrow> nat \<Rightarrow> (nat \<times> nat) option" where
  "walkAllSizes m [] totalFree largestFree = Some (totalFree, largestFree)"
| "walkAllSizes m (node # nodes) totalFree largestFree =
     do {
       (t, l) \<leftarrow> walkSizes m node totalFree largestFree;
       walkAllSizes m nodes t l
     }"

definition externalFragmentation :: "memory \<Rightarrow> SegmentHeap \<Rightarrow> real option" where
  "externalFragmentation m heap =
     do {
       (totalFree, largestFree) \<leftarrow> walkAllSizes m (bins heap) 0 0;
       Some (if totalFree = 0 then 0 else 1 - real largestFree / real totalFree)
     }"

definition SegmentHeap_destroy :: "os \<Rightarrow> SegmentHeap \<Rightarrow> machine \<Rightarrow> machine" where
  "SegmentHeap_destroy os heap M = destroy_regions os (segments heap) M"

end
