(* ===== verification/SegmentBins.thy ===== *)
theory SegmentBins
  imports SegmentHeap
begin

text \<open>
  What the bytes of a segment heap stand for.  A map of block records is the abstract heap;
  \<open>conc m heads B\<close> says that memory and bin heads represent it: every block's tag and \<open>prevSize\<close>
  are those of its record, and every bin is a doubly linked list of exactly the free blocks of its
  index.  The lemmas give the effect of each primitive of the code on the abstract map, and the
  bytes it may touch.
\<close>

section \<open>Tags as records\<close>

record blk =
  bsz :: nat
  bpv :: nat
  bfr :: bool
  bfs :: bool
  bls :: bool

definition flag_word :: "nat \<Rightarrow> bool \<Rightarrow> 64 word" where
  "flag_word k f = push_bit k (of_bool f)"

definition enc_word :: "blk \<Rightarrow> 64 word" where
  "enc_word x = to_size (bsz x) OR flag_word 0 (bfr x) OR flag_word 1 (bfs x) OR flag_word 2 (bls x)"

definition enc :: "blk \<Rightarrow> nat" where
  "enc x = unat (enc_word x)"

definition sized :: "nat \<Rightarrow> bool" where
  "sized n \<longleftrightarrow> 16 dvd n \<and> n < size_max"

lemma sizedD: "sized n \<Longrightarrow> 16 dvd n" "sized n \<Longrightarrow> n < size_max"
  by (simp_all add: sized_def)

lemma sized_low_bits: "sized n \<Longrightarrow> i < 4 \<Longrightarrow> \<not> bit (to_size n) i"
proof -
  assume n: "sized n" and i: "i < 4"
  have "(2::nat) ^ Suc i dvd 2 ^ 4" using i by (intro le_imp_power_dvd) simp
  then have "2 ^ Suc i dvd n" using sizedD(1) [OF n] by (auto intro: dvd_trans)
  then obtain q where "n = 2 ^ Suc i * q" ..
  then have "n div 2 ^ i = 2 * q" by simp
  then have "\<not> bit n i" by (simp add: bit_iff_odd [of n])
  then show ?thesis by (simp add: to_size_def bit_simps)
qed

lemma to_size_unat [simp]: "to_size (unat w) = w"
  by (simp add: to_size_def)

lemma to_size_flags:
  "to_size kFlagMask = mask 4" "to_size kFreeFlag = flag_word 0 True"
  "to_size kFirstFlag = flag_word 1 True" "to_size kLastFlag = flag_word 2 True"
  by (simp_all add: to_size_def const_simps mask_eq_exp_minus_1 flag_word_def)

lemma bit_flag_word: "i < 64 \<Longrightarrow> bit (flag_word k f) i \<longleftrightarrow> f \<and> i = k"
  by (auto simp: flag_word_def bit_simps)

lemma and_flag_word: "k < 64 \<Longrightarrow> w AND flag_word k True \<noteq> 0 \<longleftrightarrow> bit w k"
  by (simp add: flag_word_def and_exp_eq_0_iff_not_bit push_bit_eq_mult)

lemmas bit_enc_word = enc_word_def bit_or_iff bit_and_iff bit_not_iff bit_mask_iff bit_flag_word

lemma enc_zero [simp]: "enc \<lparr>bsz = 0, bpv = v, bfr = False, bfs = False, bls = False\<rparr> = 0"
  by (simp add: enc_def enc_word_def to_size_def flag_word_def)

lemma enc_less [simp]: "enc x < size_max"
  using unsigned_less [where 'a = nat, of "enc_word x"] by (simp add: enc_def size_max_def)

lemma enc_pv [simp]: "enc (x\<lparr>bpv := v\<rparr>) = enc x"
  by (simp add: enc_def enc_word_def)

lemma tag_size_enc [simp]:
  assumes "sized (bsz x)"
  shows "tag_size (enc x) = bsz x"
proof -
  have "enc_word x AND NOT (mask 4) = to_size (bsz x)"
  proof (rule bit_word_eqI)
    fix i assume i: "i < LENGTH(64)"
    show "bit (enc_word x AND NOT (mask 4)) i = bit (to_size (bsz x)) i"
      using sized_low_bits [OF assms, of i] i by (cases "i < 4") (auto simp: bit_enc_word)
  qed
  then show ?thesis using sizedD(2) [OF assms] by (simp add: tag_size_def enc_def to_size_flags)
qed

lemma tag_setSize_enc [simp]:
  assumes "sized (bsz x)" "sized n"
  shows "tag_setSize (enc x) n = enc (x\<lparr>bsz := n\<rparr>)"
proof -
  have "(enc_word x AND mask 4) OR to_size n = enc_word (x\<lparr>bsz := n\<rparr>)"
  proof (rule bit_word_eqI)
    fix i assume i: "i < LENGTH(64)"
    show "bit ((enc_word x AND mask 4) OR to_size n) i = bit (enc_word (x\<lparr>bsz := n\<rparr>)) i"
      using sized_low_bits [OF assms(1), of i] i by (cases "i < 4") (auto simp: bit_enc_word)
  qed
  then show ?thesis by (simp add: tag_setSize_def enc_def to_size_flags)
qed

lemma tag_tests [simp]:
  assumes "sized (bsz x)"
  shows "tag_test kFreeFlag (enc x) = bfr x" "tag_test kFirstFlag (enc x) = bfs x"
    "tag_test kLastFlag (enc x) = bls x"
  using sized_low_bits [OF assms, of 0] sized_low_bits [OF assms, of 1] sized_low_bits [OF assms, of 2]
  by (simp_all add: tag_test_def enc_def to_size_flags and_flag_word bit_enc_word)

lemma bit_enc_word_eq:
  assumes "sized (bsz x)" "i < 64"
  shows "bit (enc_word x) i = (if i = 0 then bfr x else if i = 1 then bfs x else if i = 2 then bls x
    else bit (to_size (bsz x)) i)"
  using sized_low_bits [OF assms(1), of i] assms(2) by (auto simp: bit_enc_word)

lemma bit_flag_update:
  "i < 64 \<Longrightarrow> bit (if v then w OR flag_word k True else w AND NOT (flag_word k True)) i =
     (if i = k then v else bit w i)"
  by (auto simp: bit_or_iff bit_and_iff bit_not_iff bit_flag_word)

lemma tag_setFlag_unat:
  "tag_setFlag flag v (unat w) = unat (if v then w OR to_size flag else w AND NOT (to_size flag))"
  by (simp add: tag_setFlag_def)

lemma tag_setFlags [simp]:
  assumes "sized (bsz x)"
  shows "tag_setFlag kFreeFlag v (enc x) = enc (x\<lparr>bfr := v\<rparr>)"
    "tag_setFlag kFirstFlag v (enc x) = enc (x\<lparr>bfs := v\<rparr>)"
    "tag_setFlag kLastFlag v (enc x) = enc (x\<lparr>bls := v\<rparr>)"
proof -
  let ?set = "\<lambda>k. if v then enc_word x OR flag_word k True else enc_word x AND NOT (flag_word k True)"
  have "?set 0 = enc_word (x\<lparr>bfr := v\<rparr>)" "?set 1 = enc_word (x\<lparr>bfs := v\<rparr>)" "?set 2 = enc_word (x\<lparr>bls := v\<rparr>)"
    by (rule bit_word_eqI, simp only: bit_flag_update len_of_numeral_defs, simp add: bit_enc_word_eq assms)+
  then show "tag_setFlag kFreeFlag v (enc x) = enc (x\<lparr>bfr := v\<rparr>)"
    "tag_setFlag kFirstFlag v (enc x) = enc (x\<lparr>bfs := v\<rparr>)"
    "tag_setFlag kLastFlag v (enc x) = enc (x\<lparr>bls := v\<rparr>)"
    by (simp_all only: tag_setFlag_unat enc_def to_size_flags)
qed

section \<open>The four words of a block\<close>

text \<open>
  A block holds its tag and \<open>prevSize\<close>, and while it is free also the two links of its node.  On
  blocks that keep their distance these words are independent variables.
\<close>

datatype fld = SZ | PV | NP | NN

fun off :: "fld \<Rightarrow> nat" where
  "off SZ = 0" | "off PV = 8" | "off NP = 32" | "off NN = 40"

definition get :: "memory \<Rightarrow> addr \<Rightarrow> fld \<Rightarrow> nat" where
  "get m b f = read64 m (b + off f)"

definition put :: "addr \<Rightarrow> fld \<Rightarrow> nat \<Rightarrow> memory \<Rightarrow> memory" where
  "put b f v m = write64 (b + off f) v m"

definition sep :: "addr \<Rightarrow> addr \<Rightarrow> bool" where
  "sep b c \<longleftrightarrow> 16 dvd b \<and> 16 dvd c \<and> (b = c \<or> b + 48 \<le> c \<or> c + 48 \<le> b)"

lemma off_inj: "off f = off g \<longleftrightarrow> f = g"
  by (cases f; cases g) auto

lemma off_bounds: "off f + 8 \<le> 48" "8 dvd off f"
  by (cases f; simp)+

lemma sep_sym: "sep b c = sep c b"
  by (auto simp: sep_def)

lemma dvd8: "16 dvd (b::nat) \<Longrightarrow> 8 dvd b"
  by (rule dvd_trans [of 8 16]) auto

lemma get_put:
  assumes "sep b c" "v < size_max"
  shows "get (put b f v m) c g = (if c = b \<and> g = f then v else get m c g)"
proof -
  have "8 dvd b + off f" "8 dvd c + off g"
    using assms(1) off_bounds [of f] off_bounds [of g] by (auto simp: sep_def dvd8)
  moreover have "c + off g = b + off f \<longleftrightarrow> c = b \<and> g = f"
    using assms(1) off_bounds(1) [of f] off_bounds(1) [of g] off_inj [of g f] by (auto simp: sep_def)
  ultimately show ?thesis using assms(2) by (simp add: get_def put_def read64_write64)
qed

lemma put_out: "x < b + off f \<or> b + off f + 8 \<le> x \<Longrightarrow> put b f v m x = m x"
  by (auto simp: put_def write_le_def)

lemma get_cong: "(\<And>x. b + off f \<le> x \<Longrightarrow> x < b + off f + 8 \<Longrightarrow> m' x = m x) \<Longrightarrow> get m' b f = get m b f"
  unfolding get_def by (rule read_le_cong) auto

lemma get_less [simp]: "get m b f < size_max"
  by (simp add: get_def)

text \<open>The accessors of the code in these terms.\<close>

lemma accessors:
  "mb_size m b = tag_size (get m b SZ)" "mb_isFree m b = tag_test kFreeFlag (get m b SZ)"
  "mb_isFirst m b = tag_test kFirstFlag (get m b SZ)" "mb_isLast m b = tag_test kLastFlag (get m b SZ)"
  "mb_setSize b n m = put b SZ (tag_setSize (get m b SZ) n) m"
  "mb_setFlag b k v m = put b SZ (tag_setFlag k v (get m b SZ)) m"
  "mb_prevSize m b = get m b PV" "mb_setPrevSize b n m = put b PV n m"
  "node_prev m (nodeOf b) = get m b NP" "node_next m (nodeOf b) = get m b NN"
  "node_setPrev (nodeOf b) n m = put b NP n m" "node_setNext (nodeOf b) n m = put b NN n m"
  "write64 b n m = put b SZ n m"
  by (simp_all add: mb_size_def mb_isFree_def mb_isFirst_def mb_isLast_def mb_setSize_def mb_setFlag_def
      mb_prevSize_def mb_setPrevSize_def node_prev_def node_next_def node_setPrev_def node_setNext_def
      nodeOf_def kNodeOffset_def get_def put_def ac_simps)

lemma nodeOf_simps [simp]: "nodeOf b \<noteq> 0" "blockOfNode (nodeOf b) = b" "nodeOf b = nodeOf c \<longleftrightarrow> b = c"
  by (auto simp: nodeOf_def blockOfNode_def kNodeOffset_def)

section \<open>Representation\<close>

type_synonym blocks = "addr \<Rightarrow> blk option"

definition node_hd :: "addr list \<Rightarrow> addr" where
  "node_hd bs = (case bs of [] \<Rightarrow> 0 | b # _ \<Rightarrow> nodeOf b)"

definition node_last :: "addr list \<Rightarrow> addr" where
  "node_last bs = (if bs = [] then 0 else nodeOf (last bs))"

definition links :: "memory \<Rightarrow> addr list \<Rightarrow> bool" where
  "links m L \<longleftrightarrow> (\<forall>xs b ys. L = xs @ b # ys \<longrightarrow> get m b NN = node_hd ys \<and> get m b NP = node_last xs)"

definition bin_of :: "blocks \<Rightarrow> nat \<Rightarrow> addr set" where
  "bin_of B i = {b. \<exists>x. B b = Some x \<and> bfr x \<and> binIndex (bsz x) = i}"

definition blk_ok :: "blk \<Rightarrow> bool" where
  "blk_ok x \<longleftrightarrow> sized (bsz x) \<and> 48 \<le> bsz x \<and> bpv x < size_max"

definition spread :: "addr set \<Rightarrow> bool" where
  "spread D \<longleftrightarrow> (\<forall>b \<in> D. 0 < b \<and> nodeOf b < size_max \<and> (\<forall>c \<in> D. sep b c))"

definition hdrs :: "memory \<Rightarrow> blocks \<Rightarrow> bool" where
  "hdrs m B \<longleftrightarrow> (\<forall>b x. B b = Some x \<longrightarrow> blk_ok x \<and> get m b SZ = enc x \<and> get m b PV = bpv x)"

definition bin_ok :: "memory \<Rightarrow> addr list \<Rightarrow> blocks \<Rightarrow> nat \<Rightarrow> addr list \<Rightarrow> bool" where
  "bin_ok m heads B i L \<longleftrightarrow> distinct L \<and> set L = bin_of B i \<and> heads ! i = node_hd L \<and> links m L"

definition conc :: "memory \<Rightarrow> addr list \<Rightarrow> blocks \<Rightarrow> bool" where
  "conc m heads B \<longleftrightarrow> spread (dom B) \<and> hdrs m B \<and> length heads = kBinCount \<and>
     (\<forall>i < kBinCount. \<exists>L. bin_ok m heads B i L)"

text \<open>The bytes a heap reads and writes: every header, and the whole of every free block.\<close>

definition own :: "blocks \<Rightarrow> addr set" where
  "own B = {x. \<exists>b y. B b = Some y \<and> b \<le> x \<and> x < b + (if bfr y then bsz y else 16)}"

lemma node_hd_simps [simp]: "node_hd [] = 0" "node_hd (b # bs) = nodeOf b"
  by (simp_all add: node_hd_def)

lemma node_hd_append: "xs \<noteq> [] \<Longrightarrow> node_hd (xs @ ys) = node_hd xs"
  by (cases xs) auto

lemma node_last_simps [simp]: "node_last [] = 0" "node_last (xs @ [b]) = nodeOf b"
  by (simp_all add: node_last_def)

lemma node_last_append: "ys \<noteq> [] \<Longrightarrow> node_last (xs @ ys) = node_last ys"
  by (simp add: node_last_def)

lemma linksD: "links m (xs @ b # ys) \<Longrightarrow> get m b NN = node_hd ys" "links m (xs @ b # ys) \<Longrightarrow> get m b NP = node_last xs"
  unfolding links_def by blast+

lemma links_cong:
  assumes "links m L" "\<And>c. c \<in> set L \<Longrightarrow> get m' c NN = get m c NN \<and> get m' c NP = get m c NP"
  shows "links m' L"
  using assms unfolding links_def by auto

lemma append_mid_cases:
  assumes "us @ c # vs = xs @ ys"
  obtains w where "xs = us @ c # w" "vs = w @ ys" | w where "ys = w @ c # vs" "us = xs @ w"
  using assms by (auto simp: append_eq_append_conv2 Cons_eq_append_conv append_eq_Cons_conv)

lemma links_cons:
  assumes "links m L" "get m' b NN = node_hd L" "get m' b NP = 0"
    "\<And>c. c \<in> set L \<Longrightarrow> get m' c NN = get m c NN \<and>
      get m' c NP = (if nodeOf c = node_hd L then nodeOf b else get m c NP)" "distinct L"
  shows "links m' (b # L)"
  unfolding links_def
proof (intro allI impI)
  fix xs c ys assume eq: "b # L = xs @ c # ys"
  show "get m' c NN = node_hd ys \<and> get m' c NP = node_last xs"
  proof (cases xs)
    case Nil
    then show ?thesis using eq assms(2,3) by simp
  next
    case (Cons z us)
    then have L: "L = us @ c # ys" "z = b" using eq by auto
    have "nodeOf c = node_hd L \<longleftrightarrow> us = []" using assms(5) L by (cases us) auto
    then show ?thesis using assms(1,4) L Cons linksD [of m us c ys]
      by (cases us rule: rev_cases) (auto simp: node_last_def)
  qed
qed

lemma links_remove:
  assumes "links m (xs @ b # ys)" "distinct (xs @ b # ys)"
    "\<And>c. c \<in> set (xs @ ys) \<Longrightarrow> get m' c NN = (if nodeOf c = node_last xs then node_hd ys else get m c NN) \<and>
      get m' c NP = (if nodeOf c = node_hd ys then node_last xs else get m c NP)"
  shows "links m' (xs @ ys)"
  unfolding links_def
proof (intro allI impI)
  fix us c vs assume eq: "xs @ ys = us @ c # vs"
  then have c: "c \<in> set (xs @ ys)" by simp
  from eq [symmetric] show "get m' c NN = node_hd vs \<and> get m' c NP = node_last us"
  proof (cases rule: append_mid_cases)
    case (1 w)
    have m: "links m (us @ c # (w @ b # ys))" using assms(1) 1 by simp
    have "nodeOf c = node_last xs \<longleftrightarrow> w = []" using assms(2) 1 by (cases w rule: rev_cases) (auto simp: node_last_def)
    moreover have "nodeOf c \<noteq> node_hd ys" using assms(2) 1 by (cases ys) auto
    ultimately show ?thesis using assms(3) [OF c] linksD [OF m] 1 by (cases w) auto
  next
    case (2 w)
    have m: "links m ((xs @ b # w) @ c # vs)" using assms(1) 2 by simp
    have "nodeOf c = node_hd ys \<longleftrightarrow> w = []" using assms(2) 2 by (cases w) auto
    moreover have "nodeOf c \<noteq> node_last xs" using assms(2) 2 by (cases xs rule: rev_cases) (auto simp: node_last_def)
    ultimately show ?thesis using assms(3) [OF c] linksD [OF m] 2
      by (cases w rule: rev_cases) (auto simp: node_last_def)
  qed
qed

section \<open>Elementary changes\<close>

lemma conc_blk:
  assumes "conc m heads B" "B b = Some x"
  shows "blk_ok x" "get m b SZ = enc x" "get m b PV = bpv x" "nodeOf b < size_max"
    "c \<in> dom B \<Longrightarrow> sep b c" "sized (bsz x)" "0 < b"
  using assms unfolding conc_def hdrs_def spread_def by (auto simp: blk_ok_def dom_def)

lemma get_put_conc:
  "conc m heads B \<Longrightarrow> B b = Some x \<Longrightarrow> B c = Some y \<Longrightarrow> v < size_max \<Longrightarrow>
   get (put b f v n) c g = (if c = b \<and> g = f then v else get n c g)"
  by (rule get_put) (auto intro: conc_blk)

lemma conc_bin:
  assumes "conc m heads B" "i < kBinCount"
  obtains L where "bin_ok m heads B i L"
  using assms unfolding conc_def by blast

lemma bin_of_disjoint: "i \<noteq> j \<Longrightarrow> c \<in> bin_of B i \<Longrightarrow> c \<notin> bin_of B j"
  by (auto simp: bin_of_def)

lemma binIndex_less [simp]: "binIndex n < kBinCount"
  by (simp add: binIndex_def Let_def kBinCount_def)

text \<open>Changes that leave the bins alone.\<close>

lemma conc_same_bins:
  assumes "conc m heads B" "spread (dom B')" "hdrs m' B'" "\<And>i. bin_of B' i = bin_of B i"
    "\<And>c x. B c = Some x \<Longrightarrow> bfr x \<Longrightarrow> get m' c NN = get m c NN \<and> get m' c NP = get m c NP"
  shows "conc m' heads B'"
proof -
  have "bin_ok m' heads B' i L" if "bin_ok m heads B i L" for i L
  proof -
    have "get m' c NN = get m c NN \<and> get m' c NP = get m c NP" if "c \<in> set L" for c
      using that \<open>bin_ok m heads B i L\<close> assms(5) by (auto simp: bin_ok_def bin_of_def)
    then show ?thesis using that assms(4) links_cong [of m L m'] by (auto simp: bin_ok_def)
  qed
  then show ?thesis using assms(1-3) unfolding conc_def by blast
qed

lemma conc_cong:
  assumes "conc m heads B" "\<And>x. x \<in> own B \<Longrightarrow> m' x = m x"
  shows "conc m' heads B"
proof (rule conc_same_bins [OF assms(1)])
  have own: "m' z = m z" if "B b = Some x" "b \<le> z" "z < b + 16 \<or> bfr x \<and> z < b + 48" for b x z
    using that conc_blk(1) [OF assms(1) that(1)] by (intro assms(2)) (force simp: own_def blk_ok_def)
  have "get m' b f = get m b f" if "B b = Some x" "bfr x \<or> f = SZ \<or> f = PV" for b x f
  proof (rule get_cong)
    fix z assume "b + off f \<le> z" "z < b + off f + 8"
    then show "m' z = m z" using that off_bounds(1) [of f] by (intro own [OF that(1)]) auto
  qed
  then show "hdrs m' B" "\<And>c x. B c = Some x \<Longrightarrow> bfr x \<Longrightarrow> get m' c NN = get m c NN \<and> get m' c NP = get m c NP"
    using assms(1) by (auto simp: conc_def hdrs_def)
qed (use assms(1) in \<open>auto simp: conc_def\<close>)

lemma put_own:
  assumes "B b = Some x" "blk_ok x" "bfr x \<or> f = SZ \<or> f = PV" "z \<notin> own B"
  shows "put b f v m z = m z"
proof (rule put_out, rule ccontr)
  assume "\<not> (z < b + off f \<or> b + off f + 8 \<le> z)"
  then have "b \<le> z" "z < b + (if bfr x then bsz x else 16)"
    using assms(2,3) off_bounds(1) [of f] by (auto simp: blk_ok_def)
  then show False using assms(1,4) by (auto simp: own_def)
qed

lemma conc_retag:
  assumes "conc m heads B" "B b = Some x" "\<not> bfr x" "blk_ok y" "\<not> bfr y" "bpv y = bpv x"
  shows "conc (put b SZ (enc y) m) heads (B(b \<mapsto> y))"
proof (rule conc_same_bins [OF assms(1)])
  note rw = get_put_conc [OF assms(1,2) _ enc_less]
  show "spread (dom (B(b \<mapsto> y)))" using assms(1,2) by (simp add: conc_def insert_absorb domI)
  show "hdrs (put b SZ (enc y) m) (B(b \<mapsto> y))"
    using conc_blk [OF assms(1)] assms(2,4,6) by (auto simp: hdrs_def rw)
  show "bin_of (B(b \<mapsto> y)) i = bin_of B i" for i using assms(2,3,5) by (auto simp: bin_of_def)
qed (simp_all add: get_put_conc [OF assms(1,2) _ enc_less])

lemma conc_setPrev:
  assumes "conc m heads B" "B b = Some x" "v < size_max"
  shows "conc (put b PV v m) heads (B(b \<mapsto> x\<lparr>bpv := v\<rparr>))"
proof (rule conc_same_bins [OF assms(1)])
  note rw = get_put_conc [OF assms(1,2) _ assms(3)]
  show "spread (dom (B(b \<mapsto> x\<lparr>bpv := v\<rparr>)))" using assms(1,2) by (simp add: conc_def insert_absorb domI)
  show "hdrs (put b PV v m) (B(b \<mapsto> x\<lparr>bpv := v\<rparr>))"
    using conc_blk [OF assms(1)] assms(2,3) by (auto simp: hdrs_def rw blk_ok_def)
  show "bin_of (B(b \<mapsto> x\<lparr>bpv := v\<rparr>)) i = bin_of B i" for i using assms(2) by (auto simp: bin_of_def)
qed (simp_all add: get_put_conc [OF assms(1,2) _ assms(3)])

lemma conc_drop:
  assumes "conc m heads B" "B b = Some x" "\<not> bfr x"
  shows "conc m heads (B(b := None))"
proof (rule conc_same_bins [OF assms(1)])
  show "spread (dom (B(b := None)))" using assms(1) by (auto simp: conc_def spread_def)
  show "hdrs m (B(b := None))" using assms(1) by (auto simp: conc_def hdrs_def)
  show "bin_of (B(b := None)) i = bin_of B i" for i using assms(2,3) by (auto simp: bin_of_def)
qed simp_all

lemma conc_add:
  assumes "conc m heads B" "B b = None" "spread (insert b (dom B))" "blk_ok y" "\<not> bfr y"
    "get m' b SZ = enc y" "get m' b PV = bpv y" "\<And>c f. c \<in> dom B \<Longrightarrow> get m' c f = get m c f"
  shows "conc m' heads (B(b \<mapsto> y))"
proof (rule conc_same_bins [OF assms(1)])
  show "spread (dom (B(b \<mapsto> y)))" using assms(3) by simp
  show "hdrs m' (B(b \<mapsto> y))"
    using conc_blk [OF assms(1)] assms(4,6-8) by (auto simp: hdrs_def domI)
  show "bin_of (B(b \<mapsto> y)) i = bin_of B i" for i using assms(2,5) by (auto simp: bin_of_def)
qed (auto simp: assms(8) domI)

section \<open>The bins as lists\<close>

text \<open>What one more node, or one less, does to the four words of every block.\<close>

definition setfree :: "blocks \<Rightarrow> addr \<Rightarrow> bool \<Rightarrow> blocks" where
  "setfree B b v = B(b \<mapsto> (the (B b))\<lparr>bfr := v\<rparr>)"

lemma bin_blocks:
  assumes "conc m heads B" "bin_ok m heads B i L" "c \<in> set L"
  shows "\<exists>x. B c = Some x \<and> bfr x \<and> blk_ok x" "nodeOf c < size_max"
  using assms conc_blk [OF assms(1)] by (auto simp: bin_ok_def bin_of_def)

lemma removeFree_words:
  assumes "conc m heads B" "B b = Some x" "bfr x" "bin_ok m heads B (binIndex (bsz x)) (xs @ b # ys)"
    "removeFree b (m, heads) = (m', heads')"
  shows "heads' = (if xs = [] then heads[binIndex (bsz x) := node_hd ys] else heads)" (is ?heads)
    and "\<And>c y f. B c = Some y \<Longrightarrow> get m' c f =
      (if f = NN \<and> nodeOf c = node_last xs then node_hd ys
       else if f = NP \<and> nodeOf c = node_hd ys then node_last xs
       else if f = SZ \<and> c = b then enc (x\<lparr>bfr := False\<rparr>) else get m c f)" (is "PROP ?words")
    and "\<And>z. z \<notin> own B \<Longrightarrow> m' z = m z" (is "PROP ?frame")
proof -
  note blk = bin_blocks [OF assms(1,4)]
  have links: "get m b NN = node_hd ys" "get m b NP = node_last xs" and b: "b \<notin> set xs" "b \<notin> set ys"
    using assms(4) linksD [of m xs b ys] by (auto simp: bin_ok_def)
  define m1 where "m1 = (if xs = [] then m else put (last xs) NN (node_hd ys) m)"
  define m2 where "m2 = (if ys = [] then m1 else put (hd ys) NP (node_last xs) m1)"
  note rw = get_put_conc [OF assms(1)]
  have hd: "node_hd ys < size_max" using blk(2) by (cases ys) (auto simp: size_max_def)
  have ls: "node_last xs < size_max" using blk(2) by (auto simp: node_last_def size_max_def)
  have w1: "get m1 c f = (if f = NN \<and> nodeOf c = node_last xs then node_hd ys else get m c f)"
    if "B c = Some y" for c y f
    using blk(1) [of "last xs"] rw [OF _ that hd] by (auto simp: m1_def node_last_def)
  have w2: "get m2 c f = (if f = NP \<and> nodeOf c = node_hd ys then node_last xs else get m1 c f)"
    if "B c = Some y" for c y f
    using blk(1) [of "hd ys"] rw [OF _ that ls] by (cases ys) (auto simp: m2_def)
  have nb: "nodeOf b \<noteq> node_hd ys" "nodeOf b \<noteq> node_last xs"
    using b by (cases ys; auto simp: node_last_def)+
  have tag: "get m2 b SZ = enc x" "get m1 b NN = node_hd ys" "get m1 b NP = node_last xs"
    using w1 [OF assms(2)] w2 [OF assms(2)] links nb conc_blk(2) [OF assms(1,2)] by auto
  have run: "removeFree b (m, heads) =
      (put b SZ (enc (x\<lparr>bfr := False\<rparr>)) m2, if xs = [] then heads[binIndex (bsz x) := node_hd ys] else heads)"
  proof -
    have "(if node_prev m (nodeOf b) \<noteq> 0
        then (node_setNext (node_prev m (nodeOf b)) (node_next m (nodeOf b)) m, heads)
        else (m, heads[binIndex (mb_size m b) := node_next m (nodeOf b)])) =
        (m1, if xs = [] then heads[binIndex (bsz x) := node_hd ys] else heads)"
      using links conc_blk [OF assms(1,2)] by (simp add: accessors m1_def node_last_def)
    moreover have "(if node_next m1 (nodeOf b) \<noteq> 0
        then node_setPrev (node_next m1 (nodeOf b)) (node_prev m1 (nodeOf b)) m1 else m1) = m2"
      using tag by (cases ys) (auto simp: accessors m2_def)
    ultimately show ?thesis
      using tag(1) conc_blk(6) [OF assms(1,2)] by (simp add: removeFree_def accessors(6))
  qed
  show ?heads using run assms(5) by simp
  show "PROP ?words"
    using run assms(5) rw [OF assms(2)] w1 w2 nb by (auto simp: domI)
  have "m1 z = m z" if "z \<notin> own B" for z
    using put_own [of B "last xs" _ NN z] blk(1) [of "last xs"] that by (auto simp: m1_def)
  moreover have "m2 z = m1 z" if "z \<notin> own B" for z
    using put_own [of B "hd ys" _ NP z] blk(1) [of "hd ys"] that by (auto simp: m2_def)
  ultimately show "PROP ?frame"
    using run assms(5) put_own [where B = B, OF assms(2) conc_blk(1) [OF assms(1,2)], of SZ] by auto
qed

lemma bin_of_setfree:
  assumes "B b = Some x"
  shows "bin_of (setfree B b v) j =
    (if v \<and> j = binIndex (bsz x) then insert b (bin_of B j) else bin_of B j - {b})"
  using assms by (auto simp: bin_of_def setfree_def)

lemma spread_setfree: "B b = Some x \<Longrightarrow> spread (dom (setfree B b v)) = spread (dom B)"
  by (simp add: setfree_def insert_absorb domI)

lemma removeFree_conc:
  assumes "conc m heads B" "B b = Some x" "bfr x" "removeFree b (m, heads) = (m', heads')"
  shows "conc m' heads' (setfree B b False)" "\<And>z. z \<notin> own B \<Longrightarrow> m' z = m z"
proof -
  let ?i = "binIndex (bsz x)"
  obtain L where L: "bin_ok m heads B ?i L" using conc_bin [OF assms(1) binIndex_less] .
  then have "b \<in> set L" using assms(2,3) by (auto simp: bin_ok_def bin_of_def)
  then obtain xs ys where "L = xs @ b # ys" by (meson split_list)
  note L = L [unfolded this]
  note eff = removeFree_words [OF assms(1-3) L assms(4)]
  show "\<And>z. z \<notin> own B \<Longrightarrow> m' z = m z" by (rule eff(3))
  have len: "length heads = kBinCount" using assms(1) by (simp add: conc_def)
  have "hdrs m' (setfree B b False)"
    using conc_blk [OF assms(1)] assms(2) eff(2) by (auto simp: hdrs_def setfree_def blk_ok_def)
  moreover have "\<exists>L. bin_ok m' heads' (setfree B b False) j L" if j: "j < kBinCount" for j
  proof (cases "j = ?i")
    case True
    have "links m' (xs @ ys)"
    proof (rule links_remove)
      show "links m (xs @ b # ys)" "distinct (xs @ b # ys)" using L by (auto simp: bin_ok_def)
      fix c assume "c \<in> set (xs @ ys)"
      then obtain y where "B c = Some y" using bin_blocks(1) [OF assms(1) L] by auto
      then show "get m' c NN = (if nodeOf c = node_last xs then node_hd ys else get m c NN) \<and>
        get m' c NP = (if nodeOf c = node_hd ys then node_last xs else get m c NP)"
        by (simp add: eff(2))
    qed
    moreover have "heads' ! j = node_hd (xs @ ys)"
      using L True j len by (cases xs) (auto simp: eff(1) bin_ok_def)
    ultimately have "bin_ok m' heads' (setfree B b False) j (xs @ ys)"
      using L assms(2) True by (auto simp: bin_ok_def bin_of_setfree)
    then show ?thesis ..
  next
    case False
    obtain K where K: "bin_ok m heads B j K" using conc_bin [OF assms(1) j] .
    have other: "get m' c NN = get m c NN \<and> get m' c NP = get m c NP" if "c \<in> set K" for c
    proof -
      have "c \<notin> set (xs @ b # ys)"
        using that K L False bin_of_disjoint [of j ?i c B] by (simp add: bin_ok_def)
      then have "nodeOf c \<noteq> node_last xs" "nodeOf c \<noteq> node_hd ys"
        by (cases ys; auto simp: node_last_def)+
      then show ?thesis using bin_blocks(1) [OF assms(1) K that] by (auto simp: eff(2))
    qed
    have "links m' K" using K links_cong [of m K m'] other by (simp add: bin_ok_def)
    moreover have "b \<notin> bin_of B j" using assms(2) False by (auto simp: bin_of_def)
    ultimately have "bin_ok m' heads' (setfree B b False) j K"
      using K assms(2) False by (auto simp: bin_ok_def bin_of_setfree eff(1))
    then show ?thesis ..
  qed
  ultimately show "conc m' heads' (setfree B b False)"
    using assms(1,2) len by (auto simp: conc_def spread_setfree eff(1))
qed

lemma insertFree_words:
  assumes "conc m heads B" "B b = Some x" "\<not> bfr x" "bin_ok m heads B (binIndex (bsz x)) L"
    "insertFree b (m, heads) = (m', heads')"
  shows "heads' = heads[binIndex (bsz x) := nodeOf b]" (is ?heads)
    and "\<And>c y f. B c = Some y \<Longrightarrow> get m' c f =
      (if c = b then (case f of NN \<Rightarrow> node_hd L | NP \<Rightarrow> 0 | SZ \<Rightarrow> enc (x\<lparr>bfr := True\<rparr>) | PV \<Rightarrow> get m c PV)
       else if f = NP \<and> nodeOf c = node_hd L then nodeOf b else get m c f)" (is "PROP ?words")
    and "\<And>z. z \<notin> own (setfree B b True) \<Longrightarrow> m' z = m z" (is "PROP ?frame")
proof -
  note blk = bin_blocks [OF assms(1,4)]
  have head: "heads ! binIndex (bsz x) = node_hd L" and b: "b \<notin> set L"
    using assms(2-4) by (auto simp: bin_ok_def bin_of_def)
  define m1 where "m1 = put b NN (node_hd L) (put b NP 0 m)"
  define m2 where "m2 = (if L = [] then m1 else put (hd L) NP (nodeOf b) m1)"
  note rw = get_put_conc [OF assms(1)]
  have hd: "node_hd L < size_max" and nb: "nodeOf b \<noteq> node_hd L" and z: "0 < size_max"
    using blk(2) b by (cases L; auto simp: size_max_def)+
  have w1: "get m1 c f = (if c = b \<and> f = NN then node_hd L else if c = b \<and> f = NP then 0 else get m c f)"
    if "B c = Some y" for c y f
    using rw [OF assms(2) that] hd z by (auto simp: m1_def)
  have w2: "get m2 c f = (if f = NP \<and> nodeOf c = node_hd L then nodeOf b else get m1 c f)"
    if "B c = Some y" for c y f
    using blk(1) [of "hd L"] rw [OF _ that conc_blk(4) [OF assms(1,2)]] by (cases L) (auto simp: m2_def)
  have tag: "get m2 b SZ = enc x" "get m1 b NN = node_hd L"
    using w1 [OF assms(2)] w2 [OF assms(2)] nb conc_blk(2) [OF assms(1,2)] by auto
  have sz: "mb_size m b = bsz x" using conc_blk [OF assms(1,2)] by (simp add: accessors)
  have s1: "node_setNext (nodeOf b) (heads ! binIndex (bsz x)) (node_setPrev (nodeOf b) 0 m) = m1"
    by (simp add: accessors m1_def head)
  have s2: "(if node_next m1 (nodeOf b) \<noteq> 0 then node_setPrev (node_next m1 (nodeOf b)) (nodeOf b) m1 else m1) = m2"
    using tag by (cases L) (auto simp: accessors m2_def)
  have run: "insertFree b (m, heads) =
      (put b SZ (enc (x\<lparr>bfr := True\<rparr>)) m2, heads[binIndex (bsz x) := nodeOf b])"
    by (simp only: insertFree_def Let_def prod.case sz s1 s2 accessors(6) tag(1)
        tag_setFlags [OF conc_blk(6) [OF assms(1,2)]])
  show ?heads using run assms(5) by simp
  show "PROP ?words"
    using run assms(5) rw [OF assms(2)] w1 w2 nb by (auto split: fld.splits)
  let ?B = "setfree B b True"
  have xB: "?B b = Some (x\<lparr>bfr := True\<rparr>)" "blk_ok (x\<lparr>bfr := True\<rparr>)"
    using assms(2) conc_blk(1) [OF assms(1,2)] by (auto simp: setfree_def blk_ok_def)
  note own = put_own [where B = ?B, OF xB]
  have "m1 z = m z" if "z \<notin> own ?B" for z using own [OF _ that] by (simp add: m1_def)
  moreover have "m2 z = m1 z" if "z \<notin> own ?B" for z
  proof (cases L)
    case (Cons c cs)
    then obtain y where "?B c = Some y" "blk_ok y" "bfr y" using blk(1) [of c] b by (auto simp: setfree_def)
    then show ?thesis using put_own [of ?B c y NP z] that Cons by (simp add: m2_def)
  qed (simp add: m2_def)
  ultimately show "PROP ?frame" using run assms(5) own by auto
qed

lemma insertFree_conc:
  assumes "conc m heads B" "B b = Some x" "\<not> bfr x" "insertFree b (m, heads) = (m', heads')"
  shows "conc m' heads' (setfree B b True)" "\<And>z. z \<notin> own (setfree B b True) \<Longrightarrow> m' z = m z"
proof -
  let ?i = "binIndex (bsz x)"
  obtain L where L: "bin_ok m heads B ?i L" using conc_bin [OF assms(1) binIndex_less] .
  note eff = insertFree_words [OF assms(1-3) L assms(4)]
  show "\<And>z. z \<notin> own (setfree B b True) \<Longrightarrow> m' z = m z" by (rule eff(3))
  have len: "length heads = kBinCount" using assms(1) by (simp add: conc_def)
  have b: "b \<notin> bin_of B j" for j using assms(2,3) by (auto simp: bin_of_def)
  have "hdrs m' (setfree B b True)"
    using conc_blk [OF assms(1)] assms(2) eff(2) by (auto simp: hdrs_def setfree_def blk_ok_def)
  moreover have "\<exists>L. bin_ok m' heads' (setfree B b True) j L" if j: "j < kBinCount" for j
  proof (cases "j = ?i")
    case True
    have "links m' (b # L)"
    proof (rule links_cons)
      show "links m L" "distinct L" using L by (auto simp: bin_ok_def)
      show "get m' b NN = node_hd L" "get m' b NP = 0" using assms(2) by (simp_all add: eff(2))
      fix c assume c: "c \<in> set L"
      then have "c \<noteq> b" using L b by (auto simp: bin_ok_def)
      then show "get m' c NN = get m c NN \<and>
        get m' c NP = (if nodeOf c = node_hd L then nodeOf b else get m c NP)"
        using bin_blocks(1) [OF assms(1) L c] by (auto simp: eff(2))
    qed
    then have "bin_ok m' heads' (setfree B b True) j (b # L)"
      using L assms(2) True j len b by (auto simp: bin_ok_def bin_of_setfree eff(1))
    then show ?thesis ..
  next
    case False
    obtain K where K: "bin_ok m heads B j K" using conc_bin [OF assms(1) j] .
    have other: "get m' c NN = get m c NN \<and> get m' c NP = get m c NP" if "c \<in> set K" for c
    proof -
      have "c \<notin> set L" "c \<noteq> b"
        using that K L False bin_of_disjoint [of j ?i c B] b by (auto simp: bin_ok_def)
      then have "nodeOf c \<noteq> node_hd L" by (cases L) auto
      then show ?thesis using bin_blocks(1) [OF assms(1) K that] \<open>c \<noteq> b\<close> by (auto simp: eff(2))
    qed
    have "links m' K" using K links_cong [of m K m'] other by (simp add: bin_ok_def)
    then have "bin_ok m' heads' (setfree B b True) j K"
      using K assms(2) False b by (auto simp: bin_ok_def bin_of_setfree eff(1))
    then show ?thesis ..
  qed
  ultimately show "conc m' heads' (setfree B b True)"
    using assms(1,2) len by (auto simp: conc_def spread_setfree eff(1))
qed

section \<open>Searching the bins\<close>

lemma bit_width_mono: "a \<le> b \<Longrightarrow> bit_width a \<le> bit_width b"
proof (induction a arbitrary: b rule: bit_width.induct)
  case (1 a)
  show ?case
  proof (cases "a = 0")
    case False
    then have "bit_width (a div 2) \<le> bit_width (b div 2)" using 1 by (auto intro: div_le_mono)
    then show ?thesis using 1(2) False bit_width.simps [of a] bit_width.simps [of b] by simp
  qed (simp add: bit_width.simps)
qed

lemma binIndex_mono: "a \<le> b \<Longrightarrow> binIndex a \<le> binIndex b"
  using bit_width_mono [of a b] by (auto simp: binIndex_def Let_def)

text \<open>A walk along a bin ends, with the first block of the list that is large enough.\<close>

lemma walkBin_list:
  "links m (xs @ ys) \<Longrightarrow> walkBin m need (node_hd ys) =
     Some (case List.find (\<lambda>b. need \<le> mb_size m b) ys of None \<Rightarrow> 0 | Some b \<Rightarrow> b)"
proof (induction ys arbitrary: xs)
  case Nil
  then show ?case by (simp add: walkBin.simps)
next
  case (Cons b ys)
  have "walkBin m need (node_hd ys) =
      Some (case List.find (\<lambda>b. need \<le> mb_size m b) ys of None \<Rightarrow> 0 | Some b \<Rightarrow> b)"
    using Cons.IH [of "xs @ [b]"] Cons.prems by simp
  then show ?case
    using linksD(1) [OF Cons.prems] by (subst walkBin.simps) (simp add: accessors Let_def)
qed

lemma conc_mb_size: "conc m heads B \<Longrightarrow> B b = Some x \<Longrightarrow> mb_size m b = bsz x"
  using conc_blk [of m heads B b x] by (simp add: accessors)

lemma walkBin_bin:
  assumes "conc m heads B" "i < kBinCount"
  shows "\<exists>r. walkBin m need (heads ! i) = Some r \<and>
    (r = 0 \<longrightarrow> (\<forall>b x. B b = Some x \<and> bfr x \<and> binIndex (bsz x) = i \<longrightarrow> bsz x < need)) \<and>
    (r \<noteq> 0 \<longrightarrow> (\<exists>x. B r = Some x \<and> bfr x \<and> need \<le> bsz x))"
proof -
  obtain L where L: "bin_ok m heads B i L" using conc_bin [OF assms] .
  have walk: "walkBin m need (heads ! i) =
      Some (case List.find (\<lambda>b. need \<le> mb_size m b) L of None \<Rightarrow> 0 | Some b \<Rightarrow> b)"
    using walkBin_list [of m "[]" L] L by (simp add: bin_ok_def)
  show ?thesis
  proof (cases "List.find (\<lambda>b. need \<le> mb_size m b) L")
    case None
    have "bsz x < need" if "B b = Some x" "bfr x" "binIndex (bsz x) = i" for b x
    proof -
      have "b \<in> set L" using L that by (auto simp: bin_ok_def bin_of_def)
      then show ?thesis using None conc_mb_size [OF assms(1) that(1)] by (auto simp: find_None_iff)
    qed
    then show ?thesis using walk None by auto
  next
    case (Some b)
    then have b: "b \<in> set L" "need \<le> mb_size m b" by (auto simp: find_Some_iff)
    then obtain x where "B b = Some x" "bfr x" using bin_blocks(1) [OF assms(1) L] by blast
    then show ?thesis using walk Some b conc_blk(7) [OF assms(1)] conc_mb_size [OF assms(1)] by auto
  qed
qed

lemma findFitFrom_bins:
  assumes "conc m heads B"
  shows "\<exists>r. findFitFrom m heads need i = Some r \<and>
    (r = 0 \<longrightarrow> (\<forall>b x. B b = Some x \<and> bfr x \<and> i \<le> binIndex (bsz x) \<longrightarrow> bsz x < need)) \<and>
    (r \<noteq> 0 \<longrightarrow> (\<exists>x. B r = Some x \<and> bfr x \<and> need \<le> bsz x))"
proof (induction "kBinCount - i" arbitrary: i)
  case 0
  have "\<not> i \<le> binIndex n" for n using 0 binIndex_less [of n] by linarith
  then show ?case using 0 by (subst findFitFrom.simps) auto
next
  case (Suc k)
  then have i: "i < kBinCount" "k = kBinCount - Suc i" by auto
  obtain r where r: "walkBin m need (heads ! i) = Some r"
    "r = 0 \<longrightarrow> (\<forall>b x. B b = Some x \<and> bfr x \<and> binIndex (bsz x) = i \<longrightarrow> bsz x < need)"
    "r \<noteq> 0 \<longrightarrow> (\<exists>x. B r = Some x \<and> bfr x \<and> need \<le> bsz x)"
    using walkBin_bin [OF assms i(1)] by blast
  show ?case
  proof (cases "r = 0")
    case True
    then have "findFitFrom m heads need i = findFitFrom m heads need (Suc i)"
      using r(1) i(1) by (subst findFitFrom.simps) simp
    moreover have "i \<le> j \<longleftrightarrow> i = j \<or> Suc i \<le> j" for j by auto
    ultimately show ?thesis using Suc.hyps(1) [OF i(2)] r(2) True by (metis (no_types, lifting))
  next
    case False
    then show ?thesis using r i(1) by (subst findFitFrom.simps) simp
  qed
qed

text \<open>
  \<open>findFit\<close> returns, finds only free blocks that are large enough, and finds one if there is one:
  a large enough block is in the bin of the request or in a later one.
\<close>

lemma findFit_bins:
  assumes "conc m heads B"
  shows "\<exists>r. findFit need (m, heads) = Some r \<and>
    (r = 0 \<longrightarrow> (\<forall>b x. B b = Some x \<and> bfr x \<longrightarrow> bsz x < need)) \<and>
    (r \<noteq> 0 \<longrightarrow> (\<exists>x. B r = Some x \<and> bfr x \<and> need \<le> bsz x))"
  using findFitFrom_bins [OF assms, of need "binIndex need"] binIndex_mono not_less
  unfolding findFit_def prod.case by (metis (no_types, lifting))

end
