(* ===== verification/SegmentLayout.thy ===== *)
theory SegmentLayout
  imports SegmentBins
begin

text \<open>
  Boundary tags without memory: \<open>layout_ok\<close> says that a map of blocks tiles its segments, each
  block knowing its neighbours' places.  Merging a block with the next one and splitting one in
  two keep a layout, and \<open>coalesced\<close>, that no two neighbours are both free, is kept when a freed
  block is merged on both sides.
\<close>

definition disjoint_blocks :: "blocks \<Rightarrow> bool" where
  "disjoint_blocks B \<longleftrightarrow>
     (\<forall>b x c y. B b = Some x \<and> B c = Some y \<and> b \<noteq> c \<longrightarrow> b + bsz x \<le> c \<or> c + bsz y \<le> b)"

definition next_ok :: "blocks \<Rightarrow> bool" where
  "next_ok B \<longleftrightarrow>
     (\<forall>b x. B b = Some x \<and> \<not> bls x \<longrightarrow> (\<exists>y. B (b + bsz x) = Some y \<and> \<not> bfs y \<and> bpv y = bsz x))"

definition prev_ok :: "blocks \<Rightarrow> bool" where
  "prev_ok B \<longleftrightarrow>
     (\<forall>b x. B b = Some x \<and> \<not> bfs x \<longrightarrow>
        bpv x \<le> b \<and> (\<exists>y. B (b - bpv x) = Some y \<and> bsz y = bpv x \<and> \<not> bls y))"

definition inside :: "region set \<Rightarrow> addr \<Rightarrow> blk \<Rightarrow> bool" where
  "inside segs b x \<longleftrightarrow> (\<exists>s n. (s, n) \<in> segs \<and> s \<le> b \<and> b + bsz x \<le> s + n \<and>
     (bfs x \<longleftrightarrow> b = s) \<and> (bls x \<longleftrightarrow> b + bsz x = s + n))"

definition segs_ok :: "region set \<Rightarrow> blocks \<Rightarrow> bool" where
  "segs_ok segs B \<longleftrightarrow>
     (\<forall>s n. (s, n) \<in> segs \<longrightarrow> s \<in> dom B \<and> 0 < n \<and> s + n \<le> 2 ^ 56) \<and>
     (\<forall>r \<in> segs. \<forall>r' \<in> segs. r \<noteq> r' \<longrightarrow> apart r r')"

definition layout_ok :: "region set \<Rightarrow> blocks \<Rightarrow> bool" where
  "layout_ok segs B \<longleftrightarrow>
     (\<forall>b x. B b = Some x \<longrightarrow> blk_ok x \<and> 16 dvd b \<and> 0 < b \<and> inside segs b x) \<and>
     disjoint_blocks B \<and> next_ok B \<and> prev_ok B \<and> segs_ok segs B"

definition coalesced :: "blocks \<Rightarrow> bool" where
  "coalesced B \<longleftrightarrow>
     (\<forall>b x y. B b = Some x \<and> \<not> bls x \<and> B (b + bsz x) = Some y \<longrightarrow> \<not> (bfr x \<and> bfr y))"

lemma layout_blk:
  assumes "layout_ok segs B" "B b = Some x"
  shows "blk_ok x" "16 dvd b" "0 < b" "inside segs b x" "sized (bsz x)" "48 \<le> bsz x"
    "b + bsz x \<le> 2 ^ 56"
proof -
  show "blk_ok x" "16 dvd b" "0 < b" and i: "inside segs b x"
    using assms unfolding layout_ok_def by blast+
  then show "sized (bsz x)" "48 \<le> bsz x" by (auto simp: blk_ok_def)
  obtain s n where "(s, n) \<in> segs" "b + bsz x \<le> s + n" using i unfolding inside_def by blast
  moreover then have "s + n \<le> 2 ^ 56" using assms(1) unfolding layout_ok_def segs_ok_def by blast
  ultimately show "b + bsz x \<le> 2 ^ 56" by linarith
qed

lemma layout_disjoint:
  assumes "layout_ok segs B" "B b = Some x" "B c = Some y" "b \<noteq> c"
  shows "b + bsz x \<le> c \<or> c + bsz y \<le> b"
  using assms unfolding layout_ok_def disjoint_blocks_def by blast

lemma layout_next:
  assumes "layout_ok segs B" "B b = Some x" "\<not> bls x"
  obtains y where "B (b + bsz x) = Some y" "\<not> bfs y" "bpv y = bsz x"
  using assms unfolding layout_ok_def next_ok_def by blast

lemma layout_prev:
  assumes "layout_ok segs B" "B b = Some x" "\<not> bfs x"
  obtains y where "bpv x \<le> b" "B (b - bpv x) = Some y" "bsz y = bpv x" "\<not> bls y"
  using assms unfolding layout_ok_def prev_ok_def by blast

text \<open>Blocks of a layout keep the distance that makes their words independent.\<close>

lemma layout_spread:
  assumes "layout_ok segs B"
  shows "spread (dom B)"
proof -
  have "0 < b \<and> nodeOf b < size_max \<and> sep b c" if "B b = Some x" "B c = Some y" for b x c y
    using layout_blk [OF assms that(1)] layout_blk [OF assms that(2)] layout_disjoint [OF assms that]
    by (auto simp: sep_def nodeOf_def kNodeOffset_def size_max_def)
  then show ?thesis by (auto simp: spread_def dom_def)
qed

lemma layout_okI:
  assumes "\<And>b x. B b = Some x \<Longrightarrow> blk_ok x \<and> 16 dvd b \<and> 0 < b \<and> inside segs b x"
    "\<And>b x c y. B b = Some x \<Longrightarrow> B c = Some y \<Longrightarrow> b \<noteq> c \<Longrightarrow> b + bsz x \<le> c \<or> c + bsz y \<le> b"
    "\<And>b x. B b = Some x \<Longrightarrow> \<not> bls x \<Longrightarrow> \<exists>y. B (b + bsz x) = Some y \<and> \<not> bfs y \<and> bpv y = bsz x"
    "\<And>b x. B b = Some x \<Longrightarrow> \<not> bfs x \<Longrightarrow>
       bpv x \<le> b \<and> (\<exists>y. B (b - bpv x) = Some y \<and> bsz y = bpv x \<and> \<not> bls y)"
    "\<And>s n. (s, n) \<in> segs \<Longrightarrow> \<exists>x. B s = Some x" "\<And>s n. (s, n) \<in> segs \<Longrightarrow> 0 < n \<and> s + n \<le> 2 ^ 56"
    "\<And>r r'. r \<in> segs \<Longrightarrow> r' \<in> segs \<Longrightarrow> r \<noteq> r' \<Longrightarrow> apart r r'"
  shows "layout_ok segs B"
proof -
  have "\<forall>b x. B b = Some x \<longrightarrow> blk_ok x \<and> 16 dvd b \<and> 0 < b \<and> inside segs b x" using assms(1) by blast
  moreover have "disjoint_blocks B" unfolding disjoint_blocks_def using assms(2) by blast
  moreover have "next_ok B" unfolding next_ok_def using assms(3) by blast
  moreover have "prev_ok B" unfolding prev_ok_def using assms(4) by blast
  moreover have "segs_ok segs B" unfolding segs_ok_def using assms(5-7) by (auto simp: domIff)
  ultimately show ?thesis unfolding layout_ok_def by blast
qed

lemma layout_segs:
  assumes "layout_ok segs B"
  shows "(s, n) \<in> segs \<Longrightarrow> \<exists>x. B s = Some x" "(s, n) \<in> segs \<Longrightarrow> 0 < n \<and> s + n \<le> 2 ^ 56"
    "r \<in> segs \<Longrightarrow> r' \<in> segs \<Longrightarrow> r \<noteq> r' \<Longrightarrow> apart r r'"
  using assms unfolding layout_ok_def segs_ok_def by (auto simp: dom_def)

lemma layout_first:
  assumes "layout_ok segs B" "B b = Some x" "(b, n) \<in> segs"
  shows "bfs x"
proof -
  obtain s k where s: "(s, k) \<in> segs" "s \<le> b" "b + bsz x \<le> s + k" "bfs x \<longleftrightarrow> b = s"
    using layout_blk(4) [OF assms(1,2)] unfolding inside_def by blast
  have "(s, k) = (b, n)"
  proof (rule ccontr)
    assume "(s, k) \<noteq> (b, n)"
    then have "apart (s, k) (b, n)" by (rule layout_segs(3) [OF assms(1) s(1) assms(3)])
    then show False
      using layout_segs(2) [OF assms(1,3)] layout_blk(6) [OF assms(1,2)] s by auto
  qed
  then show ?thesis using s by simp
qed

text \<open>The free flags play no part in a layout.\<close>

lemma layout_setfree:
  assumes "layout_ok segs B" "B b = Some x"
  shows "layout_ok segs (setfree B b v)"
proof -
  let ?B = "setfree B b v"
  let ?like = "\<lambda>y z. bsz y = bsz z \<and> bpv y = bpv z \<and> bfs y = bfs z \<and> bls y = bls z"
  have to: "\<exists>y. B c = Some y \<and> ?like z y" if "?B c = Some z" for c z
    using that assms(2) by (auto simp: setfree_def split: if_splits)
  have fro: "\<exists>z. ?B c = Some z \<and> ?like z y" if "B c = Some y" for c y
    using that assms(2) by (auto simp: setfree_def)
  show ?thesis
  proof (rule layout_okI)
    show "blk_ok z \<and> 16 dvd c \<and> 0 < c \<and> inside segs c z" if "?B c = Some z" for c z
      using to [OF that] layout_blk [OF assms(1), of c] by (auto simp: blk_ok_def inside_def)
    fix c d y z assume c: "?B c = Some y" and d: "?B d = Some z" and "c \<noteq> d"
    obtain y' z' where "B c = Some y'" "B d = Some z'" "bsz y = bsz y'" "bsz z = bsz z'"
      using to [OF c] to [OF d] by blast
    then show "c + bsz y \<le> d \<or> d + bsz z \<le> c"
      using layout_disjoint [OF assms(1) _ _ \<open>c \<noteq> d\<close>] by auto
  next
    show "\<exists>y. ?B (c + bsz z) = Some y \<and> \<not> bfs y \<and> bpv y = bsz z" if "?B c = Some z" "\<not> bls z" for c z
      using to [OF that(1)] that(2) layout_next [OF assms(1), of c] fro [of "c + bsz z"] by metis
    show "bpv z \<le> c \<and> (\<exists>y. ?B (c - bpv z) = Some y \<and> bsz y = bpv z \<and> \<not> bls y)"
      if "?B c = Some z" "\<not> bfs z" for c z
      using to [OF that(1)] that(2) layout_prev [OF assms(1), of c] fro [of "c - bpv z"] by metis
    show "\<exists>z. ?B s = Some z" if "(s, n) \<in> segs" for s n
      using layout_segs(1) [OF assms(1) that] fro by blast
  qed (use layout_segs [OF assms(1)] in blast)+
qed

section \<open>Merging and splitting\<close>

definition absorb :: "blocks \<Rightarrow> addr \<Rightarrow> blocks" where
  "absorb B b = (let x = the (B b); c = b + bsz x; y = the (B c)
     in B(c := None, b \<mapsto> x\<lparr>bsz := bsz x + bsz y, bls := bls y\<rparr>))"

definition fixprev :: "blocks \<Rightarrow> addr \<Rightarrow> blocks" where
  "fixprev B b = (let x = the (B b); c = b + bsz x
     in if bls x then B else B(c \<mapsto> (the (B c))\<lparr>bpv := bsz x\<rparr>))"

definition merge :: "blocks \<Rightarrow> addr \<Rightarrow> blocks" where
  "merge B b = fixprev (absorb B b) b"

definition split :: "blocks \<Rightarrow> addr \<Rightarrow> nat \<Rightarrow> blocks" where
  "split B b n = (let x = the (B b)
     in fixprev (B(b \<mapsto> x\<lparr>bsz := n, bls := False\<rparr>,
       b + n \<mapsto> \<lparr>bsz = bsz x - n, bpv = n, bfr = False, bfs = False, bls = bls x\<rparr>)) (b + n))"

text \<open>The next block is where the current one ends, and there is room for both.\<close>

lemma layout_pair:
  assumes "layout_ok segs B" "B b = Some x" "\<not> bls x" "B (b + bsz x) = Some y"
  shows "blk_ok (x\<lparr>bsz := bsz x + bsz y, bls := bls y\<rparr>)" "\<not> bfs y"
    "inside segs b (x\<lparr>bsz := bsz x + bsz y, bls := bls y\<rparr>)"
proof -
  note bx = layout_blk [OF assms(1,2)]
  note by' = layout_blk [OF assms(1,4)]
  show "blk_ok (x\<lparr>bsz := bsz x + bsz y, bls := bls y\<rparr>)"
    using bx by' by (auto simp: blk_ok_def sized_def size_max_def)
  show fy: "\<not> bfs y" using layout_next [OF assms(1-3)] assms(4) by auto
  obtain s n where s: "(s, n) \<in> segs" "s \<le> b" "b + bsz x \<le> s + n" "bfs x \<longleftrightarrow> b = s" "b + bsz x \<noteq> s + n"
    using bx(4) assms(3) unfolding inside_def by blast
  obtain s' n' where s': "(s', n') \<in> segs" "s' \<le> b + bsz x" "b + bsz x + bsz y \<le> s' + n'"
    "bls y \<longleftrightarrow> b + bsz x + bsz y = s' + n'"
    using by'(4) unfolding inside_def by blast
  have "(s', n') = (s, n)"
    using layout_segs(3) [OF assms(1) s(1) s'(1)] s s' by'(6) by (cases "(s, n) = (s', n')") auto
  then show "inside segs b (x\<lparr>bsz := bsz x + bsz y, bls := bls y\<rparr>)"
    unfolding inside_def using s s' by (intro exI [of _ s] exI [of _ n]) (simp add: add.assoc)
qed

lemma merge_layout:
  assumes "layout_ok segs B" "B b = Some x" "\<not> bls x"
  shows "layout_ok segs (merge B b)"
proof -
  obtain y where y: "B (b + bsz x) = Some y" "\<not> bfs y" "bpv y = bsz x"
    using layout_next [OF assms] .
  let ?c = "b + bsz x" and ?e = "b + bsz x + bsz y"
  let ?x = "x\<lparr>bsz := bsz x + bsz y, bls := bls y\<rparr>"
  note pair = layout_pair [OF assms y(1)]
  note dis = layout_disjoint [OF assms(1)]
  have pos: "48 \<le> bsz z" if "B d = Some z" for d z using layout_blk(6) [OF assms(1) that] .
  have M: "merge B b d = (if d = b then Some ?x else if d = ?c then None
      else if d = ?e \<and> \<not> bls y then Some ((the (B d))\<lparr>bpv := bsz x + bsz y\<rparr>) else B d)" for d
    using pos [OF assms(2)] pos [OF y(1)]
    by (simp add: merge_def fixprev_def absorb_def Let_def assms(2) y(1) add.assoc)
  have e: "\<exists>z. B ?e = Some z \<and> \<not> bfs z \<and> bpv z = bsz y" if "\<not> bls y"
    using layout_next [OF assms(1) y(1) that] by blast
  have old: "d \<noteq> b \<Longrightarrow> \<exists>z'. B d = Some z' \<and> d \<noteq> ?c \<and> bsz z' = bsz z \<and> bfs z' = bfs z \<and> bls z' = bls z \<and> blk_ok z
      \<and> bpv z = (if d = ?e \<and> \<not> bls y then bsz x + bsz y else bpv z')"
    if "merge B b d = Some z" for d z
    using that e pair(1) layout_blk(1) [OF assms(1), of d] by (auto simp: M blk_ok_def sized_def split: if_splits)
  have away: "d + bsz z \<le> b \<or> ?e \<le> d" if "B d = Some z" "d \<noteq> b" "d \<noteq> ?c" for d z
    using dis [OF that(1) assms(2) that(2)] dis [OF that(1) y(1) that(3)] pos [OF that(1)] by linarith
  show ?thesis
  proof (rule layout_okI)
    fix d z assume d: "merge B b d = Some z"
    show "blk_ok z \<and> 16 dvd d \<and> 0 < d \<and> inside segs d z"
    proof (cases "d = b")
      case True
      then show ?thesis using d pair layout_blk [OF assms(1,2)] by (simp add: M)
    next
      case False
      then show ?thesis using old [OF d] layout_blk [OF assms(1), of d] by (auto simp: inside_def)
    qed
    show "d + bsz z \<le> d' \<or> d' + bsz z' \<le> d" if d': "merge B b d' = Some z'" "d \<noteq> d'" for d' z'
    proof (cases "d = b \<or> d' = b")
      case True
      then show ?thesis
        using d d' old [OF d] old [OF d'(1)] away [of d] away [of d'] by (auto simp: M add.assoc)
    next
      case False
      then obtain w w' where "B d = Some w" "B d' = Some w'" "bsz w = bsz z" "bsz w' = bsz z'"
        using old [OF d] old [OF d'(1)] by blast
      then show ?thesis using dis [of d w d' w'] d'(2) by auto
    qed
    show "\<exists>y'. merge B b (d + bsz z) = Some y' \<and> \<not> bfs y' \<and> bpv y' = bsz z" if ls: "\<not> bls z"
    proof (cases "d = b")
      case True
      then show ?thesis using d ls e pos [OF assms(2)] pos [OF y(1)] by (auto simp: M add.assoc)
    next
      case False
      then obtain w where w: "B d = Some w" "d \<noteq> ?c" "bsz w = bsz z" "\<not> bls w" using old [OF d] ls by auto
      obtain v where v: "B (d + bsz z) = Some v" "\<not> bfs v" "bpv v = bsz z"
        using layout_next [OF assms(1) w(1,4)] w(3) by auto
      have "d + bsz z \<noteq> ?c" "d + bsz z \<noteq> ?e"
        using away [OF w(1) False w(2)] w(3) pos [OF w(1)] pos [OF assms(2)] pos [OF y(1)] by auto
      then show ?thesis using v assms(2) by (auto simp: M)
    qed
    show "bpv z \<le> d \<and> (\<exists>y'. merge B b (d - bpv z) = Some y' \<and> bsz y' = bpv z \<and> \<not> bls y')" if fs: "\<not> bfs z"
    proof (cases "d = b")
      case True
      have fx: "\<not> bfs x" "z = ?x" using d fs True by (auto simp: M)
      obtain w where w: "bpv x \<le> b" "B (b - bpv x) = Some w" "bsz w = bpv x" "\<not> bls w"
        using layout_prev [OF assms(1,2) fx(1)] .
      then show ?thesis using fx True pos [OF w(2)] pos [OF assms(2)] by (auto simp: M)
    next
      case False
      then obtain w where w: "B d = Some w" "d \<noteq> ?c" "\<not> bfs w"
        "bpv z = (if d = ?e \<and> \<not> bls y then bsz x + bsz y else bpv w)" using old [OF d] fs by auto
      show ?thesis
      proof (cases "d = ?e \<and> \<not> bls y")
        case True
        then show ?thesis using w by (auto simp: M)
      next
        case F: False
        obtain v where v: "bpv w \<le> d" "B (d - bpv w) = Some v" "bsz v = bpv w" "\<not> bls v"
          using layout_prev [OF assms(1) w(1,3)] .
        have nb: "d - bpv w \<noteq> b"
        proof
          assume eq: "d - bpv w = b"
          then have "v = x" using v(2) assms(2) by simp
          then show False using eq v(1,3) w(2) by auto
        qed
        have nc: "d - bpv w \<noteq> ?c"
        proof
          assume eq: "d - bpv w = ?c"
          then have "v = y" using v(2) y(1) by simp
          then show False using eq v F by auto
        qed
        show ?thesis using v nb nc F w(4) by (cases "d - bpv w = ?e \<and> \<not> bls y") (auto simp: M)
      qed
    qed
  next
    show "\<exists>z. merge B b s = Some z" if seg: "(s, n) \<in> segs" for s n
    proof -
      obtain z where z: "B s = Some z" using layout_segs(1) [OF assms(1) seg] by blast
      have "s \<noteq> ?c" using layout_first [OF assms(1) z seg] z y(1,2) by auto
      then show ?thesis using z by (auto simp: M)
    qed
  qed (use layout_segs [OF assms(1)] in blast)+
qed

lemma split_layout:
  assumes "layout_ok segs B" "B b = Some x" "16 dvd n" "48 \<le> n" "n + 48 \<le> bsz x"
  shows "layout_ok segs (split B b n)"
proof -
  let ?x = "x\<lparr>bsz := n, bls := False\<rparr>" and ?e = "b + bsz x"
  let ?r = "\<lparr>bsz = bsz x - n, bpv = n, bfr = False, bfs = False, bls = bls x\<rparr>"
  note bx = layout_blk [OF assms(1,2)]
  note dis = layout_disjoint [OF assms(1)]
  have pos: "48 \<le> bsz z" if "B d = Some z" for d z using layout_blk(6) [OF assms(1) that] .
  have S: "split B b n d = (if d = b then Some ?x else if d = b + n then Some ?r
      else if d = ?e \<and> \<not> bls x then Some ((the (B d))\<lparr>bpv := bsz x - n\<rparr>) else B d)" for d
    using assms(4,5) by (auto simp: split_def fixprev_def Let_def assms(2))
  have away: "d + bsz z \<le> b \<or> ?e \<le> d" if "B d = Some z" "d \<noteq> b" for d z
    using dis [OF that(1) assms(2) that(2)] by blast
  have e: "\<exists>z. B ?e = Some z \<and> \<not> bfs z \<and> bpv z = bsz x" if "\<not> bls x"
    using layout_next [OF assms(1,2) that] by blast
  have lt: "bsz x < size_max" using bx(7) by (simp add: size_max_def)
  have old: "\<exists>z'. B d = Some z' \<and> bsz z' = bsz z \<and> bfs z' = bfs z \<and> bls z' = bls z \<and> blk_ok z
      \<and> bpv z = (if d = ?e \<and> \<not> bls x then bsz x - n else bpv z')"
    if "split B b n d = Some z" "d \<noteq> b" "d \<noteq> b + n" for d z
    using that e lt layout_blk(1) [OF assms(1), of d] by (auto simp: S blk_ok_def split: if_splits)
  have parts: "blk_ok ?x" "blk_ok ?r" "16 dvd b + n"
    using bx assms(3-5) lt by (auto simp: blk_ok_def sized_def)
  obtain s k where s: "(s, k) \<in> segs" "s \<le> b" "?e \<le> s + k" "bfs x \<longleftrightarrow> b = s" "bls x \<longleftrightarrow> ?e = s + k"
    using bx(4) unfolding inside_def by blast
  have ins: "inside segs b ?x" "inside segs (b + n) ?r"
    unfolding inside_def using s assms(4,5) by (intro exI [of _ s] exI [of _ k]; auto)+
  show ?thesis
  proof (rule layout_okI)
    fix d z assume d: "split B b n d = Some z"
    show "blk_ok z \<and> 16 dvd d \<and> 0 < d \<and> inside segs d z"
    proof (cases "d = b \<or> d = b + n")
      case True
      then show ?thesis using d parts ins bx by (auto simp: S split: if_splits)
    next
      case False
      then show ?thesis using old [OF d] layout_blk [OF assms(1), of d] by (auto simp: inside_def)
    qed
    show "d + bsz z \<le> d' \<or> d' + bsz z' \<le> d" if d': "split B b n d' = Some z'" "d \<noteq> d'" for d' z'
    proof -
      have part: "v + bsz w \<le> b \<or> ?e \<le> v" if v: "split B b n v = Some w" "v \<noteq> b" "v \<noteq> b + n" for v w
        using old [OF v] away [of v] v(2) by auto
      have own: "z = ?x \<and> d = b \<or> z = ?r \<and> d = b + n \<or> d \<noteq> b \<and> d \<noteq> b + n"
        "z' = ?x \<and> d' = b \<or> z' = ?r \<and> d' = b + n \<or> d' \<noteq> b \<and> d' \<noteq> b + n"
        using d d' assms(4) by (auto simp: S split: if_splits)
      show ?thesis
      proof (cases "d \<noteq> b \<and> d \<noteq> b + n \<and> d' \<noteq> b \<and> d' \<noteq> b + n")
        case True
        then obtain w w' where "B d = Some w" "B d' = Some w'" "bsz w = bsz z" "bsz w' = bsz z'"
          using old [OF d] old [OF d'(1)] by blast
        then show ?thesis using dis [of d w d' w'] d'(2) by auto
      next
        case False
        then show ?thesis using own part [OF d] part [OF d'(1)] d'(2) assms(4,5) by auto
      qed
    qed
    show "\<exists>y. split B b n (d + bsz z) = Some y \<and> \<not> bfs y \<and> bpv y = bsz z" if ls: "\<not> bls z"
    proof (cases "d = b \<or> d = b + n")
      case True
      then show ?thesis using d ls e assms(4,5) by (auto simp: S split: if_splits)
    next
      case False
      then obtain w where w: "B d = Some w" "bsz w = bsz z" "\<not> bls w" using old [OF d] ls by auto
      obtain v where v: "B (d + bsz z) = Some v" "\<not> bfs v" "bpv v = bsz z"
        using layout_next [OF assms(1) w(1,3)] w(2) by auto
      have "d + bsz z \<noteq> b + n" "d + bsz z \<noteq> ?e"
        using away [OF w(1)] False w(2) pos [OF w(1)] assms(4,5) by auto
      then show ?thesis using v assms(2) by (auto simp: S)
    qed
    show "bpv z \<le> d \<and> (\<exists>y. split B b n (d - bpv z) = Some y \<and> bsz y = bpv z \<and> \<not> bls y)" if fs: "\<not> bfs z"
    proof -
      consider "d = b" | "d = b + n" | "d = ?e \<and> \<not> bls x" | "d \<noteq> b \<and> d \<noteq> b + n \<and> \<not> (d = ?e \<and> \<not> bls x)"
        by blast
      then show ?thesis
      proof cases
        case 1
        then have fx: "\<not> bfs x" "z = ?x" using d fs by (auto simp: S)
        obtain w where w: "bpv x \<le> b" "B (b - bpv x) = Some w" "bsz w = bpv x" "\<not> bls w"
          using layout_prev [OF assms(1,2) fx(1)] .
        then show ?thesis using fx 1 pos [OF w(2)] assms(4,5) by (auto simp: S)
      next
        case 2
        then show ?thesis using d assms(4) by (auto simp: S)
      next
        case 3
        then show ?thesis using d assms(4,5) by (auto simp: S)
      next
        case 4
        then obtain w where w: "B d = Some w" "bpv w = bpv z" "\<not> bfs w" using old [OF d] fs by auto
        obtain v where v: "bpv z \<le> d" "B (d - bpv z) = Some v" "bsz v = bpv z" "\<not> bls v"
          using layout_prev [OF assms(1) w(1,3)] w(2) by auto
        have "d - bpv z \<noteq> b" using v assms(2) 4 by auto
        moreover have "d - bpv z \<noteq> b + n" using away [OF v(2)] pos [OF v(2)] calculation assms(4,5) by auto
        ultimately show ?thesis using v by (auto simp: S)
      qed
    qed
  next
    show "\<exists>z. split B b n s = Some z" if "(s, k) \<in> segs" for s k
      using layout_segs(1) [OF assms(1) that] by (auto simp: S)
  qed (use layout_segs [OF assms(1)] in blast)+
qed

section \<open>Coalescing\<close>

definition free_next :: "blocks \<Rightarrow> addr \<Rightarrow> bool" where
  "free_next B b \<longleftrightarrow> (let x = the (B b) in \<not> bls x \<and> bfr (the (B (b + bsz x))))"

definition free_prev :: "blocks \<Rightarrow> addr \<Rightarrow> bool" where
  "free_prev B b \<longleftrightarrow> (let x = the (B b) in \<not> bfs x \<and> bfr (the (B (b - bpv x))))"

definition join_next :: "blocks \<Rightarrow> addr \<Rightarrow> blocks" where
  "join_next B b = (if free_next B b then absorb B b else B)"

definition join_prev :: "blocks \<Rightarrow> addr \<Rightarrow> addr \<times> blocks" where
  "join_prev B b = (if free_prev B b
     then let p = b - bpv (the (B b)) in (p, absorb (setfree B p False) p) else (b, B))"

definition coalesce :: "blocks \<Rightarrow> addr \<Rightarrow> addr \<times> blocks" where
  "coalesce B b = (let (p, B') = join_prev (join_next B b) b in (p, fixprev B' p))"

definition allocs :: "blocks \<Rightarrow> (addr \<times> nat) set" where
  "allocs B = {(b, bsz x) | b x. B b = Some x \<and> \<not> bfr x}"

lemma merge_apply:
  assumes "layout_ok segs B" "B b = Some x" "\<not> bls x" "B (b + bsz x) = Some y"
  shows "merge B b d = (if d = b then Some (x\<lparr>bsz := bsz x + bsz y, bls := bls y\<rparr>)
    else if d = b + bsz x then None
    else if d = b + bsz x + bsz y \<and> \<not> bls y then Some ((the (B d))\<lparr>bpv := bsz x + bsz y\<rparr>) else B d)"
  using layout_blk(6) [OF assms(1,2)] layout_blk(6) [OF assms(1,4)]
  by (simp add: merge_def fixprev_def absorb_def Let_def assms(2,4) add.assoc)

text \<open>A block of the merged heap is the grown one or an old one, up to its \<open>prevSize\<close>.\<close>

lemma merge_cases:
  assumes "layout_ok segs B" "B b = Some x" "\<not> bls x" "B (b + bsz x) = Some y" "merge B b d = Some z"
  obtains (grown) "d = b" "z = x\<lparr>bsz := bsz x + bsz y, bls := bls y\<rparr>"
  | (old) w where "d \<noteq> b" "d \<noteq> b + bsz x" "B d = Some w" "bsz z = bsz w" "bfr z = bfr w" "bls z = bls w"
      "bfs z = bfs w"
proof -
  have "\<exists>w. B (b + bsz x + bsz y) = Some w" if "\<not> bls y"
    using layout_next [OF assms(1,4) that] by blast
  then show thesis using assms(5) that by (auto simp: merge_apply [OF assms(1-4)] split: if_splits)
qed

lemma merge_old:
  assumes "layout_ok segs B" "B b = Some x" "\<not> bls x" "B (b + bsz x) = Some y"
    "B d = Some w" "d \<noteq> b" "d \<noteq> b + bsz x"
  shows "\<exists>z. merge B b d = Some z \<and> bsz z = bsz w \<and> bfr z = bfr w \<and> bfs z = bfs w"
  using assms(5-7) by (auto simp: merge_apply [OF assms(1-4)])

lemma layout_away:
  assumes "layout_ok segs B" "B b = Some x" "\<not> bls x" "B (b + bsz x) = Some y"
    "B d = Some w" "d \<noteq> b" "d \<noteq> b + bsz x"
  shows "d + bsz w \<le> b \<or> b + bsz x + bsz y \<le> d"
  using layout_disjoint [OF assms(1,5,2,6)] layout_disjoint [OF assms(1,5,4,7)]
    layout_blk(6) [OF assms(1,5)] by linarith

lemma merge_coalesced:
  assumes "layout_ok segs B" "B b = Some x" "\<not> bls x" "\<not> bfr x" "coalesced B"
  shows "coalesced (merge B b)"
proof -
  obtain y where y: "B (b + bsz x) = Some y" using layout_next [OF assms(1-3)] by blast
  note cases = merge_cases [OF assms(1-3) y, consumes 1, case_names grown old]
  have "\<not> (bfr z \<and> bfr v)" if d: "merge B b d = Some z" "\<not> bls z" "merge B b (d + bsz z) = Some v" for d z v
    using d(1)
  proof (cases rule: cases)
    case grown
    then show ?thesis using assms(4) by simp
  next
    case z: (old w)
    from d(3) show ?thesis
    proof (cases rule: cases)
      case grown
      then show ?thesis using assms(4) by simp
    next
      case (old u)
      then show ?thesis using z d(2) assms(5) unfolding coalesced_def by metis
    qed
  qed
  then show ?thesis unfolding coalesced_def by blast
qed

lemma coalesced_setfree_False: "coalesced B \<Longrightarrow> B b = Some x \<Longrightarrow> coalesced (setfree B b False)"
  unfolding coalesced_def setfree_def by (auto split: if_splits)

lemma coalesced_setfree_True:
  assumes "layout_ok segs B" "coalesced B" "B b = Some x" "\<not> free_next B b" "\<not> free_prev B b"
  shows "coalesced (setfree B b True)"
proof -
  have "\<not> (bfr z \<and> bfr v)"
    if d: "setfree B b True d = Some z" "\<not> bls z" "setfree B b True (d + bsz z) = Some v" for d z v
  proof (cases "d = b")
    case True
    then have "z = x\<lparr>bfr := True\<rparr>" using d(1) assms(3) by (simp add: setfree_def)
    moreover have "48 \<le> bsz x" using layout_blk(6) [OF assms(1,3)] .
    ultimately show ?thesis using True d(2,3) assms(3,4)
      by (auto simp: setfree_def free_next_def Let_def split: if_splits)
  next
    case False
    then have z: "B d = Some z" using d(1) by (simp add: setfree_def)
    obtain u where u: "B (d + bsz z) = Some u" "\<not> bfs u" "bpv u = bsz z"
      using layout_next [OF assms(1) z d(2)] .
    show ?thesis
    proof (cases "d + bsz z = b")
      case True
      then show ?thesis using u z assms(3,5) by (auto simp: free_prev_def Let_def)
    next
      case False
      then show ?thesis using d(2,3) z assms(2) unfolding coalesced_def by (auto simp: setfree_def)
    qed
  qed
  then show ?thesis unfolding coalesced_def by blast
qed

text \<open>What the rest of the heap sees of a merge.\<close>

lemma allocs_setfree_True: "allocs (setfree B b True) = {(c, bsz y) | c y. B c = Some y \<and> \<not> bfr y \<and> c \<noteq> b}"
  by (auto simp: allocs_def setfree_def split: if_splits)

lemma own_setfree_mono: "B b = Some x \<Longrightarrow> 16 \<le> bsz x \<Longrightarrow> own B \<subseteq> own (setfree B b True)"
proof
  fix z assume b: "B b = Some x" "16 \<le> bsz x" and "z \<in> own B"
  then obtain c y where "B c = Some y" "c \<le> z" "z < c + (if bfr y then bsz y else 16)" unfolding own_def by blast
  then show "z \<in> own (setfree B b True)"
    using b unfolding own_def setfree_def
    by (cases "c = b") (auto intro: exI [of _ c] split: if_splits)
qed

lemma own_fixprev: "B (b + bsz (the (B b))) \<noteq> None \<Longrightarrow> own (fixprev B b) = own B"
  unfolding own_def fixprev_def Let_def by (auto split: if_splits) (metis option.sel)+

lemma ownI: "B b = Some y \<Longrightarrow> b \<le> v \<Longrightarrow> v < b + (if bfr y then bsz y else 16) \<Longrightarrow> v \<in> own B"
  unfolding own_def by blast

lemma merge_frame:
  assumes "layout_ok segs B" "B b = Some x" "\<not> bls x" "B (b + bsz x) = Some y"
  shows "allocs (setfree (merge B b) b True) = allocs (setfree (setfree B (b + bsz x) True) b True)"
    "own (setfree (merge B b) b True) \<subseteq> own (setfree (setfree B (b + bsz x) True) b True)"
proof -
  let ?B = "setfree (setfree B (b + bsz x) True) b True"
  note cases = merge_cases [OF assms(1-4), consumes 1, case_names grown old]
  have pos: "48 \<le> bsz x" using layout_blk(6) [OF assms(1,2)] .
  have other: "?B c = B c" if "c \<noteq> b" "c \<noteq> b + bsz x" for c using that by (simp add: setfree_def)
  have both: "?B b = Some (x\<lparr>bfr := True\<rparr>)" "?B (b + bsz x) = Some (y\<lparr>bfr := True\<rparr>)"
    using assms(2,4) pos by (auto simp: setfree_def)
  have "(c, n) \<in> allocs (setfree (merge B b) b True) \<longleftrightarrow> (c, n) \<in> allocs ?B" for c n
  proof
    assume "(c, n) \<in> allocs (setfree (merge B b) b True)"
    then obtain z where z: "merge B b c = Some z" "\<not> bfr z" "c \<noteq> b" "n = bsz z"
      by (auto simp: allocs_setfree_True)
    from z(1) show "(c, n) \<in> allocs ?B"
      by (cases rule: cases) (use z other in \<open>auto simp: allocs_def\<close>)
  next
    assume "(c, n) \<in> allocs ?B"
    then obtain z where z: "?B c = Some z" "\<not> bfr z" "n = bsz z" by (auto simp: allocs_def)
    then have c: "c \<noteq> b" "c \<noteq> b + bsz x" using both by auto
    then show "(c, n) \<in> allocs (setfree (merge B b) b True)"
      using z other merge_old [OF assms, of c z] by (auto simp: allocs_setfree_True)
  qed
  then show "allocs (setfree (merge B b) b True) = allocs ?B" by auto
  show "own (setfree (merge B b) b True) \<subseteq> own ?B"
  proof
    fix v assume "v \<in> own (setfree (merge B b) b True)"
    then obtain c z where c: "setfree (merge B b) b True c = Some z" "c \<le> v" "v < c + (if bfr z then bsz z else 16)"
      unfolding own_def by blast
    show "v \<in> own ?B"
    proof (cases "c = b")
      case True
      then have "b \<le> v" "v < b + bsz x + bsz y"
        using c by (auto simp: setfree_def merge_apply [OF assms])
      then show ?thesis using ownI [where B = ?B, OF both(1), of v] ownI [where B = ?B, OF both(2), of v]
        by (cases "v < b + bsz x") auto
    next
      case False
      then have "merge B b c = Some z" using c(1) by (simp add: setfree_def)
      then obtain w where w: "B c = Some w" "bsz z = bsz w" "bfr z = bfr w" "c \<noteq> b + bsz x"
        using False by (cases rule: cases) auto
      then show ?thesis using c False by (intro ownI [of ?B c w]) (auto simp: other)
    qed
  qed
qed

lemma setfree_id: "B b = Some x \<Longrightarrow> bfr x = v \<Longrightarrow> setfree B b v = B"
  by (auto simp: setfree_def)

lemma merge_no_free_next:
  assumes "layout_ok segs B" "B b = Some x" "\<not> bls x" "B (b + bsz x) = Some y" "\<not> free_next B (b + bsz x)"
  shows "\<not> free_next (merge B b) b"
proof (cases "bls y")
  case False
  then obtain z where "B (b + bsz x + bsz y) = Some z" using layout_next [OF assms(1,4)] by blast
  then show ?thesis using assms False layout_blk(6) [OF assms(1,2)] layout_blk(6) [OF assms(1,4)]
    by (simp add: free_next_def Let_def merge_apply [OF assms(1-4)] add.assoc)
qed (simp add: free_next_def Let_def merge_apply [OF assms(1-4)])

text \<open>
  Coalescing a block that is no longer in use: a layout with the same blocks in use apart from
  it, and no two free neighbours once the resulting block is marked free.
\<close>

definition others_kept :: "blocks \<Rightarrow> addr \<Rightarrow> blocks \<Rightarrow> addr \<Rightarrow> bool" where
  "others_kept B b B' p \<longleftrightarrow> (\<forall>c y. B' c = Some y \<and> c \<noteq> p \<longrightarrow> c \<noteq> b \<and>
     (\<exists>z. B c = Some z \<and> bsz z = bsz y \<and> bfr z = bfr y \<and> bfs z = bfs y \<and> bls z = bls y))"

definition absorb_ok :: "region set \<Rightarrow> blocks \<Rightarrow> addr \<Rightarrow> blocks \<Rightarrow> addr \<Rightarrow> bool" where
  "absorb_ok segs B b B' p \<longleftrightarrow> layout_ok segs B' \<and> coalesced B' \<and> (\<exists>w. B' p = Some w \<and> \<not> bfr w) \<and>
     allocs (setfree B' p True) = allocs (setfree B b True) \<and>
     own (setfree B' p True) \<subseteq> own (setfree B b True) \<and>
     others_kept B b B' p"

lemma others_keptD:
  assumes "others_kept B b B' p" "B' c = Some y" "c \<noteq> p"
  shows "c \<noteq> b \<and> (\<exists>z. B c = Some z \<and> bsz z = bsz y \<and> bfr z = bfr y \<and> bfs z = bfs y \<and> bls z = bls y)"
  using assms unfolding others_kept_def by blast

lemma others_kept_trans:
  assumes "others_kept B b B1 d" "others_kept B1 d B2 p"
  shows "others_kept B b B2 p"
  unfolding others_kept_def
proof (intro allI impI, elim conjE)
  fix c y assume "B2 c = Some y" "c \<noteq> p"
  from others_keptD [OF assms(2) this] obtain z where z: "c \<noteq> d" "B1 c = Some z"
    "bsz z = bsz y" "bfr z = bfr y" "bfs z = bfs y" "bls z = bls y" by blast
  from others_keptD [OF assms(1) z(2,1)] z(3-6)
  show "c \<noteq> b \<and> (\<exists>z. B c = Some z \<and> bsz z = bsz y \<and> bfr z = bfr y \<and> bfs z = bfs y \<and> bls z = bls y)" by auto
qed

lemma absorb_ok_trans: "absorb_ok segs B b B1 c \<Longrightarrow> absorb_ok segs B1 c B2 p \<Longrightarrow> absorb_ok segs B b B2 p"
  unfolding absorb_ok_def by (auto intro: others_kept_trans)

lemma merge_others:
  assumes "layout_ok segs B" "B b = Some x" "\<not> bls x" "merge B b c = Some y" "c \<noteq> b"
  shows "c \<noteq> b + bsz x \<and> (\<exists>z. B c = Some z \<and> bsz z = bsz y \<and> bfr z = bfr y \<and> bfs z = bfs y \<and> bls z = bls y)"
proof -
  obtain w where "B (b + bsz x) = Some w" using layout_next [OF assms(1-3)] by blast
  from assms(1-3) this assms(4) show ?thesis by (cases rule: merge_cases) (use assms(5) in auto)
qed

lemma merge_with_next:
  assumes "layout_ok segs B" "coalesced B" "B b = Some x" "\<not> bfr x" "free_next B b"
  shows "absorb_ok segs B b (merge B b) b" "\<not> free_next (merge B b) b"
proof -
  have ls: "\<not> bls x" using assms(3,5) by (simp add: free_next_def Let_def)
  obtain y where y: "B (b + bsz x) = Some y" using layout_next [OF assms(1,3) ls] by blast
  have fr: "bfr y" using assms(3,5) y by (simp add: free_next_def Let_def)
  show "absorb_ok segs B b (merge B b) b"
    using merge_layout [OF assms(1,3) ls] merge_coalesced [OF assms(1,3) ls assms(4,2)] assms(4)
      merge_frame [OF assms(1,3) ls y] setfree_id [of B _ y True] y fr merge_others [OF assms(1,3) ls]
      merge_apply [OF assms(1,3) ls y, of b]
    by (simp add: absorb_ok_def others_kept_def)
  show "\<not> free_next (merge B b) b"
  proof (rule merge_no_free_next [OF assms(1,3) ls y])
    have "\<not> bfr z" if "\<not> bls y" "B (b + bsz x + bsz y) = Some z" for z
      using assms(2) y fr that unfolding coalesced_def by blast
    moreover have "\<exists>z. B (b + bsz x + bsz y) = Some z" if "\<not> bls y"
      using layout_next [OF assms(1) y that] by blast
    ultimately show "\<not> free_next B (b + bsz x)" using y by (auto simp: free_next_def Let_def)
  qed
qed

lemma merge_with_prev:
  assumes "layout_ok segs B" "coalesced B" "B b = Some x" "\<not> bfr x" "free_prev B b" "\<not> free_next B b"
  defines "p \<equiv> b - bpv x"
  defines "B' \<equiv> merge (setfree B p False) p"
  shows "absorb_ok segs B b B' p" "\<not> free_next B' p" "\<not> free_prev B' p"
proof -
  have fs: "\<not> bfs x" using assms(3,5) by (simp add: free_prev_def Let_def)
  obtain w where w: "bpv x \<le> b" "B p = Some w" "bsz w = bpv x" "\<not> bls w"
    using layout_prev [OF assms(1,3) fs] unfolding p_def .
  have fr: "bfr w" using assms(3,5) w(2) by (simp add: free_prev_def Let_def p_def)
  have pb: "p + bsz w = b" "p \<noteq> b" using w layout_blk(6) [OF assms(1) w(2)] by (auto simp: p_def)
  let ?B = "setfree B p False" and ?w = "w\<lparr>bfr := False\<rparr>"
  have lay: "layout_ok segs ?B" using layout_setfree [OF assms(1) w(2)] .
  have at: "?B p = Some ?w" "\<not> bls ?w" "?B (p + bsz ?w) = Some x" "\<not> bfr ?w"
    using w pb assms(3) by (auto simp: setfree_def)
  have "setfree (setfree ?B b True) p True = setfree B b True"
    using w fr pb(2) by (auto simp: setfree_def fun_eq_iff)
  moreover have "others_kept B b B' p" unfolding others_kept_def
  proof (intro allI impI, elim conjE)
    fix c y assume c: "B' c = Some y" "c \<noteq> p"
    then have "?B c = B c" by (simp add: setfree_def)
    then show "c \<noteq> b \<and> (\<exists>z. B c = Some z \<and> bsz z = bsz y \<and> bfr z = bfr y \<and> bfs z = bfs y \<and> bls z = bls y)"
      using merge_others [OF lay at(1,2), of c y] c pb(1) by (simp add: B'_def)
  qed
  ultimately have "absorb_ok segs B b B' p"
    using merge_layout [OF lay at(1,2)] merge_coalesced [OF lay at(1,2,4)] at(4)
      coalesced_setfree_False [OF assms(2) w(2)] merge_frame [OF lay at(1-3)] pb(1)
      merge_apply [OF lay at(1-3), of p]
    by (simp add: absorb_ok_def B'_def)
  moreover have "\<not> free_next B' p"
    unfolding B'_def
  proof (rule merge_no_free_next [OF lay at(1-3)])
    have "b + bsz x \<noteq> p" using pb layout_blk(6) [OF assms(1) w(2)] by auto
    then show "\<not> free_next ?B (p + bsz ?w)"
      using assms(3,6) pb by (simp add: free_next_def Let_def setfree_def)
  qed
  moreover have "\<not> free_prev B' p"
  proof (cases "bfs w")
    case False
    then obtain v where v: "bpv w \<le> p" "B (p - bpv w) = Some v" "bsz v = bpv w" "\<not> bls v"
      using layout_prev [OF assms(1) w(2)] by blast
    then have "\<not> bfr v" using assms(2) w(2) fr unfolding coalesced_def by fastforce
    moreover have "p - bpv w \<noteq> p" "p - bpv w \<noteq> b" "p - bpv w \<noteq> b + bsz x"
      using v pb layout_blk(6) [OF assms(1) v(2)] layout_blk(6) [OF assms(1) w(2)] by auto
    moreover from this have "?B (p - bpv w) = Some v" using v by (simp add: setfree_def)
    ultimately show ?thesis
      using pb by (simp add: B'_def free_prev_def Let_def merge_apply [OF lay at(1-3)])
  qed (simp add: B'_def free_prev_def Let_def merge_apply [OF lay at(1-3)])
  ultimately show "absorb_ok segs B b B' p" "\<not> free_next B' p" "\<not> free_prev B' p" by blast+
qed

text \<open>Fixing \<open>prevSize\<close> once at the end is as good as after each merge.\<close>

lemma fixprev_id:
  assumes "layout_ok segs B" "B b = Some x"
  shows "fixprev B b = B"
proof (cases "bls x")
  case False
  then obtain y where "B (b + bsz x) = Some y" "bpv y = bsz x" using layout_next [OF assms] by blast
  then show ?thesis using assms(2) by (auto simp: fixprev_def Let_def)
qed (simp add: fixprev_def Let_def assms(2))

lemma fixprev_late:
  assumes "layout_ok segs B" "B b = Some x" "\<not> bls x" "B p = Some w" "\<not> bls w" "p + bsz w = b"
  shows "fixprev (absorb (setfree (absorb B b) p False) p) p = merge (setfree (merge B b) p False) p"
proof -
  obtain y where y: "B (b + bsz x) = Some y" using layout_next [OF assms(1-3)] by blast
  have pos: "48 \<le> bsz x" "48 \<le> bsz y" "48 \<le> bsz w"
    using layout_blk(6) [OF assms(1)] assms(2,4) y by auto
  show ?thesis
    using pos assms(2-6) y unfolding merge_def
    by (auto simp: fun_eq_iff absorb_def fixprev_def setfree_def Let_def add.assoc)
qed

text \<open>Merging with the next block does not change what is in front.\<close>

lemma merge_front:
  assumes "layout_ok segs B" "B b = Some x" "\<not> bls x" "B (b + bsz x) = Some y"
  shows "free_prev (merge B b) b = free_prev B b" "free_prev (absorb B b) b = free_prev B b"
proof -
  have pos: "48 \<le> bsz x" using layout_blk(6) [OF assms(1,2)] .
  have m: "merge B b b = Some (x\<lparr>bsz := bsz x + bsz y, bls := bls y\<rparr>)"
    "absorb B b b = Some (x\<lparr>bsz := bsz x + bsz y, bls := bls y\<rparr>)"
    by (simp_all add: merge_apply [OF assms] absorb_def Let_def assms(2,4))
  have "merge B b (b - bpv x) = B (b - bpv x)" "absorb B b (b - bpv x) = B (b - bpv x)" if fs: "\<not> bfs x"
  proof -
    obtain w where w: "bpv x \<le> b" "B (b - bpv x) = Some w" "bsz w = bpv x"
      using layout_prev [OF assms(1,2) fs] by blast
    then have "b - bpv x < b" using layout_blk(6) [OF assms(1) w(2)] by simp
    then show "merge B b (b - bpv x) = B (b - bpv x)" "absorb B b (b - bpv x) = B (b - bpv x)"
      by (auto simp: merge_apply [OF assms] absorb_def Let_def assms(2,4))
  qed
  then show "free_prev (merge B b) b = free_prev B b" "free_prev (absorb B b) b = free_prev B b"
    using m assms(2) by (auto simp: free_prev_def Let_def)
qed

lemma coalesce_as_merges:
  assumes "layout_ok segs B" "B b = Some x" "coalesce B b = (p, B')"
  defines "B1 \<equiv> if free_next B b then merge B b else B"
  shows "if free_prev B b then p = b - bpv x \<and> B' = merge (setfree B1 p False) p else p = b \<and> B' = B1"
    "free_prev B1 b = free_prev B b" "bpv (the (B1 b)) = bpv x"
proof -
  have next': "\<not> bls x \<and> (\<exists>y. B (b + bsz x) = Some y)" if "free_next B b"
    using that assms(2) layout_next [OF assms(1,2)] by (fastforce simp: free_next_def Let_def)
  show front: "free_prev B1 b = free_prev B b"
    using next' merge_front [OF assms(1,2)] by (auto simp: B1_def)
  show "bpv (the (B1 b)) = bpv x"
    using next' merge_apply [OF assms(1,2), of _ b] assms(2) by (auto simp: B1_def)
  have join: "free_prev (join_next B b) b = free_prev B b" "bpv (the (join_next B b b)) = bpv x"
    using next' merge_front [OF assms(1,2)] assms(2) by (auto simp: join_next_def absorb_def Let_def)
  show "if free_prev B b then p = b - bpv x \<and> B' = merge (setfree B1 p False) p else p = b \<and> B' = B1"
  proof (cases "free_prev B b")
    case True
    then have fs: "\<not> bfs x" using assms(2) by (simp add: free_prev_def Let_def)
    obtain w where w: "bpv x \<le> b" "B (b - bpv x) = Some w" "bsz w = bpv x" "\<not> bls w"
      using layout_prev [OF assms(1,2) fs] .
    show ?thesis
    proof (cases "free_next B b")
      case F: True
      then show ?thesis
        using assms(3) True join next' w fixprev_late [OF assms(1,2) _ w(2,4)]
        by (auto simp: coalesce_def join_prev_def Let_def B1_def join_next_def)
    next
      case False
      then show ?thesis
        using assms(3) True join by (auto simp: coalesce_def join_prev_def Let_def B1_def join_next_def merge_def)
    qed
  next
    case False
    then show ?thesis
      using assms(3) join fixprev_id [OF assms(1,2)]
      by (auto simp: coalesce_def join_prev_def B1_def join_next_def merge_def)
  qed
qed

lemma coalesce_ok:
  assumes "layout_ok segs B" "coalesced B" "B b = Some x" "\<not> bfr x" "coalesce B b = (p, B')"
  shows "absorb_ok segs B b B' p" "coalesced (setfree B' p True)"
proof -
  define B1 where "B1 = (if free_next B b then merge B b else B)"
  note steps = coalesce_as_merges [OF assms(1,3,5), folded B1_def]
  have one: "absorb_ok segs B b B1 b" "\<not> free_next B1 b"
    using merge_with_next [OF assms(1-4)] assms(1-4) by (auto simp: B1_def absorb_ok_def others_kept_def)
  then obtain x1 where lay: "layout_ok segs B1" "coalesced B1" and x1: "B1 b = Some x1" "\<not> bfr x1"
    by (auto simp: absorb_ok_def)
  have "absorb_ok segs B1 b B' p \<and> \<not> free_next B' p \<and> \<not> free_prev B' p"
  proof (cases "free_prev B b")
    case True
    then show ?thesis
      using merge_with_prev [OF lay x1 _ one(2)] steps x1 by simp
  next
    case False
    then show ?thesis using steps one lay x1 by (simp add: absorb_ok_def others_kept_def)
  qed
  then show "absorb_ok segs B b B' p" using absorb_ok_trans [OF one(1)] by blast
  then show "coalesced (setfree B' p True)"
    using \<open>absorb_ok segs B1 b B' p \<and> \<not> free_next B' p \<and> \<not> free_prev B' p\<close> coalesced_setfree_True
    unfolding absorb_ok_def by blast
qed

section \<open>Carving\<close>

lemma take_free:
  assumes "layout_ok segs B" "coalesced B" "B b = Some x" "bfr x"
  defines "B' \<equiv> setfree B b False"
  shows "layout_ok segs B'" "coalesced B'" "allocs B' = insert (b, bsz x) (allocs B)" "own B' \<subseteq> own B"
proof -
  show "layout_ok segs B'" "coalesced B'"
    using layout_setfree [OF assms(1,3)] coalesced_setfree_False [OF assms(2,3)] by (auto simp: B'_def)
  show "allocs B' = insert (b, bsz x) (allocs B)"
    using assms(3,4) by (auto simp: B'_def allocs_def setfree_def split: if_splits)
  have "16 \<le> bsz x" using layout_blk(6) [OF assms(1,3)] by simp
  then show "own B' \<subseteq> own B"
    using assms(3,4) by (auto simp: B'_def own_def setfree_def split: if_splits) force+
qed

text \<open>A free block that is split into a used and a free part.\<close>

lemma split_apply:
  assumes "B b = Some x" "48 \<le> n" "n + 48 \<le> bsz x"
  shows "split B b n d = (if d = b then Some (x\<lparr>bsz := n, bls := False\<rparr>)
    else if d = b + n then Some \<lparr>bsz = bsz x - n, bpv = n, bfr = False, bfs = False, bls = bls x\<rparr>
    else if d = b + bsz x \<and> \<not> bls x then Some ((the (B d))\<lparr>bpv := bsz x - n\<rparr>) else B d)"
  using assms(2,3) by (auto simp: split_def fixprev_def Let_def assms(1))

lemma carve_split:
  assumes "layout_ok segs B" "coalesced B" "B b = Some x" "bfr x" "16 dvd n" "48 \<le> n" "n + 48 \<le> bsz x"
  defines "B' \<equiv> setfree (split (setfree B b False) b n) (b + n) True"
  shows "layout_ok segs B'" "coalesced B'" "allocs B' = insert (b, n) (allocs B)" "own B' \<subseteq> own B"
proof -
  let ?r = "\<lparr>bsz = bsz x - n, bpv = n, bfr = True, bfs = False, bls = bls x\<rparr>"
  have at: "setfree B b False b = Some (x\<lparr>bfr := False\<rparr>)" using assms(3) by (simp add: setfree_def)
  have in_split: "split (setfree B b False) b n (b + n) \<noteq> None"
    using split_apply [where B = "setfree B b False", OF at, of n] assms(6,7) by simp
  then show lay: "layout_ok segs B'"
    using layout_setfree [OF split_layout [where B = "setfree B b False", OF layout_setfree [OF assms(1,3)] at assms(5,6)]] assms(7)
    by (auto simp: B'_def)
  have S: "B' d = (if d = b then Some (x\<lparr>bfr := False, bsz := n, bls := False\<rparr>) else if d = b + n then Some ?r
      else if d = b + bsz x \<and> \<not> bls x then Some ((the (B d))\<lparr>bpv := bsz x - n\<rparr>) else B d)" for d
    using split_apply [where B = "setfree B b False", OF at, of n] assms(3,6,7) by (auto simp: B'_def setfree_def)
  have e: "\<exists>z. B (b + bsz x) = Some z \<and> \<not> bfr z" if "\<not> bls x"
    using layout_next [OF assms(1,3) that] assms(2-4) that unfolding coalesced_def by metis
  have old: "\<exists>w. B d = Some w \<and> bsz w = bsz z \<and> bfr w = bfr z \<and> bls w = bls z"
    if "B' d = Some z" "d \<noteq> b" "d \<noteq> b + n" for d z
    using that e by (auto simp: S split: if_splits)
  have new: "\<exists>z. B' d = Some z \<and> bsz w = bsz z \<and> bfr w = bfr z" if "B d = Some w" "d \<noteq> b" for d w
  proof -
    have "d \<noteq> b + n" using layout_disjoint [OF assms(1) that(1) assms(3) that(2)]
      layout_blk(6) [OF assms(1) that(1)] assms(6,7) by auto
    then show ?thesis using that by (auto simp: S)
  qed
  have "\<not> (bfr z \<and> bfr v)" if d: "B' d = Some z" "\<not> bls z" "B' (d + bsz z) = Some v" for d z v
  proof -
    consider "d = b" | "d = b + n" | "d \<noteq> b" "d \<noteq> b + n" by blast
    then show ?thesis
    proof cases
      case 1
      then show ?thesis using d(1) by (auto simp: S)
    next
      case 2
      then show ?thesis using d e assms(6,7) by (auto simp: S split: if_splits)
    next
      case 3
      then obtain w where w: "B d = Some w" "bsz w = bsz z" "bfr w = bfr z" "bls w = bls z" using old [OF d(1)] by blast
      have far: "d + bsz z \<noteq> b + n"
        using layout_disjoint [OF assms(1) w(1) assms(3)] 3 w(2) assms(6,7) by auto
      show ?thesis
      proof (cases "d + bsz z = b")
        case True
        then show ?thesis using d(3) by (auto simp: S)
      next
        case False
        then show ?thesis using old [OF d(3) False far] w d(2) assms(2) unfolding coalesced_def by metis
      qed
    qed
  qed
  then show "coalesced B'" unfolding coalesced_def by blast
  have "(d, k) \<in> allocs B' \<longleftrightarrow> (d, k) \<in> insert (b, n) (allocs B)" for d k
  proof (cases "d = b \<or> d = b + n")
    case True
    then show ?thesis
      using assms(3,4,6) new [of "b + n"] by (auto simp: allocs_def S)
  next
    case False
    then show ?thesis using old [of d] new [of d] by (auto simp: allocs_def)
  qed
  then show "allocs B' = insert (b, n) (allocs B)" by auto
  show "own B' \<subseteq> own B"
  proof
    fix v assume "v \<in> own B'"
    then obtain d z where d: "B' d = Some z" "d \<le> v" "v < d + (if bfr z then bsz z else 16)" unfolding own_def by blast
    show "v \<in> own B"
    proof (cases "d = b \<or> d = b + n")
      case True
      then have "b \<le> v" "v < b + bsz x" using d assms(6,7) by (auto simp: S split: if_splits)
      then show ?thesis using assms(3,4) by (intro ownI [of B b x]) auto
    next
      case False
      then obtain w where "B d = Some w" "bsz w = bsz z" "bfr w = bfr z" using old [OF d(1)] by blast
      then show ?thesis using d by (intro ownI [of B d w]) auto
    qed
  qed
qed

section \<open>Segments\<close>

text \<open>A fresh segment is one block.\<close>

lemma add_segment:
  assumes "layout_ok segs B" "16 dvd p" "0 < p" "sized n" "48 \<le> n" "p + n \<le> 2 ^ 56"
    "\<And>r. r \<in> segs \<Longrightarrow> apart (p, n) r"
  defines "B' \<equiv> B(p \<mapsto> \<lparr>bsz = n, bpv = 0, bfr = False, bfs = True, bls = True\<rparr>)"
  shows "layout_ok (insert (p, n) segs) B'" "B p = None" "p \<notin> dom B"
proof -
  have away: "b + bsz x \<le> p \<or> p + n \<le> b" if b: "B b = Some x" for b x
  proof -
    obtain s k where "(s, k) \<in> segs" "s \<le> b" "b + bsz x \<le> s + k"
      using layout_blk(4) [OF assms(1) b] unfolding inside_def by blast
    then show ?thesis using assms(7) [of "(s, k)"] by auto
  qed
  have pos: "48 \<le> bsz x" if "B b = Some x" for b x using layout_blk(6) [OF assms(1) that] .
  show none: "B p = None" "p \<notin> dom B" using away [of p] pos [of p] assms(5) by (cases "B p"; fastforce)+
  show "layout_ok (insert (p, n) segs) B'"
  proof (rule layout_okI)
    fix b x assume b: "B' b = Some x"
    show "blk_ok x \<and> 16 dvd b \<and> 0 < b \<and> inside (insert (p, n) segs) b x"
    proof (cases "b = p")
      case True
      then show ?thesis using b assms(2-5) by (auto simp: B'_def blk_ok_def inside_def size_max_def)
    next
      case False
      then have "B b = Some x" using b by (simp add: B'_def)
      from layout_blk [OF assms(1) this] show ?thesis unfolding inside_def by blast
    qed
    show "b + bsz x \<le> c \<or> c + bsz y \<le> b" if "B' c = Some y" "b \<noteq> c" for c y
      using b that layout_disjoint [OF assms(1), of b x c y] away [of b] away [of c]
      by (auto simp: B'_def split: if_splits)
    show "\<exists>y. B' (b + bsz x) = Some y \<and> \<not> bfs y \<and> bpv y = bsz x" if "\<not> bls x"
    proof -
      have "B b = Some x" using b that by (auto simp: B'_def split: if_splits)
      from layout_next [OF assms(1) this that] show ?thesis by (rule) (use none(1) in \<open>auto simp: B'_def\<close>)
    qed
    show "bpv x \<le> b \<and> (\<exists>y. B' (b - bpv x) = Some y \<and> bsz y = bpv x \<and> \<not> bls y)" if "\<not> bfs x"
    proof -
      have "B b = Some x" using b that by (auto simp: B'_def split: if_splits)
      from layout_prev [OF assms(1) this that] show ?thesis by (rule) (use none(1) in \<open>auto simp: B'_def\<close>)
    qed
  next
    show "\<exists>x. B' s = Some x" if "(s, k) \<in> insert (p, n) segs" for s k
      using that layout_segs(1) [OF assms(1)] by (auto simp: B'_def)
    show "0 < k \<and> s + k \<le> 2 ^ 56" if "(s, k) \<in> insert (p, n) segs" for s k
      using that layout_segs(2) [OF assms(1)] assms(5,6) by auto
    show "apart r r'" if "r \<in> insert (p, n) segs" "r' \<in> insert (p, n) segs" "r \<noteq> r'" for r r'
      using that layout_segs(3) [OF assms(1), of r r'] assms(7) apart_sym [of r r'] by blast
  qed
qed

text \<open>A block that is first and last is a whole segment, and can go with it.\<close>

lemma whole_segment:
  assumes "layout_ok segs B" "B b = Some x" "bfs x" "bls x"
  shows "(b, bsz x) \<in> segs"
  using layout_blk(4) [OF assms(1,2)] assms(3,4) unfolding inside_def by auto

lemma drop_segment:
  assumes "layout_ok segs B" "B b = Some x" "bfs x" "bls x"
  shows "layout_ok (segs - {(b, bsz x)}) (B(b := None))"
proof (rule layout_okI)
  let ?B = "B(b := None)"
  fix c y assume c: "?B c = Some y"
  then have cB: "B c = Some y" "c \<noteq> b" by (auto split: if_splits)
  have far: "b + bsz x \<le> c \<or> c + bsz y \<le> b" using layout_disjoint [OF assms(1,2) cB(1)] cB(2) by auto
  have pos: "48 \<le> bsz y" "48 \<le> bsz x" using layout_blk(6) [OF assms(1)] cB assms(2) by auto
  show "blk_ok y \<and> 16 dvd c \<and> 0 < c \<and> inside (segs - {(b, bsz x)}) c y"
  proof -
    obtain s n where s: "(s, n) \<in> segs" "s \<le> c" "c + bsz y \<le> s + n" "bfs y \<longleftrightarrow> c = s" "bls y \<longleftrightarrow> c + bsz y = s + n"
      using layout_blk(4) [OF assms(1) cB(1)] unfolding inside_def by blast
    then have "(s, n) \<noteq> (b, bsz x)" using far pos by auto
    then show ?thesis using s layout_blk [OF assms(1) cB(1)] unfolding inside_def by blast
  qed
  show "c + bsz y \<le> d \<or> d + bsz z \<le> c" if "?B d = Some z" "c \<noteq> d" for d z
    using layout_disjoint [OF assms(1) cB(1) _ that(2)] that(1) by (auto split: if_splits)
  show "\<exists>z. ?B (c + bsz y) = Some z \<and> \<not> bfs z \<and> bpv z = bsz y" if "\<not> bls y"
    by (rule layout_next [OF assms(1) cB(1) that]) (use assms(2,3) in auto)
  show "bpv y \<le> c \<and> (\<exists>z. ?B (c - bpv y) = Some z \<and> bsz z = bpv y \<and> \<not> bls z)" if "\<not> bfs y"
    by (rule layout_prev [OF assms(1) cB(1) that]) (use assms(2,4) in auto)
next
  show "\<exists>z. (B(b := None)) s = Some z" if s: "(s, n) \<in> segs - {(b, bsz x)}" for s n
  proof -
    have "s \<noteq> b"
      using s layout_segs(3) [OF assms(1) _ whole_segment [OF assms], of "(s, n)"]
        layout_segs(2) [OF assms(1), of s n] layout_blk(6) [OF assms(1,2)] by auto
    then show ?thesis using layout_segs(1) [OF assms(1)] s by auto
  qed
qed (use layout_segs [OF assms(1)] in blast)+

end
