(* ===== verification/SegmentOps.thy ===== *)
theory SegmentOps
  imports SegmentLayout
begin

text \<open>
  The operations of the segment heap on represented heaps: coalescing and splitting in memory are
  the abstract merges and splits, and touch only headers and free blocks.
\<close>

lemma conc_reads:
  assumes "conc m heads B" "B b = Some x"
  shows "mb_size m b = bsz x" "mb_isFree m b = bfr x" "mb_isFirst m b = bfs x" "mb_isLast m b = bls x"
    "mb_prevSize m b = bpv x" "nextBlock m b = b + bsz x" "prevBlock m b = b - bpv x"
  using conc_blk [OF assms] by (simp_all add: nextBlock_def prevBlock_def accessors)

lemma conc_setSize:
  assumes "conc m heads B" "B b = Some x" "\<not> bfr x" "sized n" "48 \<le> n"
  shows "conc (mb_setSize b n m) heads (B(b \<mapsto> x\<lparr>bsz := n\<rparr>))"
proof -
  have "blk_ok (x\<lparr>bsz := n\<rparr>)" using conc_blk(1) [OF assms(1,2)] assms(4,5) by (simp add: blk_ok_def)
  then show ?thesis
    using conc_retag [OF assms(1-3), of "x\<lparr>bsz := n\<rparr>"] conc_blk [OF assms(1,2)] assms(3,4) by (simp add: accessors)
qed

lemma conc_setLast:
  assumes "conc m heads B" "B b = Some x" "\<not> bfr x"
  shows "conc (mb_setFlag b kLastFlag v m) heads (B(b \<mapsto> x\<lparr>bls := v\<rparr>))"
proof -
  have "blk_ok (x\<lparr>bls := v\<rparr>)" using conc_blk(1) [OF assms(1,2)] by (simp add: blk_ok_def)
  then show ?thesis
    using conc_retag [OF assms, of "x\<lparr>bls := v\<rparr>"] conc_blk [OF assms(1,2)] assms(3) by (simp add: accessors)
qed

lemma conc_setPrevSize:
  assumes "conc m heads B" "B b = Some x" "v < size_max"
  shows "conc (mb_setPrevSize b v m) heads (B(b \<mapsto> x\<lparr>bpv := v\<rparr>))"
  using conc_setPrev [OF assms] by (simp add: accessors)

lemma header_writes:
  assumes "z < b \<or> b + 16 \<le> z"
  shows "mb_setSize b n m z = m z" "mb_setFlag b k v m z = m z" "mb_setPrevSize b n m z = m z" "write64 b n m z = m z"
  using assms by (auto simp: mb_setSize_def mb_setFlag_def mb_setPrevSize_def write_le_def)

lemma header_in_own:
  assumes "B b = Some x" "48 \<le> bsz x" "z \<notin> own B"
  shows "z < b \<or> b + 16 \<le> z"
proof (rule ccontr)
  assume "\<not> (z < b \<or> b + 16 \<le> z)"
  then have "z \<in> own B" using assms(1,2) by (intro ownI [of B b x]) auto
  then show False using assms(3) by blast
qed

section \<open>Coalescing in memory\<close>

lemma coalesceNext_conc:
  assumes "conc m heads B" "layout_ok segs B" "B b = Some x" "\<not> bfr x" "coalesceNext b (m, heads) = (m', heads')"
  shows "conc m' heads' (join_next B b)" "\<And>z. z \<notin> own B \<Longrightarrow> m' z = m z"
proof -
  note rd = conc_reads [OF assms(1,3)]
  have "conc m' heads' (join_next B b) \<and> (\<forall>z. z \<notin> own B \<longrightarrow> m' z = m z)"
  proof (cases "free_next B b")
    case True
    then have ls: "\<not> bls x" using assms(3) by (simp add: free_next_def Let_def)
    let ?c = "b + bsz x"
    obtain y where y: "B ?c = Some y" using layout_next [OF assms(2,3) ls] by blast
    have fr: "bfr y" using True assms(3) y by (simp add: free_next_def Let_def)
    have bc: "?c \<noteq> b" "48 \<le> bsz x" using layout_blk(6) [OF assms(2,3)] by auto
    obtain m1 h1 where r: "removeFree ?c (m, heads) = (m1, h1)" by (cases "removeFree ?c (m, heads)")
    note c1 = removeFree_conc [OF assms(1) y fr r]
    have at1: "setfree B ?c False b = Some x" "setfree B ?c False ?c = Some (y\<lparr>bfr := False\<rparr>)"
      using assms(3) y bc by (auto simp: setfree_def)
    have s: "sized (bsz x + bsz y)" "48 \<le> bsz x + bsz y"
      using layout_pair(1) [OF assms(2,3) ls y] by (auto simp: blk_ok_def)
    then have add: "size_add (mb_size m1 b) (mb_size m1 ?c) = bsz x + bsz y"
      using conc_reads(1) [OF c1(1) at1(1)] conc_reads(1) [OF c1(1) at1(2)] by (simp add: sized_def)
    define m2 where "m2 = mb_setSize b (bsz x + bsz y) m1"
    have c2: "conc m2 h1 ((setfree B ?c False)(b \<mapsto> x\<lparr>bsz := bsz x + bsz y\<rparr>))"
      unfolding m2_def by (rule conc_setSize [OF c1(1) at1(1) assms(4) s])
    then have last: "mb_isLast m2 ?c = bls y" using conc_reads(4) [OF c2, of ?c] at1(2) bc by simp
    have run: "m' = mb_setFlag b kLastFlag (bls y) m2" "heads' = h1"
      using assms(5) ls fr rd(4,6) conc_reads(2) [OF assms(1) y] r add last
      by (simp_all add: coalesceNext_def Let_def m2_def)
    have c3: "conc m' heads' ((setfree B ?c False)(b \<mapsto> x\<lparr>bsz := bsz x + bsz y, bls := bls y\<rparr>))"
      using conc_setLast [OF c2, of b _ "bls y"] assms(4) run by simp
    have "conc m' heads' (((setfree B ?c False)(b \<mapsto> x\<lparr>bsz := bsz x + bsz y, bls := bls y\<rparr>))(?c := None))"
      by (rule conc_drop [OF c3, of _ "y\<lparr>bfr := False\<rparr>"]) (use at1(2) bc in auto)
    moreover have "((setfree B ?c False)(b \<mapsto> x\<lparr>bsz := bsz x + bsz y, bls := bls y\<rparr>))(?c := None) = absorb B b"
      using assms(3) y bc by (auto simp: absorb_def Let_def setfree_def fun_eq_iff)
    moreover have "m' z = m z" if "z \<notin> own B" for z
      using c1(2) [OF that] header_in_own [OF assms(3) bc(2) that] run(1) by (simp add: m2_def header_writes)
    ultimately show ?thesis using True by (simp add: join_next_def)
  next
    case False
    have "bls x \<or> \<not> mb_isFree m (b + bsz x)"
    proof (cases "bls x")
      case ls: False
      obtain y where y: "B (b + bsz x) = Some y" using layout_next [OF assms(2,3) ls] by blast
      then show ?thesis using False assms(3) ls conc_reads(2) [OF assms(1) y] by (simp add: free_next_def Let_def)
    qed simp
    then show ?thesis
      using False assms(1,5) rd by (auto simp: coalesceNext_def Let_def join_next_def)
  qed
  then show "conc m' heads' (join_next B b)" "\<And>z. z \<notin> own B \<Longrightarrow> m' z = m z" by blast+
qed

lemma coalescePrev_conc:
  assumes "conc m heads B" "B b = Some x" "\<not> bfr x" "coalescePrev b (m, heads) = (p, m', heads')"
    "\<not> bfs x \<Longrightarrow> \<exists>w. B (b - bpv x) = Some w \<and> b - bpv x + bsz w = b \<and> sized (bsz w + bsz x)"
  shows "\<exists>B'. join_prev B b = (p, B') \<and> conc m' heads' B'" "\<And>z. z \<notin> own B \<Longrightarrow> m' z = m z"
proof -
  note rd = conc_reads [OF assms(1,2)]
  have "(\<exists>B'. join_prev B b = (p, B') \<and> conc m' heads' B') \<and> (\<forall>z. z \<notin> own B \<longrightarrow> m' z = m z)"
  proof (cases "free_prev B b")
    case True
    then have fs: "\<not> bfs x" using assms(2) by (simp add: free_prev_def Let_def)
    let ?p = "b - bpv x"
    obtain w where w: "B ?p = Some w" "?p + bsz w = b" "sized (bsz w + bsz x)" using assms(5) [OF fs] by blast
    have fr: "bfr w" using True assms(2) w by (simp add: free_prev_def Let_def)
    have pos: "48 \<le> bsz w" "48 \<le> bsz x"
      using conc_blk(1) [OF assms(1)] assms(2) w(1) by (auto simp: blk_ok_def)
    then have bp: "?p \<noteq> b" "48 \<le> bsz w + bsz x" using w(2) by auto
    obtain m1 h1 where r: "removeFree ?p (m, heads) = (m1, h1)" by (cases "removeFree ?p (m, heads)")
    note c1 = removeFree_conc [OF assms(1) w(1) fr r]
    let ?w = "w\<lparr>bfr := False\<rparr>" and ?B = "setfree B ?p False"
    have at1: "?B b = Some x" "?B ?p = Some ?w" using assms(2) w bp by (auto simp: setfree_def)
    have add: "size_add (mb_size m1 ?p) (mb_size m1 b) = bsz w + bsz x"
      using conc_reads(1) [OF c1(1) at1(1)] conc_reads(1) [OF c1(1) at1(2)] w(3) by (simp add: sized_def)
    define m2 where "m2 = mb_setSize ?p (bsz w + bsz x) m1"
    have c2: "conc m2 h1 (?B(?p \<mapsto> ?w\<lparr>bsz := bsz w + bsz x\<rparr>))"
      unfolding m2_def by (rule conc_setSize [OF c1(1) at1(2) _ w(3) bp(2)]) simp
    then have last: "mb_isLast m2 b = bls x" using conc_reads(4) [OF c2, of b] at1(1) bp by simp
    have run: "p = ?p" "m' = mb_setFlag ?p kLastFlag (bls x) m2" "heads' = h1"
      using assms(4) fs fr rd(3,7) conc_reads(2) [OF assms(1) w(1)] r add last
      by (auto simp: coalescePrev_def Let_def m2_def)
    have c3: "conc m' heads' (?B(?p \<mapsto> ?w\<lparr>bsz := bsz w + bsz x, bls := bls x\<rparr>))"
      using conc_setLast [OF c2, of ?p _ "bls x"] run by simp
    have "conc m' heads' ((?B(?p \<mapsto> ?w\<lparr>bsz := bsz w + bsz x, bls := bls x\<rparr>))(b := None))"
      by (rule conc_drop [OF c3, of _ x]) (use at1(1) bp assms(3) in auto)
    moreover have "(?B(?p \<mapsto> ?w\<lparr>bsz := bsz w + bsz x, bls := bls x\<rparr>))(b := None) = absorb ?B ?p"
      using at1 w(2) bp(1) by (auto simp: absorb_def Let_def fun_eq_iff)
    moreover have "m' z = m z" if "z \<notin> own B" for z
      using c1(2) [OF that] header_in_own [OF w(1) pos(1) that] run(2) by (simp add: m2_def header_writes)
    ultimately show ?thesis using True run(1) assms(2) by (simp add: join_prev_def Let_def)
  next
    case False
    have "bfs x \<or> \<not> mb_isFree m (b - bpv x)"
    proof (cases "bfs x")
      case fs: False
      obtain y where y: "B (b - bpv x) = Some y" using assms(5) [OF fs] by blast
      then show ?thesis using False assms(2) fs conc_reads(2) [OF assms(1) y] by (simp add: free_prev_def Let_def)
    qed simp
    then show ?thesis
      using False assms(1,4) rd by (auto simp: coalescePrev_def Let_def join_prev_def)
  qed
  then show "\<exists>B'. join_prev B b = (p, B') \<and> conc m' heads' B'" "\<And>z. z \<notin> own B \<Longrightarrow> m' z = m z" by blast+
qed

lemma join_next_facts:
  assumes "layout_ok segs B" "B b = Some x" "\<not> bfr x"
  obtains x1 where "join_next B b b = Some x1" "\<not> bfr x1" "bfs x1 = bfs x" "bpv x1 = bpv x"
    "\<not> bls x1 \<longrightarrow> (\<exists>z. join_next B b (b + bsz x1) = Some z \<and> B (b + bsz x1) = Some z)"
    "b + bsz x1 \<le> 2 ^ 56" "16 dvd bsz x1" "\<forall>d < b. join_next B b d = B d"
    "own (join_next B b) \<subseteq> own B" "48 \<le> bsz x1"
proof (cases "free_next B b")
  case True
  then have ls: "\<not> bls x" using assms(2) by (simp add: free_next_def Let_def)
  obtain y where y: "B (b + bsz x) = Some y" using layout_next [OF assms(1,2) ls] by blast
  note bx = layout_blk [OF assms(1,2)] and by' = layout_blk [OF assms(1) y]
  have A: "join_next B b d = (if d = b then Some (x\<lparr>bsz := bsz x + bsz y, bls := bls y\<rparr>)
      else if d = b + bsz x then None else B d)" for d
    using True assms(2) y bx(6) by (simp add: join_next_def absorb_def Let_def)
  show thesis
  proof (rule that)
    show "join_next B b b = Some (x\<lparr>bsz := bsz x + bsz y, bls := bls y\<rparr>)" by (simp add: A)
    have "\<not> bls y \<longrightarrow> (\<exists>z. B (b + bsz x + bsz y) = Some z)" using layout_next [OF assms(1) y] by metis
    then show "\<not> bls (x\<lparr>bsz := bsz x + bsz y, bls := bls y\<rparr>) \<longrightarrow>
        (\<exists>z. join_next B b (b + bsz (x\<lparr>bsz := bsz x + bsz y, bls := bls y\<rparr>)) = Some z \<and>
          B (b + bsz (x\<lparr>bsz := bsz x + bsz y, bls := bls y\<rparr>)) = Some z)"
      using by'(6) bx(6) by (auto simp: A add.assoc)
    show "own (join_next B b) \<subseteq> own B"
      using assms(2,3) unfolding own_def A by (auto split: if_splits)
    show "16 dvd bsz (x\<lparr>bsz := bsz x + bsz y, bls := bls y\<rparr>)" using bx(5) by'(5) by (simp add: sized_def)
  qed (use assms(3) bx by' in \<open>simp_all add: A add.assoc\<close>)
next
  case False
  then have J: "join_next B b = B" by (simp add: join_next_def)
  show thesis
  proof (rule that [of x])
    show "\<not> bls x \<longrightarrow> (\<exists>z. join_next B b (b + bsz x) = Some z \<and> B (b + bsz x) = Some z)"
      using layout_next [OF assms(1,2)] by (metis J)
  qed (use layout_blk [OF assms(1,2)] assms(2,3) in \<open>auto simp: J sized_def\<close>)
qed

lemma coalesce_conc:
  assumes "conc m heads B" "layout_ok segs B" "B b = Some x" "\<not> bfr x"
    "coalescePrev b (coalesceNext b (m, heads)) = (p, m2, heads2)"
  defines "m3 \<equiv> if \<not> mb_isLast m2 p then mb_setPrevSize (nextBlock m2 p) (mb_size m2 p) m2 else m2"
  shows "\<exists>B'. coalesce B b = (p, B') \<and> conc m3 heads2 B'" "\<And>z. z \<notin> own B \<Longrightarrow> m3 z = m z"
proof -
  obtain m1 heads1 where s1: "coalesceNext b (m, heads) = (m1, heads1)" by (cases "coalesceNext b (m, heads)")
  let ?B1 = "join_next B b"
  note c1 = coalesceNext_conc [OF assms(1-4) s1]
  obtain x1 where x1: "?B1 b = Some x1" "\<not> bfr x1" "bfs x1 = bfs x" "bpv x1 = bpv x"
    and nxt: "\<not> bls x1 \<longrightarrow> (\<exists>z. ?B1 (b + bsz x1) = Some z \<and> B (b + bsz x1) = Some z)"
    and sz: "b + bsz x1 \<le> 2 ^ 56" "16 dvd bsz x1"
    and front: "\<forall>d < b. ?B1 d = B d" and own1: "own ?B1 \<subseteq> own B" and pos: "48 \<le> bsz x1"
    using join_next_facts [OF assms(2-4)] .
  have prev: "\<exists>w. ?B1 (b - bpv x1) = Some w \<and> b - bpv x1 + bsz w = b \<and> sized (bsz w + bsz x1)" if fs: "\<not> bfs x1"
  proof -
    obtain w where w: "bpv x \<le> b" "B (b - bpv x) = Some w" "bsz w = bpv x"
      using layout_prev [OF assms(2,3)] fs x1(3) by blast
    then have "b - bpv x < b" using layout_blk(6) [OF assms(2) w(2)] by simp
    then show ?thesis
      using w x1(4) front layout_blk(5) [OF assms(2) w(2)] sz by (auto simp: sized_def size_max_def)
  qed
  have s2: "coalescePrev b (m1, heads1) = (p, m2, heads2)" using assms(5) s1 by simp
  note c2 = coalescePrev_conc [OF c1(1) x1(1,2) s2 prev]
  obtain B2 where B2: "join_prev ?B1 b = (p, B2)" "conc m2 heads2 B2" using c2(1) by blast
  have at: "\<exists>w. B2 p = Some w \<and> p + bsz w = b + bsz x1 \<and> bls w = bls x1 \<and> B2 (b + bsz x1) = ?B1 (b + bsz x1)"
  proof (cases "free_prev ?B1 b")
    case True
    then have "\<not> bfs x1" using x1(1) by (simp add: free_prev_def Let_def)
    then obtain w where w: "?B1 (b - bpv x1) = Some w" "b - bpv x1 + bsz w = b" using prev by blast
    then have "b - bpv x1 \<noteq> b" using conc_blk(1) [OF c1(1) w(1)] by (auto simp: blk_ok_def)
    then show ?thesis using True B2(1) w x1(1) pos
      by (auto simp: join_prev_def Let_def absorb_def setfree_def)
  next
    case False
    then show ?thesis using B2(1) x1(1) by (auto simp: join_prev_def)
  qed
  then obtain w where w: "B2 p = Some w" "p + bsz w = b + bsz x1" "bls w = bls x1"
    and e: "B2 (b + bsz x1) = ?B1 (b + bsz x1)" by blast
  note rd = conc_reads [OF B2(2) w(1)]
  have co: "coalesce B b = (p, fixprev B2 p)" using B2(1) by (simp add: coalesce_def)
  have far: "m2 z = m z" if "z \<notin> own B" for z
    using c1(2) [OF that] c2(2) [of z] own1 that by auto
  show "\<exists>B'. coalesce B b = (p, B') \<and> conc m3 heads2 B'"
  proof (cases "bls w")
    case True
    then show ?thesis using co B2(2) rd w(1) by (simp add: m3_def fixprev_def Let_def)
  next
    case False
    then obtain z where z: "B2 (p + bsz w) = Some z" using nxt w e by auto
    have "bsz w < size_max" using conc_blk(6) [OF B2(2) w(1)] by (simp add: sized_def)
    from conc_setPrevSize [OF B2(2) z this] show ?thesis
      using co False rd w(1) z by (simp add: m3_def fixprev_def Let_def)
  qed
  show "m3 z = m z" if z: "z \<notin> own B" for z
  proof (cases "bls w")
    case True
    then show ?thesis using far [OF z] rd by (simp add: m3_def)
  next
    case False
    then obtain y where y: "B (p + bsz w) = Some y" using nxt w by auto
    show ?thesis using far [OF z] rd header_in_own [OF y layout_blk(6) [OF assms(2) y] z]
      by (simp add: m3_def header_writes)
  qed
qed

section \<open>New headers\<close>

text \<open>Tags written where there was no block: the words at the place, and those of the other blocks.\<close>

lemma sep_refl: "16 dvd r \<Longrightarrow> sep r r"
  by (simp add: sep_def)

lemma size_max_pos [simp]: "0 < size_max"
  by (simp add: size_max_def)

lemma unat_less_size_max [simp]: "unat (w :: 64 word) < size_max"
  using unsigned_less [where 'a = nat, of w] by (simp add: size_max_def)

lemma tag_less [simp]: "tag_setSize v n < size_max" "tag_setFlag k f v < size_max"
  by (simp_all add: tag_setSize_def tag_setFlag_def)

lemma fresh_tag:
  assumes "16 dvd r" "sized s"
  shows "get (mb_setSize r s (write64 r 0 m)) r SZ = enc \<lparr>bsz = s, bpv = v, bfr = False, bfs = False, bls = False\<rparr>"
proof -
  have "tag_setSize 0 s = enc \<lparr>bsz = s, bpv = v, bfr = False, bfs = False, bls = False\<rparr>"
    using tag_setSize_enc [of "\<lparr>bsz = 0, bpv = v, bfr = False, bfs = False, bls = False\<rparr>" s] assms(2)
    by (simp add: sized_def)
  then show ?thesis by (simp add: accessors get_put sep_refl assms(1))
qed

lemma header_gets:
  assumes "16 dvd r"
  shows "get (mb_setFlag r k f m) r SZ = tag_setFlag k f (get m r SZ)"
    "n < size_max \<Longrightarrow> get (mb_setPrevSize r n m) r SZ = get m r SZ"
    "n < size_max \<Longrightarrow> get (mb_setPrevSize r n m) r PV = n"
  by (simp_all add: accessors get_put sep_refl assms)

lemma header_gets_other:
  assumes "sep r c" "c \<noteq> r"
  shows "get (mb_setFlag r k f m) c g = get m c g" "get (mb_setSize r n m) c g = get m c g"
    "n < size_max \<Longrightarrow> get (mb_setPrevSize r n m) c g = get m c g"
    "n < size_max \<Longrightarrow> get (write64 r n m) c g = get m c g"
  using assms by (simp_all add: accessors get_put)

lemma splitBlock_conc:
  assumes "conc m heads B" "layout_ok segs B" "B b = Some x" "\<not> bfr x" "16 dvd n" "48 \<le> n" "n + 48 \<le> bsz x"
    "splitBlock b n (m, heads) = (m', heads')"
    "own (setfree (split B b n) (b + n) True) \<subseteq> own (setfree B b True)"
  shows "conc m' heads' (setfree (split B b n) (b + n) True)" "\<And>z. z \<notin> own (setfree B b True) \<Longrightarrow> m' z = m z"
proof -
  let ?r = "b + n" and ?s = "bsz x - n" and ?S = "split B b n"
  let ?R = "\<lparr>bsz = ?s, bpv = n, bfr = False, bfs = False, bls = bls x\<rparr>"
  note bx = layout_blk [OF assms(2,3)]
  have lay: "layout_ok segs ?S" by (rule split_layout [OF assms(2,3,5-7)])
  note S = split_apply [where B = B, OF assms(3,6,7)]
  have r: "16 dvd ?r" "sized ?s" "48 \<le> ?s" "n < size_max" "sized n"
    using bx assms(5-7) by (auto simp: sized_def)
  have e: "\<exists>z. B (b + bsz x) = Some z" if "\<not> bls x" using layout_next [OF assms(2,3) that] by blast
  have none: "B ?r = None"
    using layout_disjoint [OF assms(2,3), of ?r] layout_blk(6) [OF assms(2), of ?r] assms(6,7)
    by (cases "B ?r") fastforce+
  have "insert ?r (dom B) \<subseteq> dom ?S" using assms(3) by (auto simp: S)
  then have sp: "spread (insert ?r (dom B))" using layout_spread [OF lay] unfolding spread_def by blast
  then have sep: "sep ?r c" if "c \<in> dom B" for c using that unfolding spread_def by blast
  have other: "c \<noteq> ?r" if "c \<in> dom B" for c using that none by auto
  note og = header_gets_other [OF sep other]
  define m1 where "m1 = mb_setSize ?r ?s (write64 ?r 0 m)"
  define m2 where "m2 = mb_setFlag ?r kLastFlag (bls x) m1"
  define m3 where "m3 = mb_setPrevSize ?r n m2"
  have g3: "get m3 c g = get m c g" if "c \<in> dom B" for c g
    using that r by (simp add: m3_def m2_def m1_def og)
  have last1: "mb_isLast m1 b = bls x"
    using og [of b] domI [of B b x] assms(3) conc_reads(4) [OF assms(1,3)]
    by (simp add: m1_def accessors(4))
  have gr: "get m3 ?r SZ = enc ?R" "get m3 ?r PV = bpv ?R"
    using r fresh_tag [OF r(1,2), of m n] tag_setFlags(3) [of "\<lparr>bsz = ?s, bpv = n, bfr = False, bfs = False, bls = False\<rparr>" "bls x"]
    by (simp_all add: m3_def m2_def m1_def header_gets)
  have c3: "conc m3 heads (B(?r \<mapsto> ?R))"
    by (rule conc_add [OF assms(1) none sp _ _ gr g3]) (use r in \<open>auto simp: blk_ok_def\<close>)
  have nb: "?r \<noteq> b" using assms(6) by simp
  define m5 where "m5 = mb_setFlag b kLastFlag False (mb_setSize b n m3)"
  have c5: "conc m5 heads (B(?r \<mapsto> ?R, b \<mapsto> x\<lparr>bsz := n, bls := False\<rparr>))"
    using conc_setLast [OF conc_setSize [OF c3, of b x n], of b _ False] assms(3,4,6) r nb by (simp add: m5_def)
  have at5: "(B(?r \<mapsto> ?R, b \<mapsto> x\<lparr>bsz := n, bls := False\<rparr>)) ?r = Some ?R" using nb by simp
  note rd5 = conc_reads [OF c5 at5]
  have bsz_next: "b + n + bsz ?R = b + bsz x" "bls ?R = bls x" using assms(7) by auto
  define m6 where "m6 = (if \<not> bls x then mb_setPrevSize (b + bsz x) ?s m5 else m5)"
  have c6: "conc m6 heads ?S"
  proof (cases "bls x")
    case True
    then have "?S = B(?r \<mapsto> ?R, b \<mapsto> x\<lparr>bsz := n, bls := False\<rparr>)" using nb by (auto simp: fun_eq_iff S)
    then show ?thesis using c5 True by (simp add: m6_def)
  next
    case False
    then obtain z where z: "B (b + bsz x) = Some z" using e by blast
    have d: "b + bsz x \<noteq> ?r" "b + bsz x \<noteq> b" using assms(6,7) by auto
    have "?s < size_max" using r(2) by (simp add: sized_def)
    then have "conc m6 heads (B(?r \<mapsto> ?R, b \<mapsto> x\<lparr>bsz := n, bls := False\<rparr>, b + bsz x \<mapsto> z\<lparr>bpv := ?s\<rparr>))"
      using conc_setPrevSize [OF c5, of "b + bsz x" z ?s] z d False by (simp add: m6_def)
    moreover have "B(?r \<mapsto> ?R, b \<mapsto> x\<lparr>bsz := n, bls := False\<rparr>, b + bsz x \<mapsto> z\<lparr>bpv := ?s\<rparr>) = ?S"
      using nb d z False by (auto simp: fun_eq_iff S)
    ultimately show ?thesis by simp
  qed
  have sub: "size_sub (mb_size m b) n = ?s"
    using conc_reads(1) [OF assms(1,3)] bx(5) assms(7) by (simp add: sized_def)
  have "splitBlock b n (m, heads) = insertFree ?r (m6, heads)"
  proof -
    have "\<not> ?s < kMinBlockSize" using assms(7) by (simp add: kMinBlockSize_def)
    then show ?thesis
      unfolding splitBlock_def prod.case Let_def sub m6_def
      by (simp only: if_False last1 rd5(4,6) bsz_next flip: m1_def m2_def m3_def m5_def)
  qed
  then have run: "insertFree ?r (m6, heads) = (m', heads')" using assms(8) by simp
  have at6: "?S ?r = Some ?R" using nb by (simp add: S)
  note ins = insertFree_conc [OF c6 at6 _ run]
  show "conc m' heads' (setfree ?S ?r True)" using ins(1) by simp
  show "m' z = m z" if z: "z \<notin> own (setfree B b True)" for z
  proof -
    let ?B = "setfree B b True"
    have "z \<in> own ?B" if "b \<le> z" "z < b + bsz x"
      using that assms(3) by (intro ownI [of ?B b "x\<lparr>bfr := True\<rparr>"]) (auto simp: setfree_def)
    then have out: "z < b \<or> b + bsz x \<le> z" using z by (meson not_le)
    have eb: "bls x \<or> z < b + bsz x \<or> b + bsz x + 16 \<le> z"
    proof (cases "bls x")
      case False
      then obtain y where "B (b + bsz x) = Some y" using e by blast
      moreover have "z \<notin> own B" using z own_setfree_mono [of B b x] assms(3) bx(6) by auto
      ultimately show ?thesis using header_in_own [of B "b + bsz x" y z] layout_blk(6) [OF assms(2)] by blast
    qed simp
    have "m6 z = m z"
      using out eb assms(6,7) by (auto simp: m6_def m5_def m3_def m2_def m1_def header_writes)
    moreover have "m' z = m6 z" using ins(2) [of z] z assms(9) by auto
    ultimately show ?thesis by simp
  qed
qed

text \<open>The header of a fresh segment, put down and linked.\<close>

lemma newSegment_conc:
  assumes "conc m heads B" "layout_ok segs B" "16 dvd p" "0 < p" "sized n" "48 \<le> n" "p + n \<le> 2 ^ 56"
    "\<And>r. r \<in> segs \<Longrightarrow> apart (p, n) r"
  defines "m1 \<equiv> mb_setSize p n (write64 p 0 m)"
  defines "m3 \<equiv> mb_setFlag p kLastFlag True (mb_setFlag p kFirstFlag True m1)"
  defines "m4 \<equiv> mb_setPrevSize p 0 m3"
  defines "B' \<equiv> B(p \<mapsto> \<lparr>bsz = n, bpv = 0, bfr = False, bfs = True, bls = True\<rparr>)"
  shows "conc m4 heads B'" "layout_ok (insert (p, n) segs) B'" "B p = None"
proof -
  note add = add_segment [OF assms(2-8), folded B'_def]
  show "layout_ok (insert (p, n) segs) B'" "B p = None" using add by auto
  have sp: "spread (insert p (dom B))" using layout_spread [OF add(1)] by (simp add: B'_def)
  then have sep: "sep p c" if "c \<in> dom B" for c using that unfolding spread_def by blast
  have other: "c \<noteq> p" if "c \<in> dom B" for c using that add(3) by auto
  note og = header_gets_other [OF sep other]
  have "get m4 c g = get m c g" if "c \<in> dom B" for c g
    using that by (simp add: m4_def m3_def m1_def og)
  moreover have "get m4 p SZ = enc \<lparr>bsz = n, bpv = 0, bfr = False, bfs = True, bls = True\<rparr>" "get m4 p PV = 0"
    using fresh_tag [OF assms(3,5), of m 0] assms(3,5)
      tag_setFlags(2) [of "\<lparr>bsz = n, bpv = 0, bfr = False, bfs = False, bls = False\<rparr>" True]
      tag_setFlags(3) [of "\<lparr>bsz = n, bpv = 0, bfr = False, bfs = True, bls = False\<rparr>" True]
    by (simp_all add: m4_def m3_def m1_def header_gets)
  ultimately show "conc m4 heads B'"
    unfolding B'_def by (intro conc_add [OF assms(1) add(2) sp]) (use assms(5,6) in \<open>auto simp: blk_ok_def\<close>)
qed

end
