(* ===== verification/SegmentTier.thy ===== *)
theory SegmentTier
  imports SegmentOps
begin

text \<open>
  The segment heap as a tier: its invariant, that every operation keeps it, and that it meets the
  contract all tiers share.  The invariant also says that no two free neighbours are left apart
  and that a wholly free segment is kept only when it is the only one.
\<close>

section \<open>The invariant\<close>

definition extents :: "blocks \<Rightarrow> (unit \<times> region) set" where
  "extents B = (\<lambda>(b, n). ((), b + 16, n - 16)) ` allocs B"

definition lonely :: "region set \<Rightarrow> blocks \<Rightarrow> bool" where
  "lonely segs B \<longleftrightarrow> (\<forall>b x. B b = Some x \<and> bfr x \<and> bfs x \<and> bls x \<longrightarrow> segs = {(b, bsz x)})"

definition heap_ok :: "memory \<Rightarrow> SegmentHeap \<Rightarrow> blocks \<Rightarrow> bool" where
  "heap_ok m heap B \<longleftrightarrow> layout_ok (set (segments heap)) B \<and> coalesced B \<and> conc m (bins heap) B \<and>
     distinct (segments heap) \<and> (\<forall>(s, n) \<in> set (segments heap). kSegmentSize \<le> n)"

definition seg_inv :: "os \<Rightarrow> machine \<Rightarrow> SegmentHeap \<Rightarrow> (unit \<times> region) set \<Rightarrow> bool" where
  "seg_inv os M heap R \<longleftrightarrow> os_ok os \<and> machine_ok M \<and> set (segments heap) \<subseteq> set (mapped M) \<and>
     (\<exists>B. heap_ok (mem M) heap B \<and> lonely (set (segments heap)) B \<and> R = extents B)"

lemma heap_okD:
  assumes "heap_ok m heap B"
  shows "layout_ok (set (segments heap)) B" "coalesced B" "conc m (bins heap) B" "distinct (segments heap)"
    "(s, n) \<in> set (segments heap) \<Longrightarrow> kSegmentSize \<le> n"
  using assms by (auto simp: heap_ok_def)

lemma extentsE:
  assumes "(k, p, len) \<in> extents B"
  obtains b x where "B b = Some x" "\<not> bfr x" "p = b + 16" "len = bsz x - 16"
  using assms by (auto simp: extents_def allocs_def)

lemma extentsI: "B b = Some x \<Longrightarrow> \<not> bfr x \<Longrightarrow> ((), b + 16, bsz x - 16) \<in> extents B"
  by (force simp: extents_def allocs_def)

text \<open>The heap's own bytes are inside its segments and outside what it has handed out.\<close>

lemma own_outside:
  assumes "layout_ok segs B" "z \<in> own B"
  shows "z \<in> cells segs - cells (snd ` extents B)"
proof -
  obtain b x where b: "B b = Some x" "b \<le> z" "z < b + (if bfr x then bsz x else 16)"
    using assms(2) unfolding own_def by blast
  note bx = layout_blk [OF assms(1) b(1)]
  have zx: "z < b + bsz x" using b(3) bx(6) by (auto split: if_splits)
  obtain s n where "(s, n) \<in> segs" "s \<le> b" "b + bsz x \<le> s + n" using bx(4) unfolding inside_def by blast
  then have "z \<in> cells segs" using b(2) zx by (intro cellsI [of s n]) auto
  moreover have "z \<notin> cells (snd ` extents B)"
  proof
    assume "z \<in> cells (snd ` extents B)"
    then obtain c y where c: "B c = Some y" "\<not> bfr y" "c + 16 \<le> z" "z < c + 16 + (bsz y - 16)"
      by (auto simp: cells_iff extents_def allocs_def)
    show False
    proof (cases "c = b")
      case True
      then show ?thesis using b c by auto
    next
      case False
      then show ?thesis
        using layout_disjoint [OF assms(1) c(1) b(1)] layout_blk(6) [OF assms(1) c(1)] b(2) zx c by auto
    qed
  qed
  ultimately show ?thesis by simp
qed

lemma extents_within:
  assumes "layout_ok segs B" "(k, e) \<in> extents B"
  shows "\<exists>r \<in> segs. lies_in e r"
proof -
  obtain p len where e: "e = (p, len)" by (cases e)
  obtain b x where b: "B b = Some x" "p = b + 16" "len = bsz x - 16" using extentsE assms(2) e by blast
  obtain s n where "(s, n) \<in> segs" "s \<le> b" "b + bsz x \<le> s + n"
    using layout_blk(4) [OF assms(1) b(1)] unfolding inside_def by blast
  then show ?thesis using b layout_blk(6) [OF assms(1) b(1)] e by (intro bexI [of _ "(s, n)"]) auto
qed

lemma extents_apart:
  assumes "layout_ok segs B" "(k, e) \<in> extents B" "(k', e') \<in> extents B" "(k, e) \<noteq> (k', e')"
  shows "apart e e'"
proof -
  obtain p len p' len' where e: "e = (p, len)" "e' = (p', len')" by (cases e; cases e')
  obtain b x where b: "B b = Some x" "p = b + 16" "len = bsz x - 16" using extentsE assms(2) e by blast
  obtain c y where c: "B c = Some y" "p' = c + 16" "len' = bsz y - 16" using extentsE assms(3) e by blast
  have "b \<noteq> c" using assms(4) e b c by auto
  then show ?thesis
    using layout_disjoint [OF assms(1) b(1) c(1)] layout_blk(6) [OF assms(1) b(1)] layout_blk(6) [OF assms(1) c(1)]
      b c e by auto
qed

lemma seg_inv_frame:
  assumes "seg_inv os M heap R" "machine_ok M'" "set (segments heap) \<subseteq> set (mapped M')"
    "\<And>x. x \<in> cells (set (segments heap)) - cells (snd ` R) \<Longrightarrow> mem M' x = mem M x"
  shows "seg_inv os M' heap R"
proof -
  obtain B where B: "heap_ok (mem M) heap B" "lonely (set (segments heap)) B" "R = extents B" and os: "os_ok os"
    using assms(1) by (auto simp: seg_inv_def)
  have "mem M' x = mem M x" if "x \<in> own B" for x
    using own_outside [OF heap_okD(1) [OF B(1)] that] assms(4) B(3) by blast
  then have "conc (mem M') (bins heap) B" by (rule conc_cong [OF heap_okD(3) [OF B(1)]])
  then have "heap_ok (mem M') heap B" using B(1) by (simp add: heap_ok_def)
  then show ?thesis using B os assms(2,3) by (auto simp: seg_inv_def)
qed

lemma SegmentHeap_init_inv:
  assumes "os_ok os" "machine_ok M"
  shows "seg_inv os M SegmentHeap_init {}"
proof -
  have "\<exists>L. bin_ok (mem M) (replicate kBinCount 0) Map.empty i L" if "i < kBinCount" for i
    using that by (intro exI [of _ "[]"]) (simp add: bin_ok_def bin_of_def links_def)
  then have "heap_ok (mem M) SegmentHeap_init Map.empty"
    by (simp add: heap_ok_def SegmentHeap_init_def layout_ok_def disjoint_blocks_def next_ok_def prev_ok_def
        segs_ok_def coalesced_def conc_def spread_def hdrs_def)
  then show ?thesis
    using assms by (auto simp: seg_inv_def SegmentHeap_init_def lonely_def extents_def allocs_def)
qed

section \<open>Carving a block\<close>

text \<open>The wholly free blocks of \<open>B'\<close> are wholly free blocks of \<open>B\<close>.\<close>

definition fewer_whole :: "blocks \<Rightarrow> blocks \<Rightarrow> bool" where
  "fewer_whole B B' \<longleftrightarrow> (\<forall>c y. B' c = Some y \<and> bfr y \<and> bfs y \<and> bls y \<longrightarrow>
     (\<exists>z. B c = Some z \<and> bfr z \<and> bfs z \<and> bls z \<and> bsz z = bsz y))"

lemma carve_heap:
  assumes "heap_ok (mem M) heap B" "B b = Some x" "bfr x" "16 dvd need" "48 \<le> need" "need \<le> bsz x"
    "carve b need M heap = (p, M', heap')"
  shows "p = b + 16" "mapped M' = mapped M" "segments heap' = segments heap"
    "\<exists>B' y. heap_ok (mem M') heap' B' \<and> B' b = Some y \<and> \<not> bfr y \<and> need \<le> bsz y \<and>
       allocs B' = insert (b, bsz y) (allocs B) \<and> fewer_whole B B'"
    "\<And>z. z \<notin> own B \<Longrightarrow> mem M' z = mem M z"
proof -
  note ok = heap_okD [OF assms(1)]
  note bx = layout_blk [OF ok(1) assms(2)]
  obtain m1 h1 where r: "removeFree b (mem M, bins heap) = (m1, h1)" by (cases "removeFree b (mem M, bins heap)")
  obtain m2 h2 where s: "splitBlock b need (m1, h1) = (m2, h2)" by (cases "splitBlock b need (m1, h1)")
  have run: "p = b + 16" "M' = M\<lparr>mem := m2\<rparr>" "heap' = heap\<lparr>bins := h2\<rparr>"
    using assms(7) r s by (simp_all add: carve_def payloadOf_def kBlockHeaderSize_def)
  show "p = b + 16" "mapped M' = mapped M" and segs: "segments heap' = segments heap" using run by simp_all
  note c1 = removeFree_conc [OF ok(3) assms(2,3) r]
  let ?B = "setfree B b False"
  note t1 = take_free [OF ok(1,2) assms(2,3)]
  have at: "?B b = Some (x\<lparr>bfr := False\<rparr>)" and again: "setfree ?B b True = B"
    using assms(2,3) by (auto simp: setfree_def fun_eq_iff)
  have "(\<exists>B' y. heap_ok (mem M') heap' B' \<and> B' b = Some y \<and> \<not> bfr y \<and> need \<le> bsz y \<and>
       allocs B' = insert (b, bsz y) (allocs B) \<and> fewer_whole B B') \<and> (\<forall>z. z \<notin> own B \<longrightarrow> m2 z = m1 z)"
  proof (cases "need + 48 \<le> bsz x")
    case True
    note cs = carve_split [OF ok(1,2) assms(2,3,4,5) True]
    have own': "own (setfree (split ?B b need) (b + need) True) \<subseteq> own (setfree ?B b True)" using cs(4) again by simp
    note sp = splitBlock_conc [where B = ?B, OF c1(1) t1(1) at _ assms(4,5) _ s own']
    let ?B' = "setfree (split ?B b need) (b + need) True"
    have S: "?B' c = (if c = b then Some (x\<lparr>bfr := False, bsz := need, bls := False\<rparr>)
        else if c = b + need then Some \<lparr>bsz = bsz x - need, bpv = need, bfr = True, bfs = False, bls = bls x\<rparr>
        else if c = b + bsz x \<and> \<not> bls x then Some ((the (?B c))\<lparr>bpv := bsz x - need\<rparr>) else ?B c)" for c
      using split_apply [where B = ?B, OF at assms(5)] True assms(5) by (simp add: setfree_def)
    have "\<exists>z. B (b + bsz x) = Some z" if "\<not> bls x" using layout_next [OF ok(1) assms(2) that] by blast
    then have "fewer_whole B ?B'"
      unfolding fewer_whole_def S by (auto simp: setfree_def split: if_splits)
    moreover have "heap_ok (mem M') heap' ?B'" using cs(1,2) sp(1) True run ok(4,5) by (auto simp: heap_ok_def)
    ultimately show ?thesis using cs(3) sp(2) True again by (auto simp: S)
  next
    case False
    have "size_sub (mb_size m1 b) need = bsz x - need"
      using conc_reads(1) [OF c1(1) at] assms(6) bx(5) by (simp add: sized_def)
    moreover have "bsz x - need < 48" using False by simp
    ultimately have "m2 = m1" "h2 = h1" using s by (simp_all add: splitBlock_def Let_def kMinBlockSize_def)
    moreover have "fewer_whole B ?B" unfolding fewer_whole_def using assms(2) by (auto simp: setfree_def split: if_splits)
    ultimately show ?thesis using t1 c1(1) run at assms(6) ok(4,5) by (auto simp: heap_ok_def)
  qed
  then show "\<exists>B' y. heap_ok (mem M') heap' B' \<and> B' b = Some y \<and> \<not> bfr y \<and> need \<le> bsz y \<and>
       allocs B' = insert (b, bsz y) (allocs B) \<and> fewer_whole B B'" "\<And>z. z \<notin> own B \<Longrightarrow> mem M' z = mem M z"
    using c1(2) run by auto
qed

section \<open>Adding a segment\<close>

text \<open>One more segment, which is one free block.\<close>

definition grown :: "machine \<Rightarrow> SegmentHeap \<Rightarrow> blocks \<Rightarrow> machine \<Rightarrow> SegmentHeap \<Rightarrow> addr \<Rightarrow> nat \<Rightarrow> blocks \<Rightarrow> bool" where
  "grown M heap B M1 heap1 p n B1 \<longleftrightarrow>
     segments heap1 = segments heap @ [(p, n)] \<and> mapped M1 = (p, n) # mapped M \<and> machine_ok M1 \<and>
     (\<forall>r \<in> set (mapped M). apart (p, n) r) \<and> kSegmentSize \<le> n \<and>
     (\<forall>z. z \<notin> own B \<and> (z < p \<or> p + n \<le> z) \<longrightarrow> mem M1 z = mem M z) \<and>
     heap_ok (mem M1) heap1 B1 \<and> allocs B1 = allocs B \<and> B p = None \<and>
     B1 = B(p \<mapsto> \<lparr>bsz = n, bpv = 0, bfr = True, bfs = True, bls = True\<rparr>)"

lemma addSegment_heap:
  assumes "os_ok os" "machine_ok M" "set (segments heap) \<subseteq> set (mapped M)" "heap_ok (mem M) heap B"
    "addSegment os M heap = (ok, M1, heap1)"
  shows "if ok then \<exists>p n B1. grown M heap B M1 heap1 p n B1
    else mem M1 = mem M \<and> mapped M1 = mapped M \<and> heap1 = heap"
proof -
  note hp = heap_okD [OF assms(4)]
  obtain seg Mm where mk: "MappedRegion_make os kSegmentSize M = (seg, Mm)" by (cases "MappedRegion_make os kSegmentSize M")
  from assms(1,2) mk show ?thesis
  proof (cases rule: MappedRegion_make_cases)
    case failed
    then show ?thesis using assms(5) mk by (auto simp: addSegment_def)
  next
    case (valid p n)
    have pg: "os_page os \<le> 2 ^ 30" "16 dvd os_page os" using os_page_bounds [OF assms(1)] by auto
    have small: "kSegmentSize + os_page os < size_max" using pg(1) by (simp add: const_simps)
    note rp = roundToPages_bounds [OF assms(1) small]
    have n: "sized n" "48 \<le> n" "kSegmentSize \<le> n" "16 dvd p"
      using rp pg valid(3,6,7) by (auto simp: sized_def size_max_def const_simps intro: dvd_trans)
    have fresh: "apart (p, n) r" if "r \<in> set (segments heap)" for r using that assms(3) valid(8) by blast
    have far: "mem Mm z = mem M z" if "z < p \<or> p + n \<le> z" for z using valid(10) that by blast
    have ownsub: "z < p \<or> p + n \<le> z" if "z \<in> own B" for z
    proof -
      have "z \<in> cells (set (segments heap))" using own_outside [OF hp(1) that] by blast
      then show ?thesis using fresh by (force simp: cells_iff)
    qed
    have cm: "conc (mem Mm) (bins heap) B" by (rule conc_cong [OF hp(3)]) (use ownsub far in blast)
    note new = newSegment_conc [OF cm hp(1) n(4) valid(5) n(1,2) valid(7) fresh]
    define m4 where "m4 = mb_setPrevSize p 0 (mb_setFlag p kLastFlag True
      (mb_setFlag p kFirstFlag True (mb_setSize p n (write64 p 0 (mem Mm)))))"
    let ?x = "\<lparr>bsz = n, bpv = 0, bfr = False, bfs = True, bls = True\<rparr>"
    let ?B0 = "B(p \<mapsto> ?x)" and ?B1 = "B(p \<mapsto> \<lparr>bsz = n, bpv = 0, bfr = True, bfs = True, bls = True\<rparr>)"
    obtain m5 h5 where ins: "insertFree p (m4, bins heap) = (m5, h5)" by (cases "insertFree p (m4, bins heap)")
    have eq: "setfree ?B0 p True = ?B1" by (simp add: setfree_def)
    have c5: "conc m5 h5 ?B1" "\<And>z. z \<notin> own ?B1 \<Longrightarrow> m5 z = m4 z"
      using insertFree_conc [of m4 "bins heap" ?B0 p ?x m5 h5] new(1) ins eq by (auto simp: m4_def)
    have run: "ok" "M1 = Mm\<lparr>mem := m5\<rparr>" "heap1 = heap\<lparr>bins := h5, segments := segments heap @ [(p, n)]\<rparr>"
      using assms(5) mk valid(1,2) ins by (auto simp: addSegment_def Let_def m4_def)
    have "coalesced ?B0" using hp(2) new(3) unfolding coalesced_def by (auto split: if_splits)
    from coalesced_setfree_True [OF new(2) this, of p ?x] have co: "coalesced ?B1"
      by (simp add: eq free_next_def free_prev_def)
    have lay: "layout_ok (insert (p, n) (set (segments heap))) ?B1"
      using layout_setfree [OF new(2), of p ?x True] eq by simp
    have "(p, n) \<notin> set (segments heap)" using fresh [of "(p, n)"] n(2) by auto
    then have hok: "heap_ok (mem M1) heap1 ?B1"
      using lay co c5(1) hp(4,5) n(3) run by (auto simp: heap_ok_def)
    have al: "allocs ?B1 = allocs B" using new(3) by (fastforce simp: allocs_def split: if_splits)
    have fr: "mem M1 z = mem M z" if "z \<notin> own B" "z < p \<or> p + n \<le> z" for z
    proof -
      have "z \<notin> own ?B1" using that new(3) unfolding own_def by (auto split: if_splits)
      then have "mem M1 z = m4 z" using c5(2) run by simp
      also have "\<dots> = mem Mm z" using that(2) n(2) by (auto simp: m4_def header_writes)
      finally show ?thesis using far that(2) by simp
    qed
    have "machine_ok M1" using valid(11) run machine_ok_cong [of M1 Mm] by simp
    then have "grown M heap B M1 heap1 p n ?B1"
      using run valid(8,9) n(3) hok al new(3) fr by (simp add: grown_def)
    then show ?thesis using run(1) by auto
  qed
qed

section \<open>Allocation\<close>

lemma carve_step:
  assumes "heap_ok (mem M) heap B" "mapped M' = mapped M" "\<And>z. z \<notin> own B \<Longrightarrow> mem M' z = mem M z"
  shows "tier_step (snd ` extents B) M (segments heap) M' (segments heap)"
  using own_outside [OF heap_okD(1) [OF assms(1)]] assms(2,3) by (intro tier_step_mem) auto

lemma grown_step:
  assumes "heap_ok (mem M) heap B" "grown M heap B M1 heap1 p n B1" "set (segments heap) \<subseteq> set (mapped M)"
  shows "tier_step (snd ` extents B) M (segments heap) M1 (segments heap1)"
proof -
  let ?E = "cells (snd ` extents B)"
  have g: "segments heap1 = segments heap @ [(p, n)]" "mapped M1 = (p, n) # mapped M"
    "\<forall>r \<in> set (mapped M). apart (p, n) r" "0 < n"
    "\<And>z. z \<notin> own B \<Longrightarrow> z < p \<or> p + n \<le> z \<Longrightarrow> mem M1 z = mem M z"
    using assms(2) by (auto simp: grown_def const_simps)
  have "?E \<subseteq> cells (set (segments heap))"
    using extents_within [OF heap_okD(1) [OF assms(1)]] lies_in_sub_cells
    by (fastforce simp: cells_iff lies_in_def)
  also have "\<dots> \<subseteq> mapped_cells M" using cells_mono [OF assms(3)] by (simp add: mapped_cells_def)
  finally have E: "?E \<subseteq> mapped_cells M" .
  have "mem M1 z = mem M z" if z: "z \<notin> cells (set (segments heap) \<union> set (segments heap1)) - ?E" for z
  proof (rule g(5))
    show "z \<notin> own B" using own_outside [OF heap_okD(1) [OF assms(1)]] z by auto
    show "z < p \<or> p + n \<le> z" using z g(1) E fresh_out [OF g(3), of z] by auto
  qed
  moreover have "set (mapped M1) - set (segments heap1) = set (mapped M) - set (segments heap)"
    using fresh_not_mapped [OF g(3)] g(1,2,4) by auto
  ultimately show ?thesis by (simp add: tier_step_def)
qed

lemma whole_large:
  assumes "heap_ok m heap B" "B b = Some x" "bfs x" "bls x"
  shows "kSegmentSize \<le> bsz x"
  using whole_segment [OF heap_okD(1) [OF assms(1)] assms(2-4)] heap_okD(5) [OF assms(1)] by blast

definition needed :: "nat \<Rightarrow> nat" where
  "needed bytes = max (size_add (alignUp bytes kDefaultAlignment) kBlockHeaderSize) kMinBlockSize"

lemma needed_bounds:
  assumes "n + 32 < size_max"
  shows "16 dvd needed n" "48 \<le> needed n" "n + 16 \<le> needed n" "n + 16 \<le> kSegmentSize \<Longrightarrow> needed n \<le> kSegmentSize"
proof -
  have al: "alignUp n 16 = (n + 15) div 16 * 16" using assms by (intro alignUp_16) simp
  have b: "n \<le> (n + 15) div 16 * 16" "(n + 15) div 16 * 16 < n + 16" by auto
  have eq: "needed n = max ((n + 15) div 16 * 16 + 16) 48"
    using assms b by (simp add: needed_def const_simps al)
  show "48 \<le> needed n" "n + 16 \<le> needed n" using b by (auto simp: eq)
  show "16 dvd needed n" by (simp add: eq max_def)
  show "needed n \<le> kSegmentSize" if "n + 16 \<le> kSegmentSize"
  proof -
    have "(n + 15) div 16 \<le> (4194304 - 1) div (16 :: nat)" using that by (intro div_le_mono) (simp add: const_simps)
    then show ?thesis by (simp add: eq const_simps)
  qed
qed

text \<open>What an allocation that succeeds comes to, from the extents \<open>R\<close> outstanding before it.\<close>

definition handed_out ::
    "os \<Rightarrow> nat \<Rightarrow> machine \<Rightarrow> SegmentHeap \<Rightarrow> (unit \<times> region) set \<Rightarrow> addr \<Rightarrow> machine \<Rightarrow> SegmentHeap \<Rightarrow> bool" where
  "handed_out os n M heap R p M' heap' \<longleftrightarrow>
     (let len = SegmentHeap_payloadCapacity p (mem M') in
      0 < p \<and> 16 dvd p \<and> n \<le> len \<and> ((), p, len) \<notin> R \<and> seg_inv os M' heap' (insert ((), p, len) R) \<and>
      tier_step (snd ` R) M (segments heap) M' (segments heap'))"

lemma extents_insert: "allocs B' = insert (b, n) (allocs B) \<Longrightarrow> extents B' = insert ((), b + 16, n - 16) (extents B)"
  by (auto simp: extents_def)

lemma payloadCapacity_block:
  assumes "conc m heads B" "B b = Some x"
  shows "SegmentHeap_payloadCapacity (b + 16) m = bsz x - 16"
  using conc_reads(1) [OF assms] conc_blk(1) [OF assms]
  by (simp add: SegmentHeap_payloadCapacity_def const_simps blk_ok_def sized_def)

lemma carve_inv:
  assumes "os_ok os" "machine_ok M" "set (segments heap) \<subseteq> set (mapped M)" "heap_ok (mem M) heap B"
    "B b = Some x" "bfr x" "16 dvd need" "48 \<le> need" "need \<le> bsz x" "n + 16 \<le> need"
    "carve b need M heap = (p, M', heap')"
    "\<And>B' y. fewer_whole B B' \<Longrightarrow> B' b = Some y \<Longrightarrow> \<not> bfr y \<Longrightarrow> lonely (set (segments heap)) B'"
  shows "p = b + 16" "handed_out os n M heap (extents B) p M' heap'"
proof -
  note ch = carve_heap [OF assms(4-9,11)]
  show "p = b + 16" by (rule ch(1))
  obtain B' y where B': "heap_ok (mem M') heap' B'" "B' b = Some y" "\<not> bfr y" "need \<le> bsz y"
    "allocs B' = insert (b, bsz y) (allocs B)" "fewer_whole B B'" using ch(4) by blast
  have lay: "layout_ok (set (segments heap)) B'" using heap_okD(1) [OF B'(1)] ch(3) by simp
  have cap: "SegmentHeap_payloadCapacity p (mem M') = bsz y - 16"
    using payloadCapacity_block [OF heap_okD(3) [OF B'(1)] B'(2)] ch(1) by simp
  have "((), p, bsz y - 16) \<notin> extents B"
  proof
    assume "((), p, bsz y - 16) \<in> extents B"
    then obtain c z where "B c = Some z" "\<not> bfr z" "p = c + 16" by (rule extentsE)
    then show False using assms(5,6) ch(1) by simp
  qed
  moreover have "seg_inv os M' heap' (insert ((), p, bsz y - 16) (extents B))"
    using assms(1-3) B'(1) ch(1-3) extents_insert [OF B'(5)] assms(12) [OF B'(6,2,3)] machine_ok_cong [OF ch(2)]
    by (auto simp: seg_inv_def)
  moreover have "tier_step (snd ` extents B) M (segments heap) M' (segments heap')"
    using carve_step [OF assms(4) ch(2,5)] ch(3) by simp
  moreover have "0 < p" "16 dvd p" using layout_blk [OF lay B'(2)] ch(1) by auto
  ultimately show "handed_out os n M heap (extents B) p M' heap'"
    using cap assms(10) B'(4) by (simp add: handed_out_def)
qed

text \<open>
  The allocation returns; it is null only for a request above a segment or when the operating
  system refuses one while no free block fits.
\<close>

lemma SegmentHeap_allocate_cases:
  assumes "seg_inv os M heap R" "n + 32 < size_max"
  obtains (null) M' where "SegmentHeap_allocate os n M heap = Some (0, M', heap)"
      "mem M' = mem M" "mapped M' = mapped M"
      "kSegmentSize < needed n \<or> findFit (needed n) (mem M, bins heap) = Some 0 \<and> \<not> fst (addSegment os M heap)"
  | (block) p M' heap' where "SegmentHeap_allocate os n M heap = Some (p, M', heap')"
      "handed_out os n M heap R p M' heap'"
proof -
  obtain B where inv: "os_ok os" "machine_ok M" "set (segments heap) \<subseteq> set (mapped M)" "heap_ok (mem M) heap B"
    "lonely (set (segments heap)) B" "R = extents B" using assms(1) by (auto simp: seg_inv_def)
  note hp = heap_okD [OF inv(4)]
  let ?need = "needed n"
  note nb = needed_bounds [OF assms(2)]
  have unf: "SegmentHeap_allocate os n M heap =
     (if kSegmentSize < ?need then Some (0, M, heap)
      else do {
        block \<leftarrow> findFit ?need (mem M, bins heap);
        if block \<noteq> 0 then Some (carve block ?need M heap)
        else
          let (ok, M1, heap1) = addSegment os M heap in
          if \<not> ok then Some (0, M1, heap1)
          else do {
            block1 \<leftarrow> findFit ?need (mem M1, bins heap1);
            if block1 = 0 then Some (0, M1, heap1) else Some (carve block1 ?need M1 heap1)
          }
      })" unfolding SegmentHeap_allocate_def needed_def Let_def ..
  obtain r where r: "findFit ?need (mem M, bins heap) = Some r"
    "r = 0 \<longrightarrow> (\<forall>b x. B b = Some x \<and> bfr x \<longrightarrow> bsz x < ?need)"
    "r \<noteq> 0 \<longrightarrow> (\<exists>x. B r = Some x \<and> bfr x \<and> ?need \<le> bsz x)" using findFit_bins [OF hp(3)] by blast
  consider "kSegmentSize < ?need" | "?need \<le> kSegmentSize" "r \<noteq> 0" | "?need \<le> kSegmentSize" "r = 0" by linarith
  then show thesis
  proof cases
    case 1
    then show thesis using null [of M] unf by simp
  next
    case 2
    obtain x where x: "B r = Some x" "bfr x" "?need \<le> bsz x" using r(3) 2 by blast
    obtain p M' heap' where c: "carve r ?need M heap = (p, M', heap')" by (cases "carve r ?need M heap")
    have "lonely (set (segments heap)) B'" if "fewer_whole B B'" for B'
      using inv(5) that unfolding lonely_def fewer_whole_def by fastforce
    then have "handed_out os n M heap R p M' heap'"
      using carve_inv(2) [OF inv(1-4) x(1,2) nb(1,2) x(3) nb(3) c] inv(6) by blast
    moreover have "SegmentHeap_allocate os n M heap = Some (p, M', heap')" using unf 2 r(1) c by simp
    ultimately show thesis using block by blast
  next
    case 3
    have small: "\<And>b x. B b = Some x \<Longrightarrow> bfr x \<Longrightarrow> bsz x < ?need" using r(2) 3 by blast
    obtain ok M1 heap1 where a: "addSegment os M heap = (ok, M1, heap1)" by (cases "addSegment os M heap")
    note as = addSegment_heap [OF inv(1-4) a]
    show thesis
    proof (cases ok)
      case False
      then show thesis using null [of M1] unf 3 r(1) a as by simp
    next
      case True
      then obtain q k B1 where g: "grown M heap B M1 heap1 q k B1" using as by auto
      have g': "heap_ok (mem M1) heap1 B1" "machine_ok M1" "set (segments heap1) \<subseteq> set (mapped M1)"
        "B1 = B(q \<mapsto> \<lparr>bsz = k, bpv = 0, bfr = True, bfs = True, bls = True\<rparr>)" "allocs B1 = allocs B"
        "kSegmentSize \<le> k" "set (segments heap) \<subseteq> set (segments heap1)"
        using g inv(3) by (auto simp: grown_def)
      obtain r1 where r1: "findFit ?need (mem M1, bins heap1) = Some r1"
        "r1 = 0 \<longrightarrow> (\<forall>b x. B1 b = Some x \<and> bfr x \<longrightarrow> bsz x < ?need)"
        "r1 \<noteq> 0 \<longrightarrow> (\<exists>x. B1 r1 = Some x \<and> bfr x \<and> ?need \<le> bsz x)"
        using findFit_bins [OF heap_okD(3) [OF g'(1)]] by blast
      have q: "B1 q = Some \<lparr>bsz = k, bpv = 0, bfr = True, bfs = True, bls = True\<rparr>" using g'(4) by simp
      have "r1 \<noteq> 0" using r1(2) q 3 g'(6) by fastforce
      then obtain x where x: "B1 r1 = Some x" "bfr x" "?need \<le> bsz x" using r1(3) by blast
      have "r1 = q" using x small [of r1] g'(4) by (cases "r1 = q") auto
      obtain p M' heap' where c: "carve r1 ?need M1 heap1 = (p, M', heap')" by (cases "carve r1 ?need M1 heap1")
      have none: "\<not> (bfr x \<and> bfs x \<and> bls x)" if "B b = Some x" for b x
        using small [OF that] whole_large [OF inv(4) that] 3 by auto
      have "lonely (set (segments heap1)) B'" if "fewer_whole B1 B'" "B' r1 = Some y" "\<not> bfr y" for B' y
        using that none unfolding lonely_def fewer_whole_def g'(4) \<open>r1 = q\<close> by (fastforce split: if_splits)
      then have h: "handed_out os n M1 heap1 (extents B1) p M' heap'"
        using carve_inv(2) [OF inv(1) g'(2,3,1) x(1,2) nb(1,2) x(3) nb(3) c] by blast
      have e: "extents B1 = R" using g'(5) inv(6) by (simp add: extents_def)
      have "segments heap' = segments heap1" using carve_heap(3) [OF g'(1) x(1,2) nb(1,2) x(3) c] .
      then have "tier_step (snd ` R) M (segments heap) M' (segments heap')"
        using tier_step_trans [OF grown_step [OF inv(4) g inv(3)]] h e inv(6) g'(7)
        by (auto simp: handed_out_def Let_def)
      then have "handed_out os n M heap R p M' heap'" using h e by (simp add: handed_out_def Let_def)
      moreover have "SegmentHeap_allocate os n M heap = Some (p, M', heap')"
        using unf 3 r(1) a True r1(1) \<open>r1 \<noteq> 0\<close> c by simp
      ultimately show thesis using block by blast
    qed
  qed
qed

section \<open>Release\<close>

lemma extents_freed:
  assumes "B b = Some x" "\<not> bfr x" "layout_ok segs B"
  shows "extents (setfree B b True) = extents B - {((), b + 16, bsz x - 16)}"
proof -
  have "c = b" if "B c = Some y" "c + 16 = b + 16" for c y using that by simp
  then show ?thesis
    unfolding extents_def allocs_setfree_True using assms(1,2) by (auto simp: allocs_def image_iff)
qed

text \<open>A heap with a block in use has no wholly free segment once that block is gone, but its own.\<close>

lemma no_other_whole:
  assumes "layout_ok segs B" "lonely segs B" "B b = Some x" "\<not> bfr x" "others_kept B b B' q" "B' c = Some y" "c \<noteq> q"
  shows "\<not> (bfr y \<and> bfs y \<and> bls y)"
proof
  assume y: "bfr y \<and> bfs y \<and> bls y"
  obtain z where z: "B c = Some z" "c \<noteq> b" "bfr z" "bfs z" "bls z" using others_keptD [OF assms(5-7)] y by auto
  then have "segs = {(c, bsz z)}" using assms(2) unfolding lonely_def by blast
  then have "c \<le> b" "b + bsz x \<le> c + bsz z"
    using layout_blk(4) [OF assms(1,3)] unfolding inside_def by auto
  then show False
    using layout_disjoint [OF assms(1) z(1) assms(3) z(2)] layout_blk(6) [OF assms(1,3)] by linarith
qed

text \<open>What a release comes to, once the block \<open>q\<close> it ends in is known.\<close>

lemma keep_block:
  assumes "seg_inv os M heap R" "heap_ok (mem M) heap B" "lonely (set (segments heap)) B" "R = extents B"
    "B b = Some x" "\<not> bfr x" "absorb_ok (set (segments heap)) B b B' q" "coalesced (setfree B' q True)"
    "conc m3 heads B'" "\<And>z. z \<notin> own B \<Longrightarrow> m3 z = mem M z"
    "B' q = Some w" "bfs w \<and> bls w \<longrightarrow> length (segments heap) \<le> 1"
    "insertFree q (m3, heads) = (m4, heads4)"
  defines "M' \<equiv> M\<lparr>mem := m4\<rparr>" and "heap' \<equiv> heap\<lparr>bins := heads4\<rparr>"
  shows "seg_inv os M' heap' (R - {((), b + 16, bsz x - 16)})"
    "tier_step (snd ` (R - {((), b + 16, bsz x - 16)})) M (segments heap) M' (segments heap')"
proof -
  let ?segs = "set (segments heap)" and ?B = "setfree B' q True"
  note hp = heap_okD [OF assms(2)]
  have ab: "layout_ok ?segs B'" "\<not> bfr w" "allocs ?B = allocs (setfree B b True)"
    "own ?B \<subseteq> own (setfree B b True)" "others_kept B b B' q"
    using assms(7,11) by (auto simp: absorb_ok_def)
  note ins = insertFree_conc [OF assms(9,11) ab(2) assms(13)]
  have lay: "layout_ok ?segs ?B" using layout_setfree [OF ab(1) assms(11)] .
  have R': "extents ?B = R - {((), b + 16, bsz x - 16)}" "extents (setfree B b True) = extents ?B"
    using extents_freed [OF assms(5,6) hp(1)] ab(3) assms(4) by (simp_all add: extents_def)
  have "own B \<subseteq> own (setfree B b True)"
    using own_setfree_mono [of B b x] assms(5) layout_blk(6) [OF hp(1) assms(5)] by simp
  then have mem: "m4 z = mem M z" if "z \<notin> own (setfree B b True)" for z
    using that ins(2) [of z, OF contra_subsetD [OF ab(4)]] assms(10) [of z, OF contra_subsetD] by simp
  have hok: "heap_ok (mem M') heap' ?B" using lay assms(8) ins(1) hp(4,5) by (auto simp: heap_ok_def M'_def heap'_def)
  have "lonely ?segs ?B" unfolding lonely_def
  proof (intro allI impI, elim conjE)
    fix c y assume c: "?B c = Some y" "bfr y" "bfs y" "bls y"
    show "?segs = {(c, bsz y)}"
    proof (cases "c = q")
      case True
      then have "y = w\<lparr>bfr := True\<rparr>" using c(1) assms(11) by (simp add: setfree_def)
      then have "length (segments heap) \<le> 1" using assms(12) c by simp
      moreover have "(c, bsz y) \<in> ?segs" using whole_segment [OF lay c(1,3,4)] .
      ultimately show ?thesis by (cases "segments heap") auto
    next
      case False
      then have "B' c = Some y" using c(1) by (simp add: setfree_def)
      then show ?thesis using no_other_whole [OF hp(1) assms(3,5,6) ab(5) _ False] c by blast
    qed
  qed
  then show "seg_inv os M' heap' (R - {((), b + 16, bsz x - 16)})"
    using assms(1) hok R' machine_ok_cong [of M' M] by (auto simp: seg_inv_def M'_def heap'_def)
  have "layout_ok ?segs (setfree B b True)" using layout_setfree [OF hp(1) assms(5)] .
  from own_outside [OF this] have "tier_step (snd ` extents ?B) M (segments heap) M' (segments heap)"
    using mem R'(2) by (intro tier_step_mem) (auto simp: M'_def)
  then show "tier_step (snd ` (R - {((), b + 16, bsz x - 16)})) M (segments heap) M' (segments heap')"
    using R'(1) by (simp add: heap'_def)
qed

lemma return_segment:
  assumes "seg_inv os M heap R" "heap_ok (mem M) heap B" "lonely (set (segments heap)) B" "R = extents B"
    "B b = Some x" "\<not> bfr x" "absorb_ok (set (segments heap)) B b B' q"
    "conc m3 heads B'" "\<And>z. z \<notin> own B \<Longrightarrow> m3 z = mem M z" "B' q = Some w" "bfs w" "bls w"
  defines "M' \<equiv> MappedRegion_destroy os (q, bsz w) (M\<lparr>mem := m3\<rparr>)"
    and "heap' \<equiv> heap\<lparr>bins := heads, segments := remove1 (q, bsz w) (segments heap)\<rparr>"
  shows "seg_inv os M' heap' (R - {((), b + 16, bsz x - 16)})"
    "tier_step (snd ` (R - {((), b + 16, bsz x - 16)})) M (segments heap) M' (segments heap')"
proof -
  let ?segs = "set (segments heap)" and ?B = "B'(q := None)" and ?r = "(q, bsz w)"
  note hp = heap_okD [OF assms(2)]
  have inv: "os_ok os" "machine_ok M" "?segs \<subseteq> set (mapped M)" using assms(1) by (auto simp: seg_inv_def)
  have ab: "layout_ok ?segs B'" "coalesced B'" "\<not> bfr w" "allocs (setfree B' q True) = allocs (setfree B b True)"
    "others_kept B b B' q"
    using assms(7,10) by (auto simp: absorb_ok_def)
  have r: "?r \<in> ?segs" using whole_segment [OF ab(1) assms(10-12)] .
  have len: "0 < bsz w" using layout_blk(6) [OF ab(1) assms(10)] by simp
  have ok3: "machine_ok (M\<lparr>mem := m3\<rparr>)" using inv(2) machine_ok_cong [of "M\<lparr>mem := m3\<rparr>" M] by simp
  have M': "M' = SystemMemory_unmap os ?r (M\<lparr>mem := m3\<rparr>)"
    using len by (simp add: M'_def MappedRegion_destroy_def MappedRegion_reset_def)
  note un = SystemMemory_unmap_mapped [OF inv(1) ok3, of q "bsz w", folded M']
  have un': "mapped M' = remove1 ?r (mapped M)" "machine_ok M'" "\<And>z. z < q \<or> q + bsz w \<le> z \<Longrightarrow> mem M' z = m3 z"
    using un r inv(3) by auto
  have segs': "set (segments heap') = ?segs - {?r}" using hp(4) by (simp add: heap'_def)
  have lay: "layout_ok (?segs - {?r}) ?B" using drop_segment [OF ab(1) assms(10-12)] .
  have out: "z < q \<or> q + bsz w \<le> z" if "z \<in> cells (?segs - {?r})" for z
    using that layout_segs(3) [OF ab(1) r] by (force simp: cells_iff)
  have "conc (mem M') heads ?B"
    by (rule conc_cong [OF conc_drop [OF assms(8,10) ab(3)]]) (use own_outside [OF lay] out un'(3) in blast)
  moreover have "coalesced ?B" using ab(2) unfolding coalesced_def by (auto split: if_splits)
  ultimately have hok: "heap_ok (mem M') heap' ?B" using lay hp(4,5) segs' by (auto simp: heap_ok_def heap'_def)
  have "allocs ?B = allocs (setfree B' q True)" by (auto simp: allocs_setfree_True) (auto simp: allocs_def split: if_splits)
  then have R': "extents ?B = R - {((), b + 16, bsz x - 16)}" "extents (setfree B b True) = extents ?B"
    using extents_freed [OF assms(5,6) hp(1)] ab(4) assms(4) by (simp_all add: extents_def)
  have "lonely (?segs - {?r}) ?B" unfolding lonely_def
    using no_other_whole [OF hp(1) assms(3,5,6) ab(5)] by (auto split: if_splits)
  moreover have "?segs - {?r} \<subseteq> set (mapped M')"
    using inv(3) machine_ok_distinct [OF inv(2)] by (auto simp: un'(1))
  ultimately show "seg_inv os M' heap' (R - {((), b + 16, bsz x - 16)})"
    using inv(1) un'(2) hok segs' R'(1) by (auto simp: seg_inv_def)
  let ?E = "cells (snd ` extents ?B)"
  have E: "?E \<subseteq> cells (?segs - {?r})"
    using extents_within [OF lay] by (fastforce simp: cells_iff lies_in_def)
  have lay': "layout_ok ?segs (setfree B b True)" using layout_setfree [OF hp(1) assms(5)] .
  have "mem M' z = mem M z" if z: "z \<notin> cells (?segs \<union> set (segments heap')) - ?E" for z
  proof -
    have "z \<in> ?E" if "\<not> (z < q \<or> q + bsz w \<le> z)" using z cellsI [OF r, of z] that by auto
    then have "z < q \<or> q + bsz w \<le> z" using out [of z] E by blast
    moreover have "z \<notin> own B"
      using own_outside [OF lay', of z] own_setfree_mono [of B b x] assms(5) layout_blk(6) [OF hp(1) assms(5)] z R'(2)
      by auto
    ultimately show ?thesis using un'(3) assms(9) by simp
  qed
  moreover have "set (mapped M') - set (segments heap') = set (mapped M) - ?segs"
    using segs' r machine_ok_distinct [OF inv(2)] by (auto simp: un'(1))
  ultimately show "tier_step (snd ` (R - {((), b + 16, bsz x - 16)})) M (segments heap) M' (segments heap')"
    using R'(1) by (simp add: tier_step_def)
qed

lemma find_segment:
  assumes "layout_ok (set rs) B" "(q, n) \<in> set rs"
  shows "List.find (\<lambda>r. fst r = q) rs = Some (q, n)"
proof -
  obtain r where r: "List.find (\<lambda>r. fst r = q) rs = Some r"
    using assms(2) find_None_iff [of "\<lambda>r. fst r = q" rs] by fastforce
  then have "r \<in> set rs" "fst r = q" by (auto simp: find_Some_iff)
  then have k: "(q, snd r) \<in> set rs" by (metis prod.collapse)
  have "snd r = n"
    using layout_segs(3) [OF assms(1) k assms(2)] layout_segs(2) [OF assms(1) k] layout_segs(2) [OF assms]
    by (cases "snd r = n") auto
  then show ?thesis using r \<open>fst r = q\<close> by (cases r) simp
qed

lemma SegmentHeap_deallocate_inv:
  assumes "seg_inv os M heap R" "((), p, len) \<in> R" "SegmentHeap_deallocate os p M heap = (M', heap')"
  shows "seg_inv os M' heap' (R - {((), p, len)})"
    "tier_step (snd ` (R - {((), p, len)})) M (segments heap) M' (segments heap')"
proof -
  obtain B where B: "heap_ok (mem M) heap B" "lonely (set (segments heap)) B" "R = extents B"
    using assms(1) by (auto simp: seg_inv_def)
  note hp = heap_okD [OF B(1)]
  obtain b x where b: "B b = Some x" "\<not> bfr x" "p = b + 16" "len = bsz x - 16"
    using assms(2) unfolding B(3) by (rule extentsE)
  have bl: "blockOf p = b" using b(3) by (simp add: blockOf_def kBlockHeaderSize_def)
  obtain q m2 heads2 where co: "coalescePrev b (coalesceNext b (mem M, bins heap)) = (q, m2, heads2)"
    by (cases "coalescePrev b (coalesceNext b (mem M, bins heap))")
  define m3 where "m3 = (if \<not> mb_isLast m2 q then mb_setPrevSize (nextBlock m2 q) (mb_size m2 q) m2 else m2)"
  note cc = coalesce_conc [OF hp(3,1) b(1,2) co, folded m3_def]
  obtain B' where B': "coalesce B b = (q, B')" "conc m3 heads2 B'" using cc(1) by blast
  note ok = coalesce_ok [OF hp(1,2) b(1,2) B'(1)]
  obtain w where w: "B' q = Some w" using ok(1) by (auto simp: absorb_ok_def)
  note keep = keep_block [OF assms(1) B b(1,2) ok B'(2) cc(2) w]
  note ret = return_segment [OF assms(1) B b(1,2) ok(1) B'(2) cc(2) w]
  note rd = conc_reads(3,4) [OF B'(2) w]
  obtain m4 heads4 where ins: "insertFree q (m3, heads2) = (m4, heads4)" by (cases "insertFree q (m3, heads2)")
  have run: "SegmentHeap_deallocate os p M heap = (if bfs w \<and> bls w
      then releaseSegment os q (M\<lparr>mem := m3\<rparr>) (heap\<lparr>bins := heads2\<rparr>)
      else (M\<lparr>mem := m4\<rparr>, heap\<lparr>bins := heads4\<rparr>))"
    unfolding SegmentHeap_deallocate_def bl co Let_def prod.case by (simp add: rd ins flip: m3_def)
  have "seg_inv os M' heap' (R - {((), p, len)}) \<and>
    tier_step (snd ` (R - {((), p, len)})) M (segments heap) M' (segments heap')"
  proof (cases "bfs w \<and> bls w \<and> 1 < length (segments heap)")
    case True
    have lay: "layout_ok (set (segments heap)) B'" using ok(1) by (simp add: absorb_ok_def)
    have "List.find (\<lambda>r. fst r = q) (segments heap) = Some (q, bsz w)"
      by (rule find_segment [OF lay whole_segment [OF lay w]]) (use True in auto)
    then have "(M', heap') = (MappedRegion_destroy os (q, bsz w) (M\<lparr>mem := m3\<rparr>),
        heap\<lparr>bins := heads2, segments := remove1 (q, bsz w) (segments heap)\<rparr>)"
      using assms(3) run True by (simp add: releaseSegment_def Let_def)
    then show ?thesis using ret True b(3,4) by simp
  next
    case False
    then have "M' = M\<lparr>mem := m4\<rparr>" "heap' = heap\<lparr>bins := heads4\<rparr>"
      using assms(3) run ins by (auto simp: releaseSegment_def Let_def split: if_splits)
    then show ?thesis using keep [OF _ _ ins] False b(3,4) by auto
  qed
  then show "seg_inv os M' heap' (R - {((), p, len)})"
    "tier_step (snd ` (R - {((), p, len)})) M (segments heap) M' (segments heap')" by blast+
qed

section \<open>The segment heap is a tier\<close>

definition seg_admits :: "unit \<Rightarrow> nat \<Rightarrow> bool" where
  "seg_admits k n \<longleftrightarrow> n + 32 < size_max"

definition seg_alloc ::
    "os \<Rightarrow> unit \<Rightarrow> nat \<Rightarrow> machine \<Rightarrow> SegmentHeap \<Rightarrow> (addr \<times> machine \<times> SegmentHeap) option" where
  "seg_alloc os k n M heap = SegmentHeap_allocate os n M heap"

definition seg_free :: "os \<Rightarrow> unit \<Rightarrow> addr \<Rightarrow> machine \<Rightarrow> SegmentHeap \<Rightarrow> machine \<times> SegmentHeap" where
  "seg_free os k p M heap = SegmentHeap_deallocate os p M heap"

definition seg_capacity :: "unit \<Rightarrow> machine \<Rightarrow> SegmentHeap \<Rightarrow> addr \<Rightarrow> nat" where
  "seg_capacity k M heap p = SegmentHeap_payloadCapacity p (mem M)"

lemma seg_inv_same:
  "seg_inv os M heap R \<Longrightarrow> mem M' = mem M \<Longrightarrow> mapped M' = mapped M \<Longrightarrow> seg_inv os M' heap R"
  using machine_ok_cong [of M' M] by (simp add: seg_inv_def)

interpretation medium: tier segments "seg_inv os" seg_admits "seg_alloc os" "seg_free os" seg_capacity for os
proof unfold_locales
  fix M heap R assume inv: "seg_inv os M heap R"
  obtain B where B: "heap_ok (mem M) heap B" "R = extents B" using inv by (auto simp: seg_inv_def)
  note hp = heap_okD [OF B(1)]
  show "machine_ok M \<and> set (segments heap) \<subseteq> set (mapped M)" using inv by (simp add: seg_inv_def)
  show "\<exists>r \<in> set (segments heap). lies_in e r" if "(k, e) \<in> R" for k e
    using extents_within [OF hp(1)] that B(2) by blast
  show "apart e e'" if "(k, e) \<in> R" "(k', e') \<in> R" "(k, e) \<noteq> (k', e')" for k e k' e'
    using extents_apart [OF hp(1)] that B(2) by blast
  show "p + len \<le> 2 ^ 56" if "(k, p, len) \<in> R" for k p len
  proof -
    from that obtain b x where "B b = Some x" "p = b + 16" "len = bsz x - 16" unfolding B(2) by (rule extentsE)
    then show ?thesis using layout_blk(6,7) [OF hp(1)] by fastforce
  qed
  show "seg_capacity k M heap p = len" if "(k, p, len) \<in> R" for k p len
  proof -
    from that obtain b x where "B b = Some x" "p = b + 16" "len = bsz x - 16" unfolding B(2) by (rule extentsE)
    then show ?thesis using payloadCapacity_block [OF hp(3)] by (simp add: seg_capacity_def)
  qed
  fix k n assume n: "seg_admits k n"
  note cases = SegmentHeap_allocate_cases [OF inv n [unfolded seg_admits_def]]
  show "\<exists>p M' heap'. seg_alloc os k n M heap = Some (p, M', heap')"
    unfolding seg_alloc_def by (rule cases) blast+
  fix p M' heap' assume a: "seg_alloc os k n M heap = Some (p, M', heap')"
  show "tier_step (snd ` R) M (segments heap) M' (segments heap')"
    by (rule cases) (use a in \<open>auto simp: seg_alloc_def handed_out_def Let_def tier_step_def\<close>)
  show "n \<le> seg_capacity k M' heap' p \<and> 16 dvd p \<and> (k, p, seg_capacity k M' heap' p) \<notin> R \<and>
      seg_inv os M' heap' (insert (k, p, seg_capacity k M' heap' p) R)" if "p \<noteq> 0"
    by (rule cases) (use a that in \<open>auto simp: seg_alloc_def handed_out_def Let_def seg_capacity_def\<close>)
next
  fix M heap R k n M' heap'
  assume h: "seg_inv os M heap R" "seg_admits k n" "seg_alloc os k n M heap = Some (0, M', heap')"
  show "seg_inv os M' heap' R"
    by (rule SegmentHeap_allocate_cases [OF h(1) h(2) [unfolded seg_admits_def]])
      (use h in \<open>auto simp: seg_alloc_def handed_out_def Let_def intro: seg_inv_same\<close>)
next
  fix M heap R M'
  assume "seg_inv os M heap R" "machine_ok M'" "set (segments heap) \<subseteq> set (mapped M')"
    "\<And>x. x \<in> cells (set (segments heap)) - cells (snd ` R) \<Longrightarrow> mem M' x = mem M x"
  then show "seg_inv os M' heap R" by (rule seg_inv_frame)
next
  fix M heap R k p len M' heap'
  assume h: "seg_inv os M heap R" "(k, p, len) \<in> R" "seg_free os k p M heap = (M', heap')"
  then show "seg_inv os M' heap' (R - {(k, p, len)})"
    "tier_step (snd ` (R - {(k, p, len)})) M (segments heap) M' (segments heap')"
    using SegmentHeap_deallocate_inv [of os M heap R p len M' heap'] by (cases k; simp add: seg_free_def)+
qed

end
