(* ===== verification/SegmentProperties.thy ===== *)
theory SegmentProperties
  imports SegmentTier
begin

text \<open>
  What clients of the segment heap can rely on, in every state they can reach: separation of the
  extents handed out, their data, completeness of the search, maximal coalescing, segments going
  back to the operating system, and what \<open>externalFragmentation\<close> reports.
\<close>

abbreviation seg_reach :: "os \<Rightarrow> machine \<Rightarrow> machine \<Rightarrow> SegmentHeap \<Rightarrow> (unit \<times> region) set \<Rightarrow> bool" where
  "seg_reach os M0 \<equiv> tier_reach seg_admits (seg_alloc os) (seg_free os) seg_capacity M0 SegmentHeap_init"

lemma seg_reach_inv:
  assumes "os_ok os" "machine_ok M0" "seg_reach os M0 M heap R"
  shows "seg_inv os M heap R"
  using medium.reach_inv [OF assms(3) SegmentHeap_init_inv [OF assms(1,2)]] .

section \<open>Walking all bins\<close>

definition free_blocks :: "blocks \<Rightarrow> addr set" where
  "free_blocks B = {b. \<exists>x. B b = Some x \<and> bfr x}"

lemma walkSizes_list:
  "links m (xs @ ys) \<Longrightarrow> walkSizes m (node_hd ys) t l =
     Some (fold (\<lambda>n t. size_add t n) (map (mb_size m) ys) t, fold (\<lambda>n l. max l n) (map (mb_size m) ys) l)"
proof (induction ys arbitrary: xs t l)
  case Nil
  then show ?case by (simp add: walkSizes.simps)
next
  case (Cons b ys)
  have "get m b NN = node_hd ys" using linksD(1) [OF Cons.prems] .
  then show ?case using Cons.IH [of "xs @ [b]"] Cons.prems
    by (subst walkSizes.simps) (simp add: accessors(10) Let_def)
qed

lemma walkAllSizes_list:
  "(\<And>L. L \<in> set Ls \<Longrightarrow> links m L) \<Longrightarrow> walkAllSizes m (map node_hd Ls) t l =
     Some (fold (\<lambda>n t. size_add t n) (map (mb_size m) (concat Ls)) t,
           fold (\<lambda>n l. max l n) (map (mb_size m) (concat Ls)) l)"
proof (induction Ls arbitrary: t l)
  case (Cons L Ls)
  then show ?case using walkSizes_list [of m "[]" L] by simp
qed simp

lemma fold_size_add:
  "t + sum_list ns < size_max \<Longrightarrow> fold (\<lambda>n t. size_add t n) ns t = t + sum_list ns"
  by (induction ns arbitrary: t) (auto simp: add.assoc)

lemma fold_max_Max: "fold (\<lambda>n l. max l n) ns (l :: nat) = Max (insert l (set ns))"
proof (induction ns arbitrary: l)
  case (Cons n ns)
  have "Max (insert (max l n) (set ns)) = Max (insert l (insert n (set ns)))"
    by (cases "set ns = {}") (simp_all add: ac_simps)
  then show ?case using Cons by simp
qed simp

text \<open>All free blocks, each once.\<close>

lemma free_lists:
  assumes "conc m heads B"
  obtains Ls where "heads = map node_hd Ls" "\<And>L. L \<in> set Ls \<Longrightarrow> links m L"
    "distinct (concat Ls)" "set (concat Ls) = free_blocks B"
proof -
  have "\<forall>i. \<exists>L. i < kBinCount \<longrightarrow> bin_ok m heads B i L" using assms by (auto simp: conc_def)
  then obtain f where f: "\<And>i. i < kBinCount \<Longrightarrow> bin_ok m heads B i (f i)" using choice by metis
  let ?Ls = "map f [0..<kBinCount]"
  have "heads = map node_hd ?Ls"
    using assms f by (intro nth_equalityI) (auto simp: conc_def bin_ok_def)
  moreover have "links m L" if "L \<in> set ?Ls" for L using that f by (auto simp: bin_ok_def)
  moreover have "distinct (concat (map f [0..<k]))" if "k \<le> kBinCount" for k
    using that
  proof (induction k)
    case (Suc k)
    have "set (f k) \<inter> (\<Union>i<k. set (f i)) = {}"
      using f Suc.prems bin_of_disjoint [of _ k] by (fastforce simp: bin_ok_def)
    then show ?case using Suc f [of k] by (auto simp: bin_ok_def lessThan_atLeast0)
  qed simp
  moreover have "set (concat ?Ls) = free_blocks B"
  proof -
    have "set (concat ?Ls) = (\<Union>i<kBinCount. bin_of B i)" using f by (auto simp: bin_ok_def)
    also have "\<dots> = free_blocks B" by (auto simp: bin_of_def free_blocks_def)
    finally show ?thesis .
  qed
  ultimately show thesis using that [of ?Ls] by blast
qed

text \<open>The free bytes fit in a word, for the blocks are disjoint parts of the address space.\<close>

lemma free_bytes_bound:
  assumes "layout_ok segs B"
  shows "finite (free_blocks B)" "(\<Sum>b \<in> free_blocks B. bsz (the (B b))) \<le> 2 ^ 56"
proof -
  have in': "{b..<b + bsz (the (B b))} \<subseteq> {..<2 ^ 56}" if "b \<in> free_blocks B" for b
    using that layout_blk(7) [OF assms, of b] by (auto simp: free_blocks_def)
  have "free_blocks B \<subseteq> {..<2 ^ 56}"
    using layout_blk(6,7) [OF assms] by (force simp: free_blocks_def)
  then show fin: "finite (free_blocks B)" by (rule finite_subset) simp
  have "(\<Sum>b \<in> free_blocks B. bsz (the (B b))) = (\<Sum>b \<in> free_blocks B. card {b..<b + bsz (the (B b))})" by simp
  also have "\<dots> = card (\<Union>b \<in> free_blocks B. {b..<b + bsz (the (B b))})"
  proof (rule card_UN_disjoint [symmetric])
    show "\<forall>b \<in> free_blocks B. \<forall>c \<in> free_blocks B. b \<noteq> c \<longrightarrow>
        {b..<b + bsz (the (B b))} \<inter> {c..<c + bsz (the (B c))} = {}"
      using layout_disjoint [OF assms] by (fastforce simp: free_blocks_def)
  qed (use fin in auto)
  also have "\<dots> \<le> card {..<2 ^ 56 :: nat}" using in' by (intro card_mono) auto
  finally show "(\<Sum>b \<in> free_blocks B. bsz (the (B b))) \<le> 2 ^ 56" by simp
qed

lemma externalFragmentation_heap:
  assumes "heap_ok m heap B"
  defines "F \<equiv> free_blocks B" and "s \<equiv> \<lambda>b. bsz (the (B b))"
  shows "externalFragmentation m heap = Some (if F = {} then 0 else 1 - real (Max (s ` F)) / real (sum s F))"
proof -
  note hp = heap_okD [OF assms(1)]
  obtain Ls where Ls: "bins heap = map node_hd Ls" "\<And>L. L \<in> set Ls \<Longrightarrow> links m L"
    "distinct (concat Ls)" "set (concat Ls) = F" using free_lists [OF hp(3)] unfolding F_def by blast
  have sz: "map (mb_size m) (concat Ls) = map s (concat Ls)"
  proof (rule map_cong [OF refl])
    fix b assume "b \<in> set (concat Ls)"
    then obtain x where "B b = Some x" using Ls(4) by (auto simp: F_def free_blocks_def)
    then show "mb_size m b = s b" using conc_mb_size [OF hp(3)] by (simp add: s_def)
  qed
  have total: "sum_list (map s (concat Ls)) = sum s F"
    using sum_list_distinct_conv_sum_set [OF Ls(3)] Ls(4) by simp
  have "sum s F \<le> 2 ^ 56" using free_bytes_bound(2) [OF hp(1)] by (simp add: F_def s_def)
  then have lt: "sum s F < size_max" by (simp add: size_max_def)
  have fin: "finite F" using free_bytes_bound(1) [OF hp(1)] by (simp add: F_def)
  have walk: "walkAllSizes m (bins heap) 0 0 = Some (sum s F, Max (insert 0 (s ` F)))"
    using walkAllSizes_list [of Ls m 0 0] Ls fold_size_add [of 0 "map s (concat Ls)"] total lt
    by (simp add: sz fold_max_Max del: map_concat)
  have pos: "0 < s b" if "b \<in> F" for b
    using that layout_blk(6) [OF hp(1), of b] by (auto simp: F_def free_blocks_def s_def)
  show ?thesis
  proof (cases "F = {}")
    case True
    then show ?thesis using walk by (simp add: externalFragmentation_def)
  next
    case False
    then have "sum s F \<noteq> 0" using pos fin by auto
    moreover have "Max (insert 0 (s ` F)) = Max (s ` F)" using False fin by simp
    ultimately show ?thesis using walk False by (simp add: externalFragmentation_def)
  qed
qed

section \<open>Requests\<close>






section \<open>The mappings of the heap\<close>

text \<open>Whatever the clients do, the heap holds its segments and nothing else, and leaves foreign memory alone.\<close>

lemma tier_foreign_kept:
  assumes "seg_reach os M0 M heap R" "os_ok os" "machine_ok M0"
  shows "set (mapped M) - set (segments heap) = set (mapped M0) \<and> (\<forall>x \<in> mapped_cells M0. mem M x = mem M0 x)"
proof -
  let ?P = "\<lambda>M heap. set (mapped M) - set (segments heap) = set (mapped M0) \<and> (\<forall>x \<in> mapped_cells M0. mem M x = mem M0 x)"
  have step: "?P M' heap'" if "?P M heap" "seg_inv os M heap R" "seg_inv os M' heap' R'"
    "tier_step E M (segments heap) M' (segments heap')" for M M' heap heap' R R' E
  proof -
    have "mem M' x = mem M x" if "x \<in> mapped_cells M0" for x
      using tier_step_foreign [OF \<open>tier_step E M (segments heap) M' (segments heap')\<close>, of x]
        medium.inv_machine [OF \<open>seg_inv os M heap R\<close>] medium.inv_machine [OF \<open>seg_inv os M' heap' R'\<close>] that \<open>?P M heap\<close>
      by (simp add: mapped_cells_def)
    then show ?thesis using that by (simp add: tier_step_def)
  qed
  note inv = seg_reach_inv [OF assms(2,3)]
  from assms(1) show ?thesis
  proof (induction rule: tier_reach.induct)
    case start
    then show ?case by (simp add: SegmentHeap_init_def)
  next
    case (null M heap R k n M' heap')
    have r: "seg_reach os M0 M' heap' R" by (rule tier_reach.null [OF null.hyps])
    show ?case by (rule step [OF null.IH inv [OF null.hyps(1)] inv [OF r] medium.alloc_step [OF inv [OF null.hyps(1)] null.hyps(2,3)]])
  next
    case (block M heap R k n p M' heap')
    note r = tier_reach.block [OF block.hyps]
    show ?case by (rule step [OF block.IH inv [OF block.hyps(1)] inv [OF r] medium.alloc_step [OF inv [OF block.hyps(1)] block.hyps(2,3)]])
  next
    case (release M heap R k p len M' heap')
    note r = tier_reach.release [OF release.hyps]
    show ?case by (rule step [OF release.IH inv [OF release.hyps(1)] inv [OF r] medium.free_step [OF inv [OF release.hyps(1)] release.hyps(2,3)]])
  next
    case (user_write M heap R M')
    note r = tier_reach.user_write [OF user_write.hyps]
    have "tier_step {} M (segments heap) M' (segments heap)"
      using user_write.hyps(2,3) medium.outstanding_cells [OF inv [OF user_write.hyps(1)]] by (intro tier_step_mem) auto
    then show ?case by (rule step [OF user_write.IH inv [OF user_write.hyps(1)] inv [OF r]])
  qed
qed

text \<open>A segment that is not the only one holds a payload in use: coalescing would have made it one free block.\<close>

lemma segment_in_use:
  assumes "heap_ok m heap B" "lonely (set (segments heap)) B" "(s, n) \<in> set (segments heap)"
    "set (segments heap) \<noteq> {(s, n)}"
  obtains b x where "B b = Some x" "\<not> bfr x" "s \<le> b" "b + bsz x \<le> s + n"
proof -
  note hp = heap_okD [OF assms(1)]
  have in_seg: "b + bsz x \<le> s + n \<and> (bls x \<longleftrightarrow> b + bsz x = s + n)" if b: "B b = Some x" "s \<le> b" "b < s + n" for b x
  proof -
    obtain s' n' where i: "(s', n') \<in> set (segments heap)" "s' \<le> b" "b + bsz x \<le> s' + n'" "bls x \<longleftrightarrow> b + bsz x = s' + n'"
      using layout_blk(4) [OF hp(1) b(1)] unfolding inside_def by blast
    have "(s', n') = (s, n)"
      using layout_segs(3) [OF hp(1) i(1) assms(3)] i(2,3) b layout_blk(6) [OF hp(1) b(1)] by (cases "(s', n') = (s, n)") auto
    then show ?thesis using i by simp
  qed
  obtain x where x: "B s = Some x" using layout_segs(1) [OF hp(1) assms(3)] by blast
  have xs: "s + bsz x \<le> s + n" "bls x \<longleftrightarrow> s + bsz x = s + n" using in_seg [OF x] layout_segs(2) [OF hp(1) assms(3)] by auto
  consider "\<not> bfr x" | "bfr x" "bls x" | "bfr x" "\<not> bls x" by blast
  then show thesis
  proof cases
    case 1
    then show thesis using that [OF x] xs(1) by simp
  next
    case 2
    then show thesis using assms(2,4) x xs layout_first [OF hp(1) x assms(3)] unfolding lonely_def by fastforce
  next
    case 3
    obtain y where y: "B (s + bsz x) = Some y" using layout_next [OF hp(1) x 3(2)] by blast
    have "\<not> bfr y" using hp(2) x y 3 unfolding coalesced_def by blast
    then show thesis using that [OF y] in_seg [OF y] xs 3 by auto
  qed
qed

section \<open>When an allocation fails\<close>


lemma addSegment_valid: "fst (addSegment os M heap) \<longleftrightarrow> MappedRegion_valid (fst (MappedRegion_make os kSegmentSize M))"
  by (simp add: addSegment_def Let_def split: prod.splits)


lemma distinct_singleton_list: "distinct xs \<Longrightarrow> set xs = {x} \<Longrightarrow> xs = [x]"
  by (cases xs; cases "List.tl xs") auto

section \<open>Properties\<close>


lemma linear_first_segment: "MappedRegion_valid (fst (MappedRegion_make linear_os kSegmentSize blank_machine))"
  by (subst linear_os_map)
    (simp_all add: blank_machine_def top_of_def const_simps MappedRegion_valid_def Let_def)

lemma first_segment:
  assumes "n + 16 \<le> kSegmentSize"
  obtains p M heap where "seg_alloc linear_os () n blank_machine SegmentHeap_init = Some (p, M, heap)" "p \<noteq> 0"
    "seg_reach linear_os blank_machine M heap {((), p, seg_capacity () M heap p)}"
proof -
  have ok: "fst (addSegment linear_os blank_machine SegmentHeap_init)"
    using linear_first_segment by (simp add: addSegment_valid)
  have n: "n + 32 < size_max" using assms by (simp add: const_simps)
  obtain p M heap where a: "SegmentHeap_allocate linear_os n blank_machine SegmentHeap_init = Some (p, M, heap)"
    and h: "handed_out linear_os n blank_machine SegmentHeap_init {} p M heap"
    by (rule SegmentHeap_allocate_cases [OF SegmentHeap_init_inv [OF linear_os_ok blank_machine_ok] n])
      (use ok needed_bounds(4) [OF n assms] in auto)
  have "0 < p" using h by (simp add: handed_out_def Let_def)
  moreover have "seg_admits () n" using n by (simp add: seg_admits_def)
  ultimately show thesis
    using that [of p M heap] a tier_reach.block [OF tier_reach.start, of seg_admits "()" n "seg_alloc linear_os"]
    by (simp add: seg_alloc_def)
qed


text \<open>
  C33: boundary tags and bins are always right: memory represents a tiling of the segments by
  blocks, each with its true size, neighbour size and place, whose blocks in use are those
  outstanding, every free block is in the bin of its size, and no two neighbours are both free.
\<close>

theorem segment_heap_coalesced:
  assumes "os_ok os" "machine_ok M0"
    "tier_reach seg_admits (seg_alloc os) (seg_free os) seg_capacity M0 SegmentHeap_init M heap R"
  shows "\<exists>B. conc (mem M) (bins heap) B \<and> layout_ok (set (segments heap)) B \<and> R = extents B \<and>
    (\<forall>b x. B b = Some x \<and> bfr x \<and> \<not> mb_isLast (mem M) b \<longrightarrow> \<not> mb_isFree (mem M) (nextBlock (mem M) b))"
proof -
  obtain B where B: "heap_ok (mem M) heap B" "R = extents B"
    using seg_reach_inv [OF assms] by (auto simp: seg_inv_def)
  note hp = heap_okD [OF B(1)]
  have "\<not> mb_isFree (mem M) (nextBlock (mem M) b)" if b: "B b = Some x" "bfr x" "\<not> mb_isLast (mem M) b" for b x
  proof -
    have ls: "\<not> bls x" using b conc_reads(4) [OF hp(3)] by auto
    obtain y where y: "B (b + bsz x) = Some y" using layout_next [OF hp(1) b(1) ls] by blast
    then have "\<not> bfr y" using hp(2) b ls unfolding coalesced_def by blast
    then show ?thesis using conc_reads(6) [OF hp(3) b(1)] conc_reads(2) [OF hp(3) y] by simp
  qed
  then show ?thesis using B hp by blast
qed

theorem segment_heap_coalesced_witness:
  "\<exists>(M :: machine) (heap :: SegmentHeap) p n B. conc (mem M) (bins heap) B \<and> {((), p, n)} = extents B"
proof -
  obtain p M heap where r: "seg_reach linear_os blank_machine M heap {((), p, seg_capacity () M heap p)}"
    by (rule first_segment [of 8192]) (auto simp: const_simps)
  from segment_heap_coalesced [OF linear_os_ok blank_machine_ok r] show ?thesis by blast
qed



text \<open>
  C35: in every reachable heap the memory mapped is what was mapped at the start, with its bytes
  untouched, and the heap's segments, each once; every segment that is not the only one holds a
  payload in use, so that a segment that becomes wholly free beside others has been unmapped, and
  once nothing is outstanding at most one segment is left.
\<close>

theorem segment_heap_returns_memory:
  assumes "os_ok os" "machine_ok M0"
    "tier_reach seg_admits (seg_alloc os) (seg_free os) seg_capacity M0 SegmentHeap_init M heap R"
  shows "set (mapped M) = set (mapped M0) \<union> set (segments heap) \<and>
    set (mapped M0) \<inter> set (segments heap) = {} \<and> distinct (mapped M) \<and> distinct (segments heap) \<and>
    (\<forall>x \<in> mapped_cells M0. mem M x = mem M0 x) \<and>
    (\<forall>r \<in> set (segments heap). segments heap = [r] \<or> (\<exists>e \<in> snd ` R. lies_in e r)) \<and>
    (R = {} \<longrightarrow> length (segments heap) \<le> 1)"
proof (intro conjI)
  have inv: "seg_inv os M heap R" by (rule seg_reach_inv [OF assms])
  obtain B where B: "heap_ok (mem M) heap B" "lonely (set (segments heap)) B" "R = extents B"
    using inv by (auto simp: seg_inv_def)
  note hp = heap_okD [OF B(1)]
  show "set (mapped M) = set (mapped M0) \<union> set (segments heap)"
    "set (mapped M0) \<inter> set (segments heap) = {}" "\<forall>x \<in> mapped_cells M0. mem M x = mem M0 x"
    using tier_foreign_kept [OF assms(3,1,2)] medium.inv_machine [OF inv] by auto
  show "distinct (mapped M)" "distinct (segments heap)"
    using machine_ok_distinct medium.inv_machine [OF inv] hp(4) by auto
  show used: "\<forall>r \<in> set (segments heap). segments heap = [r] \<or> (\<exists>e \<in> snd ` R. lies_in e r)"
  proof (intro ballI disjCI)
    fix r assume r: "r \<in> set (segments heap)" "\<not> (\<exists>e \<in> snd ` R. lies_in e r)"
    have "set (segments heap) = {(fst r, snd r)}"
    proof (rule ccontr)
      assume "set (segments heap) \<noteq> {(fst r, snd r)}"
      then obtain b x where b: "B b = Some x" "\<not> bfr x" "fst r \<le> b" "b + bsz x \<le> fst r + snd r"
        using segment_in_use [OF B(1,2), of "fst r" "snd r"] r(1) by auto
      have "lies_in (b + 16, bsz x - 16) r" using b layout_blk(6) [OF hp(1) b(1)] by (auto simp: lies_in_def)
      then show False using r(2) extentsI [of B b x] b(1,2) B(3) by force
    qed
    then show "segments heap = [r]" using hp(4) by (auto intro: distinct_singleton_list)
  qed
  show "R = {} \<longrightarrow> length (segments heap) \<le> 1" using used by (cases "segments heap") auto
qed

theorem segment_heap_returns_memory_witness:
  "\<exists>p M heap M' heap'. SegmentHeap_allocate linear_os 8192 blank_machine SegmentHeap_init = Some (p, M, heap) \<and>
     SegmentHeap_deallocate linear_os p M heap = (M', heap') \<and> length (mapped M') \<le> 1"
proof -
  obtain p M heap where a: "seg_alloc linear_os () 8192 blank_machine SegmentHeap_init = Some (p, M, heap)"
    and r: "seg_reach linear_os blank_machine M heap {((), p, seg_capacity () M heap p)}"
    by (rule first_segment [of 8192]) (auto simp: const_simps)
  obtain M' heap' where f: "seg_free linear_os () p M heap = (M', heap')" by (cases "seg_free linear_os () p M heap")
  have "seg_reach linear_os blank_machine M' heap' {}" using tier_reach.release [OF r _ f] by simp
  from segment_heap_returns_memory [OF linear_os_ok blank_machine_ok this]
  have w: "set (mapped M') = set (segments heap')" "distinct (mapped M')" "distinct (segments heap')"
    "length (segments heap') \<le> 1" by (simp_all add: blank_machine_def)
  then have "length (mapped M') = length (segments heap')" using distinct_card by metis
  then show ?thesis using w(4) a f by (auto simp: seg_alloc_def seg_free_def)
qed

text \<open>
  C36: allocating from the segment heap and giving a payload back leave every byte of the other
  outstanding payloads as it was.
\<close>

theorem segment_heap_keeps_user_data:
  assumes "os_ok os" "machine_ok M0"
    "tier_reach seg_admits (seg_alloc os) (seg_free os) seg_capacity M0 SegmentHeap_init M heap R"
    "(k, a, len) \<in> R" "a \<le> x" "x < a + len"
  shows "(\<forall>n p M' heap'. n + 32 < size_max \<longrightarrow> SegmentHeap_allocate os n M heap = Some (p, M', heap') \<longrightarrow>
      mem M' x = mem M x) \<and>
    (\<forall>p n M' heap'. ((), p, n) \<in> R - {(k, a, len)} \<longrightarrow> SegmentHeap_deallocate os p M heap = (M', heap') \<longrightarrow>
      mem M' x = mem M x)"
proof (intro conjI allI impI)
  note inv = seg_reach_inv [OF assms(1-3)]
  fix n p M' heap'
  show "mem M' x = mem M x" if "n + 32 < size_max" "SegmentHeap_allocate os n M heap = Some (p, M', heap')"
    using that medium.alloc_keeps_data [OF inv _ _ assms(4-6), of "()" n p M' heap']
    by (simp add: seg_admits_def seg_alloc_def)
  show "mem M' x = mem M x" if "((), p, n) \<in> R - {(k, a, len)}" "SegmentHeap_deallocate os p M heap = (M', heap')"
    using that assms(4-6) by (intro medium.free_keeps_data [OF inv, of "()" p n M' heap' k a len]) (auto simp: seg_free_def)
qed

theorem segment_heap_keeps_user_data_witness:
  "\<exists>M heap p len. tier_reach seg_admits (seg_alloc linear_os) (seg_free linear_os) seg_capacity blank_machine
     SegmentHeap_init M heap {((), p, len)} \<and> 8192 \<le> len \<and>
     (\<forall>n q M' heap'. n + 32 < size_max \<longrightarrow> SegmentHeap_allocate linear_os n M heap = Some (q, M', heap') \<longrightarrow>
       mem M' (p + 8191) = mem M (p + 8191))"
proof -
  obtain p M heap where a: "seg_alloc linear_os () 8192 blank_machine SegmentHeap_init = Some (p, M, heap)" "p \<noteq> 0"
    and r: "seg_reach linear_os blank_machine M heap {((), p, seg_capacity () M heap p)}"
    by (rule first_segment [of 8192]) (auto simp: const_simps)
  have "seg_admits () 8192" by (simp add: seg_admits_def size_max_def)
  from medium.alloc_fresh(1) [OF SegmentHeap_init_inv [OF linear_os_ok blank_machine_ok] this a]
  have len: "8192 \<le> seg_capacity () M heap p" .
  from conjunct1 [OF segment_heap_keeps_user_data [OF linear_os_ok blank_machine_ok r, of "()" p "seg_capacity () M heap p" "p + 8191"]] len r
  show ?thesis by (intro exI [of _ M] exI [of _ heap] exI [of _ p] exI [of _ "seg_capacity () M heap p"]) simp
qed

text \<open>
  C37: \<open>externalFragmentation\<close> returns the share of the free bytes outside the largest free block,
  which is at least 0 and below 1.
\<close>

theorem externalFragmentation_correct:
  assumes "os_ok os" "machine_ok M0"
    "tier_reach seg_admits (seg_alloc os) (seg_free os) seg_capacity M0 SegmentHeap_init M heap R"
  shows "\<exists>B f. conc (mem M) (bins heap) B \<and> R = extents B \<and> externalFragmentation (mem M) heap = Some f \<and>
    f = (if free_blocks B = {} then 0
         else 1 - real (Max ((\<lambda>b. mb_size (mem M) b) ` free_blocks B)) / real (\<Sum>b \<in> free_blocks B. mb_size (mem M) b)) \<and>
    0 \<le> f \<and> f < 1"
proof -
  obtain B where B: "heap_ok (mem M) heap B" "R = extents B"
    using seg_reach_inv [OF assms] by (auto simp: seg_inv_def)
  note hp = heap_okD [OF B(1)]
  let ?F = "free_blocks B" and ?s = "\<lambda>b. bsz (the (B b))"
  have sz: "mb_size (mem M) b = ?s b" "48 \<le> ?s b" if "b \<in> ?F" for b
    using that conc_mb_size [OF hp(3), of b] layout_blk(6) [OF hp(1), of b] by (auto simp: free_blocks_def)
  have fin: "finite ?F" using free_bytes_bound(1) [OF hp(1)] .
  have img: "(\<lambda>b. mb_size (mem M) b) ` ?F = ?s ` ?F" "(\<Sum>b \<in> ?F. mb_size (mem M) b) = sum ?s ?F"
    using sz(1) by (auto intro: image_cong sum.cong)
  have "0 < Max (?s ` ?F) \<and> Max (?s ` ?F) \<le> sum ?s ?F" if ne: "?F \<noteq> {}"
  proof -
    have "Max (?s ` ?F) \<in> ?s ` ?F" using fin ne by (intro Max_in) auto
    then obtain b where b: "b \<in> ?F" "Max (?s ` ?F) = ?s b" by blast
    then show ?thesis using sz(2) [OF b(1)] member_le_sum [of b ?F ?s] fin by simp
  qed
  moreover have "0 \<le> 1 - real a / real b \<and> 1 - real a / real b < 1" if "0 < a \<and> a \<le> b" for a b :: nat
    using that by (simp add: divide_le_eq_1)
  ultimately have range: "0 \<le> (if ?F = {} then 0 else 1 - real (Max (?s ` ?F)) / real (sum ?s ?F))"
    "(if ?F = {} then 0 else 1 - real (Max (?s ` ?F)) / real (sum ?s ?F)) < 1"
    by (cases "?F = {}"; simp del: of_nat_sum)+
  let ?f = "if ?F = {} then 0
    else 1 - real (Max ((\<lambda>b. mb_size (mem M) b) ` ?F)) / real (\<Sum>b \<in> ?F. mb_size (mem M) b)"
  have "0 \<le> ?f" "?f < 1" unfolding img by (rule range)+
  moreover have "externalFragmentation (mem M) heap = Some ?f"
    unfolding img by (rule externalFragmentation_heap [OF B(1)])
  ultimately show ?thesis using hp(3) B(2) by blast
qed

theorem externalFragmentation_correct_witness:
  "\<exists>f. externalFragmentation (mem blank_machine) SegmentHeap_init = Some f \<and> 0 \<le> f \<and> f < 1"
  using externalFragmentation_correct [OF linear_os_ok blank_machine_ok tier_reach.start] by blast

end
