(* ===== verification/SizeClassTable.thy ===== *)
theory SizeClassTable
  imports BlockHeader
begin

text \<open>
  The size-class table of \<^verbatim>\<open>src/SizeClassTable.hpp\<close>: the thirty class sizes, the lookup table
  computed by the source's two nested loops, and the constant-time \<open>classIndex\<close>.  A lookup past
  the end of the table, undefined in the source, is \<^term>\<open>None\<close>.  The lemmas show that the loops
  stay inside the table of sizes and that \<open>classIndex\<close> picks the smallest class that fits.
\<close>

section \<open>The table\<close>

definition kClassCount :: nat where
  [const_simps]: "kClassCount = 30"

definition kClassSizes :: "nat list" where
  "kClassSizes =
     [8, 16, 24, 32, 48, 64, 80, 96, 112, 128, 160, 192, 224, 256, 320,
      384, 448, 512, 640, 768, 896, 1024, 1280, 1536, 1792, 2048, 2560, 3072, 3584, 4096]"

definition kGranularity :: nat where
  [const_simps]: "kGranularity = 8"

definition kLookupSize :: nat where
  "kLookupSize = kSmallMax div kGranularity + 1"

text \<open>
  The inner loop \<^verbatim>\<open>while (kClassSizes[classIdx] < size) ++classIdx;\<close>.  Running off the table
  would be an error of the constant expression; it is \<^term>\<open>None\<close>.
\<close>

function advance :: "nat \<Rightarrow> nat \<Rightarrow> nat option" where
  "advance sz classIdx =
     (if classIdx < kClassCount
      then if kClassSizes ! classIdx < sz then advance sz (Suc classIdx) else Some classIdx
      else None)"
  by pat_completeness auto
termination
  by (relation "measure (\<lambda>(sz, i). kClassCount - i)") auto

declare advance.simps [simp del]

text \<open>
  The outer loop over the slots: \<open>classIdx\<close> is carried from slot to slot, and each entry is cut
  to eight bits by the cast to \<^verbatim>\<open>std::uint8_t\<close>.
\<close>

fun fill_table :: "nat list \<Rightarrow> nat \<Rightarrow> nat list option" where
  "fill_table [] classIdx = Some []"
| "fill_table (slot # slots) classIdx =
     do {
       c \<leftarrow> advance (slot * kGranularity) classIdx;
       rest \<leftarrow> fill_table slots c;
       Some (c mod 256 # rest)
     }"

definition kLookup :: "nat list option" where
  "kLookup = fill_table [0..<kLookupSize] 0"

definition classIndex :: "nat \<Rightarrow> nat option" where
  "classIndex sz =
     do {
       table \<leftarrow> kLookup;
       let slot = size_sub (size_add sz kGranularity) 1 div kGranularity;
       if slot < length table then Some (table ! slot) else None
     }"

definition classSize :: "nat \<Rightarrow> nat" where
  "classSize index = kClassSizes ! index"

section \<open>Lemmas\<close>

lemma length_kClassSizes [simp]: "length kClassSizes = kClassCount"
  by (simp add: kClassSizes_def const_simps)

lemma sorted_kClassSizes: "sorted_wrt (<) kClassSizes"
  by (simp add: kClassSizes_def)

lemma last_kClassSizes: "kClassSizes ! 29 = 4096"
  by (simp add: kClassSizes_def)

lemma kClassSizes_mono: "i < j \<Longrightarrow> j < kClassCount \<Longrightarrow> kClassSizes ! i < kClassSizes ! j"
  using sorted_wrt_nth_less [OF sorted_kClassSizes] by simp

lemma kClassSizes_in: "i < kClassCount \<Longrightarrow> kClassSizes ! i \<in> set kClassSizes"
  by (simp add: nth_mem)

lemma kClassSizes_range: "i < kClassCount \<Longrightarrow> 8 \<le> kClassSizes ! i \<and> kClassSizes ! i \<le> 4096"
  using kClassSizes_in [of i] by (auto simp: kClassSizes_def)

lemma kClassSizes_dvd: "i < kClassCount \<Longrightarrow> 8 dvd kClassSizes ! i"
  using kClassSizes_in [of i] by (auto simp: kClassSizes_def)

text \<open>\<open>smallest_class\<close> names what the table is for: the least class that holds a size.\<close>

definition smallest_class :: "nat \<Rightarrow> nat \<Rightarrow> bool" where
  "smallest_class sz c \<longleftrightarrow>
     c < kClassCount \<and> sz \<le> kClassSizes ! c \<and> (\<forall>d < c. kClassSizes ! d < sz)"

lemma advance_smallest:
  assumes "sz \<le> 4096" "i < kClassCount" "\<forall>d < i. kClassSizes ! d < sz"
  shows "\<exists>c. advance sz i = Some c \<and> smallest_class sz c"
  using assms
proof (induction sz i rule: advance.induct)
  case (1 sz i)
  show ?case
  proof (cases "kClassSizes ! i < sz")
    case True
    then have "i \<noteq> 29" using "1.prems"(1) last_kClassSizes by auto
    then have "Suc i < kClassCount" using "1.prems"(2) by (simp add: const_simps)
    moreover have "\<forall>d < Suc i. kClassSizes ! d < sz"
      using "1.prems"(3) True by (simp add: less_Suc_eq)
    ultimately have "\<exists>c. advance sz (Suc i) = Some c \<and> smallest_class sz c"
      using "1.IH" "1.prems" True by blast
    then show ?thesis using True "1.prems" by (simp add: advance.simps [of sz i])
  next
    case False
    then show ?thesis using "1.prems" by (auto simp: advance.simps [of sz i] smallest_class_def)
  qed
qed

lemma fill_table_smallest:
  assumes "sorted slots" "\<forall>s \<in> set slots. s * kGranularity \<le> 4096"
    and "i < kClassCount" "slots \<noteq> [] \<Longrightarrow> \<forall>d < i. kClassSizes ! d < hd slots * kGranularity"
  shows "\<exists>t. fill_table slots i = Some t \<and> length t = length slots \<and>
           (\<forall>j < length slots. smallest_class (slots ! j * kGranularity) (t ! j))"
  using assms
proof (induction slots arbitrary: i)
  case Nil
  then show ?case by simp
next
  case (Cons s slots)
  obtain c where c: "advance (s * kGranularity) i = Some c" "smallest_class (s * kGranularity) c"
    using advance_smallest [of "s * kGranularity" i] Cons.prems by auto
  have le: "slots \<noteq> [] \<Longrightarrow> s \<le> hd slots"
    using Cons.prems(1) by (cases slots) auto
  have "\<forall>d < c. kClassSizes ! d < s * kGranularity"
    using c(2) by (simp add: smallest_class_def)
  with le have below: "slots \<noteq> [] \<Longrightarrow> \<forall>d < c. kClassSizes ! d < hd slots * kGranularity"
    by (meson less_le_trans mult_le_mono1)
  obtain t where t: "fill_table slots c = Some t" "length t = length slots"
    "\<forall>j < length slots. smallest_class (slots ! j * kGranularity) (t ! j)"
    using Cons.IH [of c] Cons.prems below c(2) by (auto simp: smallest_class_def)
  have "c mod 256 = c" using c(2) by (simp add: smallest_class_def const_simps)
  then show ?case
    using c t by (auto simp: nth_Cons split: nat.split)
qed

lemma kLookup_smallest:
  "\<exists>t. kLookup = Some t \<and> length t = kLookupSize \<and>
       (\<forall>j < kLookupSize. smallest_class (j * kGranularity) (t ! j))"
  using fill_table_smallest [of "[0..<kLookupSize]" 0]
  by (auto simp: kLookup_def kLookupSize_def const_simps hd_upt)

lemma smallest_class_round:
  assumes "smallest_class ((sz + 7) div 8 * 8) c"
  shows "smallest_class sz c"
proof -
  have "kClassSizes ! d < sz" if "d < c" for d
  proof -
    have d: "d < kClassCount" using that assms by (simp add: smallest_class_def)
    have "kClassSizes ! d < (sz + 7) div 8 * 8" using that assms by (simp add: smallest_class_def)
    moreover obtain q where "kClassSizes ! d = 8 * q" using kClassSizes_dvd [OF d] ..
    ultimately show ?thesis by simp
  qed
  moreover have "sz \<le> (sz + 7) div 8 * 8" by simp
  ultimately show ?thesis using assms by (auto simp: smallest_class_def)
qed

lemma classIndex_smallest:
  assumes "sz \<le> kSmallMax"
  shows "\<exists>c. classIndex sz = Some c \<and> smallest_class sz c"
proof -
  obtain t where t: "kLookup = Some t" "length t = kLookupSize"
    "\<forall>j < kLookupSize. smallest_class (j * kGranularity) (t ! j)"
    using kLookup_smallest by blast
  have slot: "(sz + 7) div 8 < kLookupSize"
    using assms by (simp add: kLookupSize_def const_simps)
  have "size_sub (size_add sz kGranularity) 1 div kGranularity = (sz + 7) div 8"
    using assms by (simp add: const_simps)
  then have "classIndex sz = Some (t ! ((sz + 7) div 8))"
    using slot by (simp add: classIndex_def t(1,2) Let_def)
  moreover have "smallest_class ((sz + 7) div 8 * 8) (t ! ((sz + 7) div 8))"
    using t(3) slot by (simp add: const_simps)
  ultimately show ?thesis using smallest_class_round by blast
qed

lemma smallest_class_unique:
  "smallest_class sz c \<Longrightarrow> smallest_class sz d \<Longrightarrow> c = d"
  by (metis linorder_neqE_nat not_le smallest_class_def)

lemma classIndex_eq: "sz \<le> kSmallMax \<Longrightarrow> smallest_class sz c \<Longrightarrow> classIndex sz = Some c"
  using classIndex_smallest smallest_class_unique by blast

lemma classIndex_SomeD:
  assumes "sz \<le> kSmallMax" "classIndex sz = Some c"
  shows "c < kClassCount" "sz \<le> classSize c"
  using classIndex_smallest [OF assms(1)] assms(2) by (auto simp: smallest_class_def classSize_def)

text \<open>Neighbouring classes above 64 bytes are less than a fifth of the larger one apart.\<close>

lemma class_gaps_list:
  "list_all (\<lambda>(a, b). 5 * (b - a - 1) < b) (zip (drop 5 kClassSizes) (drop 6 kClassSizes))"
  by (simp add: kClassSizes_def)

lemma class_gaps:
  assumes "c < kClassCount" "6 \<le> c"
  shows "5 * (kClassSizes ! c - kClassSizes ! (c - 1) - 1) < kClassSizes ! c"
proof -
  have "c - 6 < length (zip (drop 5 kClassSizes) (drop 6 kClassSizes))"
    using assms by (simp add: const_simps)
  then have "(\<lambda>(a, b). 5 * (b - a - 1) < b) (zip (drop 5 kClassSizes) (drop 6 kClassSizes) ! (c - 6))"
    using class_gaps_list by (simp only: list_all_length)
  moreover have "5 + (c - 6) = c - 1" using assms by simp
  ultimately show ?thesis using assms by (simp add: const_simps)
qed

lemma smallest_classI:
  assumes "c < kClassCount" "sz \<le> kClassSizes ! c" "0 < c \<Longrightarrow> kClassSizes ! (c - 1) < sz"
  shows "smallest_class sz c"
proof -
  have "kClassSizes ! d < sz" if "d < c" for d
  proof (cases "d = c - 1")
    case False
    then have "kClassSizes ! d < kClassSizes ! (c - 1)"
      using that assms(1) by (intro kClassSizes_mono) auto
    also have "\<dots> < sz" using that by (intro assms(3)) simp
    finally show ?thesis .
  qed (use that assms(3) in simp)
  then show ?thesis using assms by (simp add: smallest_class_def)
qed

lemma classIndex_257: "classIndex 257 = Some 14"
  by (intro classIndex_eq smallest_classI) (simp_all add: const_simps kClassSizes_def)

lemma smallest_class_waste:
  assumes "64 < sz" "smallest_class sz c"
  shows "5 * (kClassSizes ! c - sz) < kClassSizes ! c"
proof -
  have le: "sz \<le> kClassSizes ! c" and c: "c < kClassCount" using assms by (auto simp: smallest_class_def)
  have "\<not> c < 6"
  proof
    assume "c < 6"
    then have "c \<in> {0, 1, 2, 3, 4, 5}" by auto
    then have "kClassSizes ! c \<le> 64" by (auto simp: kClassSizes_def)
    then show False using le assms(1) by simp
  qed
  then have gap: "5 * (kClassSizes ! c - kClassSizes ! (c - 1) - 1) < kClassSizes ! c"
    using c by (intro class_gaps) auto
  have "kClassSizes ! (c - 1) < sz"
    using assms \<open>\<not> c < 6\<close> by (simp add: smallest_class_def)
  then have "kClassSizes ! c - sz \<le> kClassSizes ! c - kClassSizes ! (c - 1) - 1" by simp
  then show ?thesis using gap by linarith
qed

section \<open>Properties\<close>

text \<open>
  C29: for every small request, the table built by the nested loops and indexed in constant time
  gives a class that exists, is large enough, and is the smallest one that is.
\<close>

theorem classIndex_smallest_fit:
  assumes "sz \<le> kSmallMax"
  shows "\<exists>c. classIndex sz = Some c \<and> c < kClassCount \<and> sz \<le> classSize c \<and>
           (\<forall>d < c. classSize d < sz)"
  using classIndex_smallest [OF assms] by (auto simp: smallest_class_def classSize_def)

theorem classIndex_smallest_fit_witness:
  "\<exists>c. classIndex 1000 = Some c \<and> c < kClassCount \<and> 1000 \<le> classSize c \<and>
       (\<forall>d < c. classSize d < 1000)"
  by (rule classIndex_smallest_fit) (simp add: const_simps)

text \<open>
  C30: a request above 64 bytes loses less than a fifth of its class to rounding, and this bound is
  nearly reached: a request of 257 bytes is served from the 320-byte class and loses 63 bytes, more than
  19 percent of it.  The architecture document says "roughly 12 percent".
\<close>

theorem classIndex_waste_bound:
  "(\<forall>sz c. 64 < sz \<and> sz \<le> kSmallMax \<and> classIndex sz = Some c \<longrightarrow> 5 * (classSize c - sz) < classSize c) \<and>
   classIndex 257 = Some 14 \<and> classSize 14 = 320 \<and> 19 * classSize 14 < 100 * (classSize 14 - 257)"
proof (intro conjI allI impI)
  fix sz c assume a: "64 < sz \<and> sz \<le> kSmallMax \<and> classIndex sz = Some c"
  then show "5 * (classSize c - sz) < classSize c"
    using smallest_class_waste [of sz] classIndex_smallest [of sz] by (auto simp: classSize_def)
qed (simp_all add: classIndex_257 classSize_def kClassSizes_def)

theorem classIndex_waste_bound_witness: "5 * (classSize 14 - 257) < classSize 14"
proof -
  have "64 < (257 :: nat) \<and> 257 \<le> kSmallMax \<and> classIndex 257 = Some 14" by (simp add: classIndex_257 const_simps)
  then show ?thesis using conjunct1 [OF classIndex_waste_bound] by blast
qed

end
