(* ===== verification/FreeList.thy ===== *)
theory FreeList
  imports BlockHeader
begin

text \<open>
  The intrusive free list of \<^verbatim>\<open>src/FreeList.hpp\<close>: a head pointer and a counter, with the link of
  every node stored in the first eight bytes of the free block itself.  The list a head pointer
  stands for is read off memory by \<open>linked\<close>; the locale \<open>block_stack\<close> is the contract a client
  relies on (a stack of blocks), proved here for the list in memory.
\<close>

section \<open>The code\<close>

record FreeList =
  fl_head :: addr
  fl_size :: nat

definition FreeList_empty_list :: FreeList where
  "FreeList_empty_list = \<lparr>fl_head = 0, fl_size = 0\<rparr>"

definition FreeList_push :: "addr \<Rightarrow> memory \<times> FreeList \<Rightarrow> memory \<times> FreeList" where
  "FreeList_push block = (\<lambda>(m, fl).
     (write64 block (fl_head fl) m, fl\<lparr>fl_head := block, fl_size := size_add (fl_size fl) 1\<rparr>))"

definition FreeList_pop :: "memory \<Rightarrow> FreeList \<Rightarrow> addr \<times> FreeList" where
  "FreeList_pop m fl =
     (if fl_head fl = 0 then (0, fl)
      else (fl_head fl, fl\<lparr>fl_head := read64 m (fl_head fl), fl_size := size_sub (fl_size fl) 1\<rparr>))"

text \<open>The loop of \<open>popBatch\<close>; the number of blocks is the length of the result.\<close>

fun FreeList_popBatch :: "memory \<Rightarrow> nat \<Rightarrow> FreeList \<Rightarrow> addr list \<times> FreeList" where
  "FreeList_popBatch m 0 fl = ([], fl)"
| "FreeList_popBatch m (Suc room) fl =
     (let (block, fl') = FreeList_pop m fl in
      if block = 0 then ([], fl')
      else let (blocks, fl'') = FreeList_popBatch m room fl' in (block # blocks, fl''))"

definition FreeList_empty :: "FreeList \<Rightarrow> bool" where
  "FreeList_empty fl \<longleftrightarrow> fl_head fl = 0"

definition FreeList_size :: "FreeList \<Rightarrow> nat" where
  "FreeList_size fl = fl_size fl"

section \<open>Contract of a stack of blocks\<close>

text \<open>
  \<open>rep m f xs\<close>: in memory \<open>m\<close> the list \<open>f\<close> holds the blocks \<open>xs\<close>, the next one to be popped
  first.  The links live in the first eight bytes of each block, so the representation only
  depends on these.
\<close>

locale block_stack =
  fixes push :: "addr \<Rightarrow> memory \<times> 'f \<Rightarrow> memory \<times> 'f"
    and pop :: "memory \<Rightarrow> 'f \<Rightarrow> addr \<times> 'f"
    and rep :: "memory \<Rightarrow> 'f \<Rightarrow> addr list \<Rightarrow> bool"
  assumes rep_push: "rep m f xs \<Longrightarrow> 0 < b \<Longrightarrow> b < size_max \<Longrightarrow> length xs < size_max - 1 \<Longrightarrow>
      \<forall>x \<in> set xs. apart (b, 8) (x, 8) \<Longrightarrow> push b (m, f) = (m', f') \<Longrightarrow> rep m' f' (b # xs)"
    and push_frame: "push b (m, f) = (m', f') \<Longrightarrow> x < b \<or> b + 8 \<le> x \<Longrightarrow> m' x = m x"
    and pop_Nil: "rep m f [] \<Longrightarrow> pop m f = (0, f)"
    and pop_Cons: "rep m f (x # xs) \<Longrightarrow> \<exists>f'. pop m f = (x, f') \<and> rep m f' xs"
    and rep_nonnull: "rep m f xs \<Longrightarrow> \<forall>x \<in> set xs. 0 < x"
    and rep_frame: "rep m f xs \<Longrightarrow> \<forall>x \<in> set xs. \<forall>y. x \<le> y \<and> y < x + 8 \<longrightarrow> m' y = m y \<Longrightarrow>
      rep m' f xs"
begin

lemma pop_cases:
  assumes "rep m f xs" "pop m f = (b, f')"
  obtains (none) "xs = []" "b = 0" "f' = f" | (some) ys where "xs = b # ys" "0 < b" "rep m f' ys"
proof (cases xs)
  case Nil
  then show thesis using assms none pop_Nil [of m f] by auto
next
  case (Cons x ys)
  then show thesis
    using assms some [of ys] pop_Cons [of m f x ys] rep_nonnull [of m f xs] by auto
qed

text \<open>A push and a pop undo each other on the represented list.\<close>

lemma push_pop:
  assumes "rep m f xs" "0 < b" "b < size_max" "length xs < size_max - 1"
    "\<forall>x \<in> set xs. apart (b, 8) (x, 8)" "push b (m, f) = (m', f')"
  shows "\<exists>f''. pop m' f' = (b, f'') \<and> rep m' f'' xs"
  using pop_Cons [OF rep_push [OF assms]] .

text \<open>The loop of the callers that push a whole batch.\<close>

lemma rep_push_all:
  assumes "rep m f xs" "sorted_wrt (\<lambda>b c. apart (b, 8) (c, 8)) bs"
    "\<forall>b \<in> set bs. 0 < b \<and> b < size_max \<and> (\<forall>x \<in> set xs. apart (b, 8) (x, 8))"
    "length xs + length bs < size_max" "fold push bs (m, f) = (m', f')"
  shows "rep m' f' (rev bs @ xs)"
  using assms
proof (induction bs arbitrary: m f xs)
  case Nil
  then show ?case by simp
next
  case (Cons b bs)
  obtain m1 f1 where p: "push b (m, f) = (m1, f1)" by (cases "push b (m, f)")
  have rep1: "rep m1 f1 (b # xs)"
    using Cons.prems by (intro rep_push [OF Cons.prems(1) _ _ _ _ p]) auto
  have "rep m' f' (rev bs @ b # xs)"
  proof (rule Cons.IH [OF rep1])
    show "sorted_wrt (\<lambda>b c. apart (b, 8) (c, 8)) bs" using Cons.prems(2) by simp
    show "\<forall>c \<in> set bs. 0 < c \<and> c < size_max \<and> (\<forall>x \<in> set (b # xs). apart (c, 8) (x, 8))"
      using Cons.prems(2,3) by (auto simp: apart_sym)
    show "length (b # xs) + length bs < size_max" using Cons.prems(4) by simp
    show "fold push bs (m1, f1) = (m', f')" using Cons.prems(5) p by simp
  qed
  then show ?case by simp
qed

lemma push_all_frame:
  "fold push bs (m, f) = (m', f') \<Longrightarrow> \<forall>b \<in> set bs. x < b \<or> b + 8 \<le> x \<Longrightarrow> m' x = m x"
proof (induction bs arbitrary: m f)
  case Nil
  then show ?case by simp
next
  case (Cons b bs)
  obtain m1 f1 where p: "push b (m, f) = (m1, f1)" by (cases "push b (m, f)")
  have "m' x = m1 x" using Cons.prems p by (intro Cons.IH [of m1 f1]) auto
  also have "\<dots> = m x" using push_frame [OF p] Cons.prems(2) by simp
  finally show ?case .
qed

end

section \<open>The list in memory\<close>

fun linked :: "memory \<Rightarrow> addr \<Rightarrow> addr list \<Rightarrow> bool" where
  "linked m p [] \<longleftrightarrow> p = 0"
| "linked m p (x # xs) \<longleftrightarrow> p = x \<and> 0 < x \<and> x < size_max \<and> linked m (read64 m x) xs"

definition FreeList_rep :: "memory \<Rightarrow> FreeList \<Rightarrow> addr list \<Rightarrow> bool" where
  "FreeList_rep m fl xs \<longleftrightarrow> linked m (fl_head fl) xs \<and> fl_size fl = length xs \<and> length xs < size_max"

lemma linked_frame:
  "linked m p xs \<Longrightarrow> \<forall>x \<in> set xs. \<forall>y. x \<le> y \<and> y < x + 8 \<longrightarrow> m' y = m y \<Longrightarrow> linked m' p xs"
proof (induction xs arbitrary: p)
  case Nil
  then show ?case by simp
next
  case (Cons x xs)
  have "read64 m' x = read64 m x" using Cons.prems(2) by (intro read_le_cong) auto
  then show ?case using Cons by simp
qed

lemma linked_nonnull: "linked m p xs \<Longrightarrow> \<forall>x \<in> set xs. 0 < x"
  by (induction xs arbitrary: p) auto

interpretation freelist: block_stack FreeList_push FreeList_pop FreeList_rep
proof unfold_locales
  fix m m' :: memory and f f' :: FreeList and xs :: "addr list" and b :: addr
  assume rep: "FreeList_rep m f xs" and b: "0 < b" "b < size_max" and len: "length xs < size_max - 1"
    and ap: "\<forall>x \<in> set xs. apart (b, 8) (x, 8)" and p: "FreeList_push b (m, f) = (m', f')"
  have m': "m' = write64 b (fl_head f) m" and f': "fl_head f' = b" "fl_size f' = size_add (fl_size f) 1"
    using p by (auto simp: FreeList_push_def)
  have hd: "fl_head f < size_max" using rep by (cases xs) (auto simp: FreeList_rep_def size_max_def)
  have same: "\<forall>x \<in> set xs. \<forall>y. x \<le> y \<and> y < x + 8 \<longrightarrow> m' y = m y"
    using ap by (auto simp: m' write_le_def)
  have "linked m (fl_head f) xs" using rep by (simp add: FreeList_rep_def)
  from linked_frame [OF this same] have "linked m' (fl_head f) xs" .
  then show "FreeList_rep m' f' (b # xs)"
    using b len rep hd by (simp add: FreeList_rep_def f' m' read64_write64_same)
next
  fix m m' :: memory and f f' :: FreeList and b x :: addr
  assume "FreeList_push b (m, f) = (m', f')" "x < b \<or> b + 8 \<le> x"
  then show "m' x = m x" by (auto simp: FreeList_push_def mem_simps)
next
  fix m :: memory and f :: FreeList
  assume "FreeList_rep m f []"
  then show "FreeList_pop m f = (0, f)" by (simp add: FreeList_rep_def FreeList_pop_def)
next
  fix m :: memory and f :: FreeList and x :: addr and xs :: "addr list"
  assume rep: "FreeList_rep m f (x # xs)"
  then have "FreeList_pop m f = (x, f\<lparr>fl_head := read64 m x, fl_size := length xs\<rparr>)"
    by (auto simp: FreeList_rep_def FreeList_pop_def)
  then show "\<exists>f'. FreeList_pop m f = (x, f') \<and> FreeList_rep m f' xs"
    using rep by (auto simp: FreeList_rep_def)
next
  fix m :: memory and f :: FreeList and xs :: "addr list"
  assume "FreeList_rep m f xs"
  then show "\<forall>x \<in> set xs. 0 < x" by (auto simp: FreeList_rep_def dest: linked_nonnull)
next
  fix m m' :: memory and f :: FreeList and xs :: "addr list"
  assume "FreeList_rep m f xs" "\<forall>x \<in> set xs. \<forall>y. x \<le> y \<and> y < x + 8 \<longrightarrow> m' y = m y"
  then show "FreeList_rep m' f xs" using linked_frame [of m "fl_head f" xs m'] by (simp add: FreeList_rep_def)
qed

lemma FreeList_popBatch_rep:
  "FreeList_rep m fl xs \<Longrightarrow>
   \<exists>fl'. FreeList_popBatch m n fl = (take n xs, fl') \<and> FreeList_rep m fl' (drop n xs)"
proof (induction m n fl arbitrary: xs rule: FreeList_popBatch.induct)
  case (1 m fl)
  then show ?case by simp
next
  case (2 m room fl)
  obtain b fl' where p: "FreeList_pop m fl = (b, fl')" by (cases "FreeList_pop m fl")
  from "2.prems" p show ?case
  proof (cases rule: freelist.pop_cases)
    case none
    then show ?thesis using p "2.prems" by simp
  next
    case (some ys)
    obtain fl'' where "FreeList_popBatch m room fl' = (take room ys, fl'')"
      "FreeList_rep m fl'' (drop room ys)"
      using "2.IH" [OF p [symmetric] refl _ some(3)] some(2) by auto
    then show ?thesis using p some by simp
  qed
qed

section \<open>Properties\<close>

text \<open>
  On the list a free list stands for, \<open>push\<close> is cons: it links the block in front, counts it,
  and writes nothing but the block's first eight bytes.
\<close>

lemma FreeList_push_refines_cons:
  assumes "FreeList_rep m fl xs" "0 < b" "b < size_max" "length xs < size_max - 1"
    "\<forall>x \<in> set xs. apart (b, 8) (x, 8)" "FreeList_push b (m, fl) = (m', fl')"
  shows "FreeList_rep m' fl' (b # xs) \<and> FreeList_size fl' = FreeList_size fl + 1 \<and>
    (\<forall>x. x < b \<or> b + 8 \<le> x \<longrightarrow> m' x = m x)"
  using freelist.rep_push [OF assms] freelist.push_frame [OF assms(6)] assms(1)
  by (simp add: FreeList_size_def FreeList_rep_def)

text \<open>
  C28: \<open>popBatch\<close> removes the first blocks of the list, at most as many as the span holds, in the
  order single pops would give them, and stops at the end of the list.
\<close>

theorem FreeList_popBatch_refines_take:
  assumes "FreeList_rep m fl xs"
  shows "\<exists>fl'. FreeList_popBatch m n fl = (take n xs, fl') \<and> FreeList_rep m fl' (drop n xs) \<and>
    (FreeList_empty fl' \<longleftrightarrow> length xs \<le> n)"
proof -
  obtain fl' where fl': "FreeList_popBatch m n fl = (take n xs, fl')" "FreeList_rep m fl' (drop n xs)"
    using FreeList_popBatch_rep [OF assms] by blast
  have "FreeList_empty fl' \<longleftrightarrow> drop n xs = []"
    using fl'(2) by (cases "drop n xs") (auto simp: FreeList_rep_def FreeList_empty_def)
  then show ?thesis using fl' by simp
qed

theorem FreeList_popBatch_refines_take_witness:
  "\<exists>m fl fl'. FreeList_rep m fl [4096, 8192] \<and> FreeList_popBatch m 1 fl = ([4096], fl') \<and>
     FreeList_rep m fl' [8192]"
proof -
  let ?m = "write64 4096 8192 (\<lambda>_. 0)" and ?fl = "\<lparr>fl_head = 4096, fl_size = 2\<rparr>"
  have "read64 (\<lambda>_. 0) 8192 = 0" by (simp add: numeral_eq_Suc)
  then have rep: "FreeList_rep ?m ?fl [4096, 8192]"
    by (simp add: FreeList_rep_def mem_simps size_max_def)
  show ?thesis using rep FreeList_popBatch_refines_take [OF rep, of 1] by auto
qed

end
