(* ===== verification/PoolAllocator.thy ===== *)
theory PoolAllocator
  imports SizeClassTable FreeList TierContract
begin

text \<open>
  The small tier, \<^verbatim>\<open>src/PoolAllocator.hpp\<close> and \<^verbatim>\<open>src/PoolAllocator.cpp\<close>: thirty shards, each a free
  list, a bump region inside the newest run, and the runs mapped so far.  Every operation runs
  under its shard's mutex and is one atomic step of the model.  A class index past the last shard,
  undefined in the source, is \<^term>\<open>None\<close>.

  The invariant of a shard says where its blocks are: free ones, outstanding ones and the bump
  region are pairwise apart and inside its runs.  The pools satisfy the \<open>tier\<close> contract, with the
  class index as the key of an extent.
\<close>

section \<open>The code\<close>

record Shard =
  freeList :: FreeList
  bumpCursor :: addr
  bumpEnd :: addr
  runs :: "region list"

definition Shard_init :: Shard where
  "Shard_init = \<lparr>freeList = FreeList_empty_list, bumpCursor = 0, bumpEnd = 0, runs = []\<rparr>"

type_synonym PoolAllocator = "Shard list"

definition PoolAllocator_init :: PoolAllocator where
  "PoolAllocator_init = replicate kClassCount Shard_init"

definition kRunSize :: nat where
  [const_simps]: "kRunSize = 64 * 1024"

definition blockStride :: "nat \<Rightarrow> nat" where
  "blockStride index = alignUp (size_add kHeaderSize (classSize index)) kDefaultAlignment"

definition refill :: "os \<Rightarrow> machine \<Rightarrow> Shard \<Rightarrow> bool \<times> machine \<times> Shard" where
  "refill os M shard =
     (let (run, M') = MappedRegion_make os kRunSize M in
      if \<not> MappedRegion_valid run then (False, M', shard)
      else (True, M', shard\<lparr>bumpCursor := fst run, bumpEnd := fst run + snd run,
                            runs := runs shard @ [run]\<rparr>))"

text \<open>The tail of \<open>takeBlock\<close>: cut a block off the bump region.\<close>

definition bump :: "nat \<Rightarrow> Shard \<Rightarrow> addr \<times> Shard" where
  "bump stride shard = (bumpCursor shard, shard\<lparr>bumpCursor := bumpCursor shard + stride\<rparr>)"

definition takeBlock :: "os \<Rightarrow> nat \<Rightarrow> machine \<Rightarrow> Shard \<Rightarrow> addr \<times> machine \<times> Shard" where
  "takeBlock os stride M shard =
     (let (block, fl) = FreeList_pop (mem M) (freeList shard) in
      if block \<noteq> 0 then (block, M, shard\<lparr>freeList := fl\<rparr>)
      else if bumpCursor shard = 0 \<or> size_sub (bumpEnd shard) (bumpCursor shard) < stride
      then let (ok, M', shard') = refill os M shard in
        if \<not> ok then (0, M', shard')
        else let (b, shard'') = bump stride shard' in (b, M', shard'')
      else let (b, shard') = bump stride shard in (b, M, shard'))"

definition PoolAllocator_allocateBlock ::
    "os \<Rightarrow> nat \<Rightarrow> machine \<Rightarrow> PoolAllocator \<Rightarrow> (addr \<times> machine \<times> PoolAllocator) option" where
  "PoolAllocator_allocateBlock os index M pools =
     (if index < length pools
      then let (b, M', shard) = takeBlock os (blockStride index) M (pools ! index)
           in Some (b, M', pools[index := shard])
      else None)"

definition PoolAllocator_freeBlock ::
    "nat \<Rightarrow> addr \<Rightarrow> machine \<Rightarrow> PoolAllocator \<Rightarrow> (machine \<times> PoolAllocator) option" where
  "PoolAllocator_freeBlock index block M pools =
     (if index < length pools
      then let shard = pools ! index; (m, fl) = FreeList_push block (mem M, freeList shard)
           in Some (M\<lparr>mem := m\<rparr>, pools[index := shard\<lparr>freeList := fl\<rparr>])
      else None)"

text \<open>The loop of \<open>allocateBatch\<close> on the locked shard.\<close>

fun takeBatch :: "os \<Rightarrow> nat \<Rightarrow> nat \<Rightarrow> machine \<Rightarrow> Shard \<Rightarrow> addr list \<times> machine \<times> Shard" where
  "takeBatch os stride 0 M shard = ([], M, shard)"
| "takeBatch os stride (Suc room) M shard =
     (let (block, M', shard') = takeBlock os stride M shard in
      if block = 0 then ([], M', shard')
      else let (blocks, M'', shard'') = takeBatch os stride room M' shard'
           in (block # blocks, M'', shard''))"

definition PoolAllocator_allocateBatch ::
    "os \<Rightarrow> nat \<Rightarrow> nat \<Rightarrow> machine \<Rightarrow> PoolAllocator \<Rightarrow> (addr list \<times> machine \<times> PoolAllocator) option" where
  "PoolAllocator_allocateBatch os index room M pools =
     (if index < length pools
      then let (bs, M', shard) = takeBatch os (blockStride index) room M (pools ! index)
           in Some (bs, M', pools[index := shard])
      else None)"

definition PoolAllocator_freeBatch ::
    "nat \<Rightarrow> addr list \<Rightarrow> machine \<Rightarrow> PoolAllocator \<Rightarrow> (machine \<times> PoolAllocator) option" where
  "PoolAllocator_freeBatch index blocks M pools =
     (if index < length pools
      then let shard = pools ! index; (m, fl) = fold FreeList_push blocks (mem M, freeList shard)
           in Some (M\<lparr>mem := m\<rparr>, pools[index := shard\<lparr>freeList := fl\<rparr>])
      else None)"

text \<open>The destructor: every shard's runs are unmapped.\<close>

definition PoolAllocator_destroy :: "os \<Rightarrow> PoolAllocator \<Rightarrow> machine \<Rightarrow> machine" where
  "PoolAllocator_destroy os pools M = fold (\<lambda>shard. destroy_regions os (runs shard)) pools M"

section \<open>Strides\<close>

lemma blockStride_eq:
  assumes "index < kClassCount"
  shows "blockStride index = (classSize index + 31) div 16 * 16"
proof -
  have "classSize index \<le> 4096" using kClassSizes_range [OF assms] by (simp add: classSize_def)
  then show ?thesis
    by (simp add: blockStride_def const_simps alignUp_16 add.commute)
qed

lemma blockStride_bounds:
  assumes "index < kClassCount"
  shows "16 dvd blockStride index" "classSize index + 16 \<le> blockStride index"
    "32 \<le> blockStride index" "blockStride index \<le> 4112"
  using kClassSizes_range [OF assms] unfolding blockStride_eq [OF assms] classSize_def by auto

section \<open>Shards\<close>

subsection \<open>Where the blocks of a shard are\<close>

text \<open>
  \<open>blocks_ok st sh B\<close>: the blocks \<open>B\<close>, free or outstanding, are aligned, lie inside the runs, and
  are apart from each other and from the bump region.
\<close>

definition blocks_ok :: "nat \<Rightarrow> Shard \<Rightarrow> addr set \<Rightarrow> bool" where
  "blocks_ok st sh B \<longleftrightarrow>
     (\<forall>b \<in> B. 0 < b \<and> 16 dvd b \<and> b + st \<le> 2 ^ 56 \<and> (\<exists>r \<in> set (runs sh). lies_in (b, st) r) \<and>
        apart (b, st) (bumpCursor sh, bumpEnd sh - bumpCursor sh)) \<and>
     (\<forall>b \<in> B. \<forall>c \<in> B. b \<noteq> c \<longrightarrow> apart (b, st) (c, st))"

definition bump_ok :: "Shard \<Rightarrow> bool" where
  "bump_ok sh \<longleftrightarrow> distinct (runs sh) \<and>
     (if bumpCursor sh = 0 then bumpEnd sh = 0
      else 16 dvd bumpCursor sh \<and> bumpCursor sh \<le> bumpEnd sh \<and> bumpEnd sh \<le> 2 ^ 56 \<and>
        (\<exists>r \<in> set (runs sh). lies_in (bumpCursor sh, bumpEnd sh - bumpCursor sh) r))"

definition shard_inv :: "nat \<Rightarrow> machine \<Rightarrow> Shard \<Rightarrow> addr set \<Rightarrow> bool" where
  "shard_inv st M sh Out \<longleftrightarrow>
     machine_ok M \<and> set (runs sh) \<subseteq> set (mapped M) \<and> bump_ok sh \<and>
     (\<exists>fs. FreeList_rep (mem M) (freeList sh) fs \<and> distinct fs \<and> set fs \<inter> Out = {} \<and>
        blocks_ok st sh (set fs \<union> Out))"

lemma shard_invI:
  assumes "machine_ok M" "set (runs sh) \<subseteq> set (mapped M)" "bump_ok sh"
    "FreeList_rep (mem M) (freeList sh) fs" "distinct fs" "set fs \<inter> Out = {}"
    "blocks_ok st sh (set fs \<union> Out)"
  shows "shard_inv st M sh Out"
  using assms unfolding shard_inv_def by blast

lemma shard_invE:
  assumes "shard_inv st M sh Out"
  obtains fs where "machine_ok M" "set (runs sh) \<subseteq> set (mapped M)" "bump_ok sh"
    "FreeList_rep (mem M) (freeList sh) fs" "distinct fs" "set fs \<inter> Out = {}"
    "blocks_ok st sh (set fs \<union> Out)"
  using assms unfolding shard_inv_def by blast

lemma Shard_init_inv: "machine_ok M \<Longrightarrow> shard_inv st M Shard_init {}"
  by (rule shard_invI [of _ _ "[]"])
    (simp_all add: Shard_init_def bump_ok_def FreeList_rep_def FreeList_empty_list_def
      blocks_ok_def size_max_def)

lemma blocks_ok_addr: "blocks_ok st sh B \<Longrightarrow> b \<in> B \<Longrightarrow> 0 < b \<and> 16 dvd b \<and> b + st \<le> 2 ^ 56"
  unfolding blocks_ok_def by blast

lemma blocks_ok_within: "blocks_ok st sh B \<Longrightarrow> b \<in> B \<Longrightarrow> \<exists>r \<in> set (runs sh). lies_in (b, st) r"
  unfolding blocks_ok_def by blast

text \<open>A block of a shard, being inside a run, is inside the shard's cells.\<close>

lemma blocks_ok_cells:
  assumes "blocks_ok st sh B" "b \<in> B"
  shows "{b..<b + st} \<subseteq> cells (set (runs sh))"
proof -
  obtain r where "r \<in> set (runs sh)" "lies_in (b, st) r"
    using blocks_ok_within [OF assms] by blast
  then show ?thesis using lies_in_sub_cells [of b st "fst r" "snd r"] by simp
qed

lemma blocks_ok_subset: "blocks_ok st sh B \<Longrightarrow> C \<subseteq> B \<Longrightarrow> blocks_ok st sh C"
  unfolding blocks_ok_def by blast

lemma blocks_ok_freeList [simp]:
  "blocks_ok st (sh\<lparr>freeList := fl\<rparr>) B = blocks_ok st sh B"
  by (simp add: blocks_ok_def)

lemma bump_ok_freeList [simp]: "bump_ok (sh\<lparr>freeList := fl\<rparr>) = bump_ok sh"
  by (simp add: bump_ok_def)

lemma blocks_ok_apart:
  "blocks_ok st sh B \<Longrightarrow> b \<in> B \<Longrightarrow> c \<in> B \<Longrightarrow> b \<noteq> c \<Longrightarrow> apart (b, st) (c, st)"
  unfolding blocks_ok_def by blast

lemma shard_inv_cells:
  assumes "shard_inv st M sh Out" "b \<in> Out"
  shows "{b..<b + st} \<subseteq> cells (set (runs sh))"
proof -
  obtain fs where "blocks_ok st sh (set fs \<union> Out)" using assms(1) by (rule shard_invE)
  then show ?thesis using assms(2) by (rule blocks_ok_cells [OF _ UnI2])
qed

lemma runs_mapped_cells: "set (runs sh) \<subseteq> set (mapped M) \<Longrightarrow> cells (set (runs sh)) \<subseteq> mapped_cells M"
  by (simp add: mapped_cells_def cells_mono)

text \<open>
  The invariant only looks at the links of free blocks: bytes outside the runs and inside
  outstanding blocks may change.
\<close>

lemma shard_inv_frame:
  assumes "shard_inv st M sh Out" "8 \<le> st" "machine_ok M'" "set (runs sh) \<subseteq> set (mapped M')"
    and same: "\<And>x. x \<in> cells (set (runs sh)) \<Longrightarrow> x \<notin> (\<Union>b\<in>Out. {b..<b + st}) \<Longrightarrow> mem M' x = mem M x"
  shows "shard_inv st M' sh Out"
  using assms(1)
proof (rule shard_invE)
  fix fs
  assume fs: "FreeList_rep (mem M) (freeList sh) fs" "distinct fs" "set fs \<inter> Out = {}"
    "blocks_ok st sh (set fs \<union> Out)" "bump_ok sh"
  have "mem M' y = mem M y" if "x \<in> set fs" "x \<le> y" "y < x + 8" for x y
  proof (rule same)
    show "y \<in> cells (set (runs sh))" using blocks_ok_cells [OF fs(4), of x] that assms(2) by auto
    show "y \<notin> (\<Union>b\<in>Out. {b..<b + st})"
    proof
      assume "y \<in> (\<Union>b\<in>Out. {b..<b + st})"
      then obtain b where b: "b \<in> Out" "b \<le> y" "y < b + st" by auto
      then have "apart (x, st) (b, st)"
        using fs(3) that(1) by (intro blocks_ok_apart [OF fs(4)]) auto
      then show False using b that assms(2) by simp
    qed
  qed
  then have "FreeList_rep (mem M') (freeList sh) fs" by (intro freelist.rep_frame [OF fs(1)]) blast
  then show ?thesis by (rule shard_invI [OF assms(3,4) fs(5) _ fs(2,3,4)])
qed

subsection \<open>Taking blocks\<close>

lemma lies_in_apart: "apart r r' \<Longrightarrow> lies_in s r' \<Longrightarrow> apart r s"
  by (auto simp: apart_def lies_in_def)

lemma bump_inv:
  assumes "shard_inv st M sh Out" "16 dvd st" "0 < st" "bumpCursor sh \<noteq> 0"
    "st \<le> bumpEnd sh - bumpCursor sh" "bump st sh = (p, sh')"
  shows "p \<notin> Out" "p \<noteq> 0" "16 dvd p" "shard_inv st M sh' (insert p Out)" "runs sh' = runs sh"
proof -
  have p: "p = bumpCursor sh" and sh': "sh' = sh\<lparr>bumpCursor := p + st\<rparr>"
    using assms(6) by (auto simp: bump_def)
  obtain fs where fs: "machine_ok M" "set (runs sh) \<subseteq> set (mapped M)" "bump_ok sh"
    "FreeList_rep (mem M) (freeList sh) fs" "distinct fs" "set fs \<inter> Out = {}"
    "blocks_ok st sh (set fs \<union> Out)"
    using assms(1) by (rule shard_invE)
  have bo: "16 dvd p" "p \<le> bumpEnd sh" "bumpEnd sh \<le> 2 ^ 56"
    "\<exists>r \<in> set (runs sh). lies_in (p, bumpEnd sh - p) r"
    using fs(3) assms(4) by (auto simp: bump_ok_def p)
  have ap: "apart (b, st) (p, st) \<and> apart (b, st) (p + st, bumpEnd sh - (p + st))"
    if "b \<in> set fs \<union> Out" for b
  proof -
    have "apart (b, st) (p, bumpEnd sh - p)" using fs(7) that by (auto simp: blocks_ok_def p)
    then show ?thesis using assms(5) bo(2) by (auto intro!: lies_in_apart [of _ "(p, bumpEnd sh - p)"] simp: p)
  qed
  show "p \<noteq> 0" "16 dvd p" "runs sh' = runs sh" using assms(4) bo(1) by (simp_all add: p sh')
  have new: "p \<notin> set fs \<union> Out" using ap [of p] assms(3) by auto
  then show "p \<notin> Out" by simp
  obtain r where r: "r \<in> set (runs sh)" "lies_in (p, bumpEnd sh - p) r" using bo(4) by blast
  then have "lies_in (p + st, bumpEnd sh - (p + st)) r" using assms(5) bo(2) by (simp add: lies_in_def p)
  then have "bump_ok sh'"
    using bo(1-3) r(1) assms(2,3,5) fs(3) by (auto simp: bump_ok_def sh' p intro: dvd_add)
  moreover have "blocks_ok st sh' (set fs \<union> insert p Out)"
    unfolding blocks_ok_def
  proof (intro conjI ballI impI)
    fix b assume "b \<in> set fs \<union> insert p Out"
    then consider "b = p" | "b \<in> set fs \<union> Out" by auto
    then have "0 < b \<and> 16 dvd b \<and> b + st \<le> 2 ^ 56 \<and> (\<exists>r \<in> set (runs sh). lies_in (b, st) r) \<and>
        apart (b, st) (p + st, bumpEnd sh - (p + st))"
    proof cases
      case 1
      have "lies_in (p, st) r" using r(2) assms(5) by (simp add: lies_in_def p)
      then show ?thesis using 1 bo(1-3) assms(4,5) r(1) by (auto simp: p)
    next
      case 2
      then show ?thesis using fs(7) ap by (auto simp: blocks_ok_def)
    qed
    then show "0 < b" "16 dvd b" "b + st \<le> 2 ^ 56" "\<exists>r \<in> set (runs sh'). lies_in (b, st) r"
      "apart (b, st) (bumpCursor sh', bumpEnd sh' - bumpCursor sh')"
      by (auto simp: sh')
    fix c assume "c \<in> set fs \<union> insert p Out" "b \<noteq> c"
    with \<open>b \<in> set fs \<union> insert p Out\<close> show "apart (b, st) (c, st)"
      using ap blocks_ok_apart [OF fs(7)] by (auto simp: apart_sym)
  qed
  ultimately show "shard_inv st M sh' (insert p Out)"
    using fs new by (intro shard_invI [of M sh' fs]) (simp_all add: sh')
qed

text \<open>A fresh run is apart from everything the shard has, and large enough for any block.\<close>

lemma refill_inv:
  assumes "os_ok os" "shard_inv st M sh Out" "8 \<le> st" "refill os M sh = (ok, M', sh')"
  shows "if ok then shard_inv st M' sh' Out \<and> bumpCursor sh' \<noteq> 0 \<and>
      kRunSize \<le> bumpEnd sh' - bumpCursor sh' \<and>
      (\<exists>r. runs sh' = runs sh @ [r] \<and> mapped M' = r # mapped M \<and> (\<forall>q \<in> set (mapped M). apart r q) \<and>
        (\<forall>x. x < fst r \<or> fst r + snd r \<le> x \<longrightarrow> mem M' x = mem M x))
    else sh' = sh \<and> mem M' = mem M \<and> mapped M' = mapped M"
proof -
  obtain fs where fs: "machine_ok M" "set (runs sh) \<subseteq> set (mapped M)" "bump_ok sh"
    "FreeList_rep (mem M) (freeList sh) fs" "distinct fs" "set fs \<inter> Out = {}"
    "blocks_ok st sh (set fs \<union> Out)"
    using assms(2) by (rule shard_invE)
  obtain run M1 where mk: "MappedRegion_make os kRunSize M = (run, M1)" by fastforce
  from assms(1) fs(1) mk show ?thesis
  proof (cases rule: MappedRegion_make_cases)
    case failed
    then show ?thesis using assms(4) mk by (simp add: refill_def)
  next
    case (valid p n)
    have M': "M' = M1" "ok" and sh': "sh' = sh\<lparr>bumpCursor := p, bumpEnd := p + n, runs := runs sh @ [run]\<rparr>"
      using assms(4) mk valid by (auto simp: refill_def)
    have page: "16 dvd p" using valid(6) os_page_bounds(3) [OF assms(1)] by (rule dvd_trans [rotated])
    have n: "kRunSize \<le> n"
      using valid(3) roundToPages_bounds(2) [OF assms(1), of kRunSize] os_page_bounds(2) [OF assms(1)]
      by (simp add: const_simps)
    have ap: "apart (b, st) (p, n)" if b: "b \<in> set fs \<union> Out" for b
    proof -
      obtain r where r: "r \<in> set (mapped M)" "lies_in (b, st) r"
        using blocks_ok_within [OF fs(7) b] fs(2) by blast
      then have "apart (p, n) r" using valid(8) by blast
      then show ?thesis using lies_in_apart r(2) apart_sym by blast
    qed
    have "blocks_ok st sh' (set fs \<union> Out)"
      using fs(7) ap unfolding blocks_ok_def sh' by auto
    moreover have "run \<notin> set (runs sh)" using fresh_not_mapped [OF valid(8)] valid(1,4) fs(2) by auto
    then have "bump_ok sh'" using valid page fs(3) by (auto simp: bump_ok_def sh' lies_in_def)
    moreover have "FreeList_rep (mem M') (freeList sh') fs"
      unfolding sh' M'
    proof (simp, intro freelist.rep_frame [OF fs(4)] ballI allI impI)
      fix x y assume "x \<in> set fs" "x \<le> y \<and> y < x + 8"
      then have "y < p \<or> p + n \<le> y" using ap [of x] assms(3) by auto
      then show "mem M1 y = mem M y" using valid(10) by blast
    qed
    ultimately have "shard_inv st M' sh' Out"
      using fs(2,5,6) valid(1,9,11) by (intro shard_invI [of M' sh' fs]) (simp_all add: M' sh' subset_insertI2)
    then show ?thesis using valid n by (simp add: M' sh')
  qed
qed

lemma refill_step:
  assumes "os_ok os" "shard_inv st M sh Out" "8 \<le> st" "refill os M sh = (ok, M', sh')"
    "cells E \<subseteq> mapped_cells M"
  shows "tier_step E M (runs sh) M' (runs sh')" "set (runs sh) \<subseteq> set (runs sh')"
    "mapped_cells M \<subseteq> mapped_cells M'"
proof -
  note inv = refill_inv [OF assms(1-4)]
  have "tier_step E M (runs sh) M' (runs sh') \<and> set (runs sh) \<subseteq> set (runs sh') \<and>
    mapped_cells M \<subseteq> mapped_cells M'"
  proof (cases ok)
    case False
    then show ?thesis using inv by (simp add: tier_step_def mapped_cells_def)
  next
    case True
    then obtain r where inv': "shard_inv st M' sh' Out" and r: "runs sh' = runs sh @ [r]"
      "mapped M' = r # mapped M" "\<forall>q \<in> set (mapped M). apart r q"
      "\<forall>x. x < fst r \<or> fst r + snd r \<le> x \<longrightarrow> mem M' x = mem M x"
      using inv by auto
    have "0 < snd r" using inv' r(2) by (auto simp: shard_inv_def machine_ok_def)
    then have "tier_step E M (runs sh) M' (runs sh')"
      using r assms(5) by (intro tier_step_map [of M' "fst r" "snd r"]) auto
    then show ?thesis using r by (auto simp: mapped_cells_def intro: cells_mono [THEN subsetD])
  qed
  then show "tier_step E M (runs sh) M' (runs sh')" "set (runs sh) \<subseteq> set (runs sh')"
    "mapped_cells M \<subseteq> mapped_cells M'" by auto
qed

definition stride_ok :: "nat \<Rightarrow> bool" where
  "stride_ok st \<longleftrightarrow> 16 dvd st \<and> 16 \<le> st \<and> st \<le> kRunSize"

lemma blockStride_ok: "index < kClassCount \<Longrightarrow> stride_ok (blockStride index)"
  using blockStride_bounds [of index] by (simp add: stride_ok_def const_simps)

lemma takeBlock_inv:
  assumes "os_ok os" "stride_ok st" "shard_inv st M sh Out" "takeBlock os st M sh = (p, M', sh')"
  shows "p = 0 \<Longrightarrow> shard_inv st M' sh' Out"
    "p \<noteq> 0 \<Longrightarrow> p \<notin> Out \<and> 16 dvd p \<and> shard_inv st M' sh' (insert p Out)"
    "cells E \<subseteq> mapped_cells M \<Longrightarrow> tier_step E M (runs sh) M' (runs sh')"
    "set (runs sh) \<subseteq> set (runs sh')" "mapped_cells M \<subseteq> mapped_cells M'"
proof -
  have st: "16 dvd st" "0 < st" "8 \<le> st" "st \<le> kRunSize" using assms(2) by (auto simp: stride_ok_def)
  obtain fs where fs: "machine_ok M" "set (runs sh) \<subseteq> set (mapped M)" "bump_ok sh"
    "FreeList_rep (mem M) (freeList sh) fs" "distinct fs" "set fs \<inter> Out = {}"
    "blocks_ok st sh (set fs \<union> Out)"
    using assms(3) by (rule shard_invE)
  obtain b fl where pop: "FreeList_pop (mem M) (freeList sh) = (b, fl)" by fastforce
  have "(p = 0 \<longrightarrow> shard_inv st M' sh' Out) \<and>
    (p \<noteq> 0 \<longrightarrow> p \<notin> Out \<and> 16 dvd p \<and> shard_inv st M' sh' (insert p Out)) \<and>
    (cells E \<subseteq> mapped_cells M \<longrightarrow> tier_step E M (runs sh) M' (runs sh')) \<and>
    set (runs sh) \<subseteq> set (runs sh') \<and> mapped_cells M \<subseteq> mapped_cells M'" for E
    using fs(4) pop
  proof (cases rule: freelist.pop_cases)
    case (some ys)
    have r: "p = b" "M' = M" "sh' = sh\<lparr>freeList := fl\<rparr>"
      using assms(4) pop some(2) by (auto simp: takeBlock_def)
    have "blocks_ok st sh (set ys \<union> insert b Out)" using fs(7) some(1) by (simp add: Un_commute)
    then have "shard_inv st M sh' (insert b Out)"
      using fs some by (intro shard_invI [of M sh' ys]) (auto simp: r)
    moreover have "b \<notin> Out" "16 dvd b" using fs(6,7) some(1) by (auto simp: blocks_ok_def)
    ultimately show ?thesis using some(2) by (simp add: r tier_step_refl)
  next
    case none
    show ?thesis
    proof (cases "bumpCursor sh = 0 \<or> size_sub (bumpEnd sh) (bumpCursor sh) < st")
      case False
      then have room: "bumpCursor sh \<noteq> 0" "st \<le> bumpEnd sh - bumpCursor sh"
        using fs(3) by (auto simp: bump_ok_def size_max_def)
      obtain c sh1 where b: "bump st sh = (c, sh1)" by fastforce
      have r: "p = c" "M' = M" "sh' = sh1"
        using assms(4) pop none(2) False b by (auto simp: takeBlock_def)
      show ?thesis
        using bump_inv [OF assms(3) st(1,2) room b] by (simp add: r tier_step_refl)
    next
      case True
      obtain ok M1 sh1 where rf: "refill os M sh = (ok, M1, sh1)" by (cases "refill os M sh") auto
      note inv1 = refill_inv [OF assms(1,3) st(3) rf] and step1 = refill_step [OF assms(1,3) st(3) rf]
      show ?thesis
      proof (cases ok)
        case False
        then have r: "p = 0" "M' = M1" "sh' = sh1"
          using assms(4) pop none(2) True rf by (auto simp: takeBlock_def)
        have "shard_inv st M1 sh Out"
          using False inv1 fs(1,2) machine_ok_cong [of M1 M] by (intro shard_inv_frame [OF assms(3) st(3)]) auto
        then show ?thesis using False inv1 step1 [of "{}"] step1 [of E] by (simp add: r)
      next
        case ok: True
        obtain c sh2 where b: "bump st sh1 = (c, sh2)" by fastforce
        have r: "p = c" "M' = M1" "sh' = sh2"
          using assms(4) pop none(2) True rf ok b by (auto simp: takeBlock_def)
        have room: "bumpCursor sh1 \<noteq> 0" "st \<le> bumpEnd sh1 - bumpCursor sh1"
          using inv1 ok st(4) by auto
        have inv2: "shard_inv st M1 sh1 Out" using inv1 ok by simp
        show ?thesis
          using bump_inv [OF inv2 st(1,2) room b] step1 [of "{}"] step1(1) [of E] by (simp add: r)
      qed
    qed
  qed
  then show "p = 0 \<Longrightarrow> shard_inv st M' sh' Out"
    "p \<noteq> 0 \<Longrightarrow> p \<notin> Out \<and> 16 dvd p \<and> shard_inv st M' sh' (insert p Out)"
    "cells E \<subseteq> mapped_cells M \<Longrightarrow> tier_step E M (runs sh) M' (runs sh')"
    "set (runs sh) \<subseteq> set (runs sh')" "mapped_cells M \<subseteq> mapped_cells M'" by blast+
qed

text \<open>A batch is taken block by block.\<close>

lemma takeBatch_inv:
  assumes "os_ok os" "stride_ok st" "shard_inv st M sh Out" "takeBatch os st n M sh = (bs, M', sh')"
  shows "distinct bs \<and> set bs \<inter> Out = {} \<and> length bs \<le> n \<and> (\<forall>b \<in> set bs. b \<noteq> 0 \<and> 16 dvd b) \<and>
    shard_inv st M' sh' (set bs \<union> Out) \<and> set (runs sh) \<subseteq> set (runs sh') \<and>
    (\<forall>E. cells E \<subseteq> mapped_cells M \<longrightarrow> tier_step E M (runs sh) M' (runs sh'))"
  using assms(3,4)
proof (induction n arbitrary: M sh Out bs M' sh')
  case 0
  then show ?case by (simp add: tier_step_refl)
next
  case (Suc n)
  obtain p M1 sh1 where t: "takeBlock os st M sh = (p, M1, sh1)" by (cases "takeBlock os st M sh") auto
  note one = takeBlock_inv [OF assms(1,2) Suc.prems(1) t]
  show ?case
  proof (cases "p = 0")
    case True
    then have "bs = []" "M' = M1" "sh' = sh1" using Suc.prems(2) t by auto
    then show ?thesis using one True by simp
  next
    case False
    obtain cs M2 sh2 where rest: "takeBatch os st n M1 sh1 = (cs, M2, sh2)"
      by (cases "takeBatch os st n M1 sh1") auto
    have r: "bs = p # cs" "M' = M2" "sh' = sh2" using Suc.prems(2) t rest False by auto
    have new: "p \<notin> Out" "16 dvd p" "shard_inv st M1 sh1 (insert p Out)" using one(2) [OF False] by auto
    note ih = Suc.IH [OF new(3) rest]
    have "tier_step E M (runs sh) M2 (runs sh2)" if "cells E \<subseteq> mapped_cells M" for E
      using tier_step_trans [OF one(3) [OF that], of M2 "runs sh2"] ih one(4,5) that by blast
    then show ?thesis using ih new one(4) False by (auto simp: r)
  qed
qed

subsection \<open>Giving blocks back\<close>

lemma distinct_sorted_wrt:
  "distinct xs \<Longrightarrow> (\<And>x y. x \<in> set xs \<Longrightarrow> y \<in> set xs \<Longrightarrow> x \<noteq> y \<Longrightarrow> P x y) \<Longrightarrow> sorted_wrt P xs"
  by (induction xs) auto

lemma blocks_length:
  assumes "blocks_ok st sh B" "set fs \<subseteq> B" "distinct fs" "0 < st"
  shows "length fs \<le> 2 ^ 56"
proof -
  have "b < 2 ^ 56" if "b \<in> set fs" for b
    using blocks_ok_addr [OF assms(1), of b] that assms(2,4) by auto
  then have "set fs \<subseteq> {..<2 ^ 56}" by auto
  then have "card (set fs) \<le> card {..<2 ^ 56 :: nat}" by (intro card_mono) auto
  then show ?thesis using assms(3) by (simp add: distinct_card)
qed

lemma blocks_ok_apart8:
  "blocks_ok st sh B \<Longrightarrow> 8 \<le> st \<Longrightarrow> b \<in> B \<Longrightarrow> c \<in> B \<Longrightarrow> b \<noteq> c \<Longrightarrow> apart (b, 8) (c, 8)"
  by (drule (3) blocks_ok_apart) (auto)

text \<open>A whole batch, pushed one after the other, goes back at once.\<close>

lemma push_blocks_inv:
  assumes "shard_inv st M sh Out" "8 \<le> st" "set bs \<subseteq> Out" "distinct bs"
    "fold FreeList_push bs (mem M, freeList sh) = (m, fl)"
  shows "shard_inv st (M\<lparr>mem := m\<rparr>) (sh\<lparr>freeList := fl\<rparr>) (Out - set bs)"
proof -
  obtain fs where fs: "machine_ok M" "set (runs sh) \<subseteq> set (mapped M)" "bump_ok sh"
    "FreeList_rep (mem M) (freeList sh) fs" "distinct fs" "set fs \<inter> Out = {}"
    "blocks_ok st sh (set fs \<union> Out)"
    using assms(1) by (rule shard_invE)
  have d: "distinct (rev bs @ fs)" using assms(3,4) fs(5,6) by auto
  have sub: "set (rev bs @ fs) \<subseteq> set fs \<union> Out" using assms(3) by auto
  have len: "length (rev bs @ fs) < size_max"
    using blocks_length [OF fs(7) sub d] assms(2) by (simp add: size_max_def)
  have "sorted_wrt (\<lambda>b c. apart (b, 8) (c, 8)) bs"
    using assms(3) blocks_ok_apart8 [OF fs(7) assms(2)]
    by (intro distinct_sorted_wrt [OF assms(4)]) auto
  moreover have "0 < b \<and> b < size_max \<and> (\<forall>x \<in> set fs. apart (b, 8) (x, 8))" if "b \<in> set bs" for b
  proof (intro conjI ballI)
    have "b \<in> set fs \<union> Out" using that assms(3) by blast
    from blocks_ok_addr [OF fs(7) this] show "0 < b" "b < size_max" by (auto simp: size_max_def)
    show "apart (b, 8) (x, 8)" if "x \<in> set fs" for x
      using that \<open>b \<in> set bs\<close> assms(3) fs(6) by (intro blocks_ok_apart8 [OF fs(7) assms(2)]) auto
  qed
  ultimately have "FreeList_rep m fl (rev bs @ fs)"
    using len by (intro freelist.rep_push_all [OF fs(4) _ _ _ assms(5)]) auto
  moreover have "blocks_ok st sh (set (rev bs @ fs) \<union> (Out - set bs))"
    using fs(7) by (rule blocks_ok_subset) (use assms(3) in auto)
  ultimately show ?thesis
    using fs(1,2,3,6) d machine_ok_cong [of "M\<lparr>mem := m\<rparr>" M]
    by (intro shard_invI [of _ _ "rev bs @ fs"]) auto
qed

lemma push_blocks_step:
  assumes "shard_inv st M sh Out" "8 \<le> st" "set bs \<subseteq> Out"
    "fold FreeList_push bs (mem M, freeList sh) = (m, fl)"
    "\<forall>e \<in> E. \<forall>b \<in> set bs. apart (b, st) e"
  shows "tier_step E M (runs sh) (M\<lparr>mem := m\<rparr>) (runs sh)"
proof (rule tier_step_mem)
  fix x assume x: "x \<notin> cells (set (runs sh)) - cells E"
  have "x < b \<or> b + 8 \<le> x" if "b \<in> set bs" for b
  proof (rule ccontr)
    assume "\<not> (x < b \<or> b + 8 \<le> x)"
    then have "x \<in> {b..<b + st}" using assms(2) by auto
    then have "x \<in> cells (set (runs sh))" using shard_inv_cells [OF assms(1)] assms(3) that by blast
    then have "x \<in> cells E" using x by blast
    then obtain a n where "(a, n) \<in> E" "a \<le> x" "x < a + n" by (auto simp: cells_iff)
    then show False using assms(5) that \<open>x \<in> {b..<b + st}\<close> by fastforce
  qed
  then show "mem (M\<lparr>mem := m\<rparr>) x = mem M x"
    using freelist.push_all_frame [OF assms(4)] by simp
qed simp

text \<open>So a shard is a resident of its runs.\<close>

lemma cells_blocks: "cells ((\<lambda>b. (b, st)) ` Out) = (\<Union>b\<in>Out. {b..<b + st})"
  by (auto simp: cells_def)

interpretation shard: resident runs "\<lambda>M sh Out. stride_ok st \<and> shard_inv st M sh Out" "\<lambda>b. (b, st)"
  for st
proof unfold_locales
  fix M sh Out
  assume "stride_ok st \<and> shard_inv st M sh Out"
  then show "machine_ok M \<and> set (runs sh) \<subseteq> set (mapped M)" by (simp add: shard_inv_def)
next
  fix M sh Out M'
  assume "stride_ok st \<and> shard_inv st M sh Out" "machine_ok M'" "set (runs sh) \<subseteq> set (mapped M')"
    "\<And>x. x \<in> cells (set (runs sh)) - cells ((\<lambda>b. (b, st)) ` Out) \<Longrightarrow> mem M' x = mem M x"
  then show "stride_ok st \<and> shard_inv st M' sh Out"
    using shard_inv_frame [of st M sh Out M'] by (simp add: cells_blocks stride_ok_def)
qed

section \<open>The pools\<close>

definition pool_regs :: "PoolAllocator \<Rightarrow> region list" where
  "pool_regs pools = concat (map runs pools)"

text \<open>The outstanding blocks of one class.\<close>

definition outs :: "(nat \<times> region) set \<Rightarrow> nat \<Rightarrow> addr set" where
  "outs R i = {b. (i, b, blockStride i) \<in> R}"

definition pools_inv :: "os \<Rightarrow> machine \<Rightarrow> PoolAllocator \<Rightarrow> (nat \<times> region) set \<Rightarrow> bool" where
  "pools_inv os M pools R \<longleftrightarrow>
     os_ok os \<and> machine_ok M \<and> length pools = kClassCount \<and>
     (\<forall>(i, e) \<in> R. i < kClassCount \<and> snd e = blockStride i) \<and>
     (\<forall>i < kClassCount. shard_inv (blockStride i) M (pools ! i) (outs R i)) \<and>
     (\<forall>i < kClassCount. \<forall>j < kClassCount. i \<noteq> j \<longrightarrow>
        set (runs (pools ! i)) \<inter> set (runs (pools ! j)) = {})"

lemma pools_invD:
  assumes "pools_inv os M pools R"
  shows "os_ok os" "machine_ok M" "length pools = kClassCount"
    "(i, e) \<in> R \<Longrightarrow> i < kClassCount \<and> snd e = blockStride i"
    "i < kClassCount \<Longrightarrow> shard_inv (blockStride i) M (pools ! i) (outs R i)"
    "i < kClassCount \<Longrightarrow> j < kClassCount \<Longrightarrow> i \<noteq> j \<Longrightarrow>
       set (runs (pools ! i)) \<inter> set (runs (pools ! j)) = {}"
  using assms unfolding pools_inv_def by blast+

lemma set_pool_regs: "set (pool_regs pools) = (\<Union>i<length pools. set (runs (pools ! i)))"
  by (fastforce simp: pool_regs_def in_set_conv_nth [of _ pools])

lemma runs_in_pool_regs: "i < length pools \<Longrightarrow> set (runs (pools ! i)) \<subseteq> set (pool_regs pools)"
  by (auto simp: set_pool_regs)

lemma pool_regs_update:
  assumes "i < length pools"
  shows "set (pool_regs (pools[i := sh])) =
    set (runs sh) \<union> (\<Union>j\<in>{..<length pools} - {i}. set (runs (pools ! j)))"
  using assms by (auto simp: set_pool_regs nth_list_update split: if_splits)

lemma outs_mem: "pools_inv os M pools R \<Longrightarrow> (i, b, n) \<in> R \<Longrightarrow> b \<in> outs R i \<and> n = blockStride i \<and> i < kClassCount"
  using pools_invD(4) [of os M pools R i "(b, n)"] by (auto simp: outs_def)

lemma pools_block_cells:
  assumes "pools_inv os M pools R" "(i, b, n) \<in> R"
  shows "{b..<b + n} \<subseteq> cells (set (runs (pools ! i)))"
  using outs_mem [OF assms] shard_inv_cells [OF pools_invD(5) [OF assms(1)]] by auto

text \<open>Runs of different shards share no byte.\<close>

lemma shard_cells_disjoint:
  assumes "pools_inv os M pools R" "i < kClassCount" "j < kClassCount" "i \<noteq> j"
  shows "cells (set (runs (pools ! i))) \<inter> cells (set (runs (pools ! j))) = {}"
proof -
  have "apart r q" if "r \<in> set (runs (pools ! i))" "q \<in> set (runs (pools ! j))" for r q
  proof (rule machine_ok_apart [OF pools_invD(2) [OF assms(1)]])
    show "r \<noteq> q" using pools_invD(6) [OF assms] that by blast
    show "r \<in> set (mapped M)" "q \<in> set (mapped M)"
      using that shard.inv_machine pools_invD(5) [OF assms(1)] assms(2,3) blockStride_ok by blast+
  qed
  then show ?thesis by (fastforce simp: cells_iff)
qed

lemma pools_inv_frame:
  assumes "pools_inv os M pools R" "machine_ok M'" "set (pool_regs pools) \<subseteq> set (mapped M')"
    and same: "\<And>x. x \<in> cells (set (pool_regs pools)) - cells (snd ` R) \<Longrightarrow> mem M' x = mem M x"
  shows "pools_inv os M' pools R"
proof -
  have "shard_inv (blockStride i) M' (pools ! i) (outs R i)" if i: "i < kClassCount" for i
  proof (rule shard_inv_frame [OF pools_invD(5) [OF assms(1) i] _ assms(2)])
    show "8 \<le> blockStride i" using blockStride_bounds [OF i] by simp
    show "set (runs (pools ! i)) \<subseteq> set (mapped M')"
      using runs_in_pool_regs [of i pools] assms(3) pools_invD(3) [OF assms(1)] i by auto
    fix x assume x: "x \<in> cells (set (runs (pools ! i)))"
      and out: "x \<notin> (\<Union>b\<in>outs R i. {b..<b + blockStride i})"
    have "x \<notin> cells (snd ` R)"
    proof
      assume "x \<in> cells (snd ` R)"
      then obtain j b n where b: "(j, b, n) \<in> R" "b \<le> x" "x < b + n" by (auto simp: cells_iff)
      then have j: "j < kClassCount" "b \<in> outs R j" "n = blockStride j"
        using outs_mem [OF assms(1) b(1)] by auto
      have "x \<in> cells (set (runs (pools ! j)))"
        using pools_block_cells [OF assms(1) b(1)] b by auto
      then have "j = i" using shard_cells_disjoint [OF assms(1) i j(1)] x by blast
      then show False using out b j by auto
    qed
    then show "mem M' x = mem M x"
      using same x cells_mono [OF runs_in_pool_regs [of i pools]] pools_invD(3) [OF assms(1)] i by auto
  qed
  then show ?thesis using assms(1,2) unfolding pools_inv_def by blast
qed

lemma disjoint_apart:
  assumes "{a..<a + n} \<inter> {b..<b + k} = {}" "0 < n" "0 < k"
  shows "apart (a, n) (b, k)"
proof (rule ccontr)
  assume "\<not> apart (a, n) (b, k)"
  then have "max a b \<in> {a..<a + n} \<inter> {b..<b + k}" using assms(2,3) by auto
  then show False using assms(1) by blast
qed

lemma pools_apart:
  assumes "pools_inv os M pools R" "(i, e) \<in> R" "(j, e') \<in> R" "(i, e) \<noteq> (j, e')"
  shows "apart e e'"
proof -
  obtain b n c k where e: "e = (b, n)" "e' = (c, k)" by (cases e, cases e')
  note b = outs_mem [OF assms(1) assms(2) [unfolded e]] and c = outs_mem [OF assms(1) assms(3) [unfolded e]]
  show ?thesis
  proof (cases "j = i")
    case True
    then have "b \<noteq> c" using assms(4) b c by (auto simp: e)
    moreover obtain fs where "blocks_ok (blockStride i) (pools ! i) (set fs \<union> outs R i)"
      using pools_invD(5) [OF assms(1), of i] b by (auto elim: shard_invE)
    ultimately show ?thesis using b c True unfolding e by (metis UnI2 blocks_ok_apart)
  next
    case False
    have "{b..<b + n} \<inter> {c..<c + k} = {}"
      using pools_block_cells [OF assms(1)] assms(2,3) shard_cells_disjoint [OF assms(1), of i j] b c False
      unfolding e by blast
    moreover have "0 < n" "0 < k" using b c blockStride_bounds(3) [of i] blockStride_bounds(3) [of j] by auto
    ultimately show ?thesis unfolding e by (rule disjoint_apart)
  qed
qed

text \<open>A step of one shard keeps the others, so the pools' invariant follows from that shard's.\<close>

lemma pools_update:
  assumes "pools_inv os M pools R" "i < kClassCount"
    and sh': "shard_inv (blockStride i) M' sh' (outs R' i)"
    and step: "tier_step E M (runs (pools ! i)) M' (runs sh')"
    and R': "\<forall>(j, e) \<in> R'. j < kClassCount \<and> snd e = blockStride j"
    and other: "\<And>j. j \<noteq> i \<Longrightarrow> outs R' j = outs R j"
  shows "pools_inv os M' (pools[i := sh']) R'"
proof -
  note inv = pools_invD [OF assms(1)]
  have own: "set (runs (pools ! i)) \<subseteq> set (mapped M)" using inv(5) [OF assms(2)] by (simp add: shard_inv_def)
  have M': "machine_ok M'" "set (runs sh') \<subseteq> set (mapped M')" using sh' by (auto simp: shard_inv_def)
  have rest: "shard_inv (blockStride j) M' (pools ! j) (outs R' j)"
    "set (runs (pools ! j)) \<inter> set (runs sh') = {}" if j: "j < kClassCount" "j \<noteq> i" for j
  proof -
    have "(stride_ok (blockStride j) \<and> shard_inv (blockStride j) M' (pools ! j) (outs R j)) \<and>
        set (runs (pools ! j)) \<inter> set (runs sh') = {}"
      using inv(5,6) j assms(2) blockStride_ok
      by (intro shard.inv_foreign_step [OF _ step M'(1) own M'(2)]) auto
    then show "shard_inv (blockStride j) M' (pools ! j) (outs R' j)"
      "set (runs (pools ! j)) \<inter> set (runs sh') = {}" using other [OF j(2)] by auto
  qed
  show ?thesis
    unfolding pools_inv_def
  proof (intro conjI allI impI)
    fix j k assume jk: "j < kClassCount" "k < kClassCount" "j \<noteq> k"
    then show "set (runs (pools[i := sh'] ! j)) \<inter> set (runs (pools[i := sh'] ! k)) = {}"
      using inv(3) inv(6) [OF jk] rest(2) [of j] rest(2) [of k] assms(2)
      by (cases "j = i"; cases "k = i") (auto simp: nth_list_update)
  qed (use inv M' R' rest(1) sh' assms(2) in \<open>auto simp: nth_list_update\<close>)
qed

lemma pool_regs_step:
  assumes "i < length pools" "tier_step E M (runs (pools ! i)) M' (runs sh')"
  shows "tier_step E M (pool_regs pools) M' (pool_regs (pools[i := sh']))"
proof -
  let ?rest = "\<Union>j\<in>{..<length pools} - {i}. set (runs (pools ! j))"
  have old: "set (pool_regs pools) = set (runs (pools ! i)) \<union> ?rest"
    using pool_regs_update [OF assms(1), of "pools ! i"] by simp
  have new: "set (pool_regs (pools[i := sh'])) = set (runs sh') \<union> ?rest"
    by (rule pool_regs_update [OF assms(1)])
  have step: "set (mapped M') - set (runs sh') = set (mapped M) - set (runs (pools ! i))"
    "\<And>x. x \<notin> cells (set (runs (pools ! i)) \<union> set (runs sh')) - cells E \<Longrightarrow> mem M' x = mem M x"
    using assms(2) by (auto simp: tier_step_def)
  have "set (mapped M') - (set (runs sh') \<union> ?rest) = set (mapped M) - (set (runs (pools ! i)) \<union> ?rest)"
    using step(1) by blast
  moreover have "mem M' x = mem M x"
    if "x \<notin> cells (set (pool_regs pools) \<union> set (pool_regs (pools[i := sh']))) - cells E" for x
    using that cells_mono [of "set (runs (pools ! i)) \<union> set (runs sh')" "set (pool_regs pools) \<union> set (pool_regs (pools[i := sh']))"]
    unfolding old new by (intro step(2)) blast
  ultimately show ?thesis unfolding tier_step_def old new by blast
qed

subsection \<open>Operations\<close>

lemma outs_insert: "outs (insert (i, p, blockStride i) R) j = (if j = i then insert p (outs R i) else outs R j)"
  by (auto simp: outs_def)

definition blocks_of :: "nat \<Rightarrow> addr set \<Rightarrow> (nat \<times> region) set" where
  "blocks_of i B = (\<lambda>b. (i, b, blockStride i)) ` B"

lemma outs_Un_blocks: "outs (blocks_of i B \<union> R) j = (if j = i then B \<union> outs R i else outs R j)"
  by (auto simp: outs_def blocks_of_def)

lemma outs_minus_blocks: "outs (R - blocks_of i B) j = (if j = i then outs R i - B else outs R j)"
  by (auto simp: outs_def blocks_of_def)

lemma pools_cells_mapped:
  assumes "pools_inv os M pools R"
  shows "cells (snd ` R) \<subseteq> mapped_cells M" "set (pool_regs pools) \<subseteq> set (mapped M)"
proof -
  have runs: "set (runs (pools ! i)) \<subseteq> set (mapped M)" if "i < kClassCount" for i
    using pools_invD(5) [OF assms that] by (simp add: shard_inv_def)
  then show "set (pool_regs pools) \<subseteq> set (mapped M)"
    using pools_invD(3) [OF assms] by (auto simp: set_pool_regs)
  show "cells (snd ` R) \<subseteq> mapped_cells M"
  proof
    fix x assume "x \<in> cells (snd ` R)"
    then obtain i b n where b: "(i, b, n) \<in> R" "b \<le> x" "x < b + n" by (auto simp: cells_iff)
    then have "x \<in> cells (set (runs (pools ! i)))" using pools_block_cells [OF assms b(1)] by auto
    then show "x \<in> mapped_cells M"
      using runs_mapped_cells [OF runs] outs_mem [OF assms b(1)] by blast
  qed
qed

lemma allocateBatch_inv:
  assumes "pools_inv os M pools R" "i < kClassCount"
    "PoolAllocator_allocateBatch os i n M pools = Some (bs, M', pools')"
  shows "distinct bs" "length bs \<le> n" "\<forall>b \<in> set bs. b \<noteq> 0 \<and> 16 dvd b" "set bs \<inter> outs R i = {}"
    "pools_inv os M' pools' (blocks_of i (set bs) \<union> R)"
    "tier_step (snd ` R) M (pool_regs pools) M' (pool_regs pools')"
proof -
  note inv = pools_invD [OF assms(1)]
  obtain sh where t: "takeBatch os (blockStride i) n M (pools ! i) = (bs, M', sh)"
    and pools': "pools' = pools[i := sh]"
    using assms(2,3) inv(3) by (auto simp: PoolAllocator_allocateBatch_def split: prod.splits)
  note batch = takeBatch_inv [OF inv(1) blockStride_ok [OF assms(2)] inv(5) [OF assms(2)] t]
  have step: "tier_step (snd ` R) M (runs (pools ! i)) M' (runs sh)"
    using batch pools_cells_mapped(1) [OF assms(1)] by blast
  show "distinct bs" "length bs \<le> n" "\<forall>b \<in> set bs. b \<noteq> 0 \<and> 16 dvd b" "set bs \<inter> outs R i = {}"
    using batch by auto
  have wf: "\<forall>(j, e) \<in> blocks_of i (set bs) \<union> R. j < kClassCount \<and> snd e = blockStride j"
    using inv(4) assms(2) by (auto simp: blocks_of_def)
  show "pools_inv os M' pools' (blocks_of i (set bs) \<union> R)"
    unfolding pools' using batch
    by (intro pools_update [OF assms(1,2) _ step wf]) (simp_all add: outs_Un_blocks)
  show "tier_step (snd ` R) M (pool_regs pools) M' (pool_regs pools')"
    unfolding pools' using pool_regs_step [OF _ step] inv(3) assms(2) by simp
qed

lemma allocateBlock_batch:
  "PoolAllocator_allocateBlock os i M pools = Some (p, M', pools') \<Longrightarrow>
   PoolAllocator_allocateBatch os i 1 M pools = Some (if p = 0 then [] else [p], M', pools')"
  by (auto simp: PoolAllocator_allocateBlock_def PoolAllocator_allocateBatch_def Let_def
      split: if_splits prod.splits)

lemma freeBlock_batch:
  "PoolAllocator_freeBlock i b M pools = PoolAllocator_freeBatch i [b] M pools"
  by (simp add: PoolAllocator_freeBlock_def PoolAllocator_freeBatch_def)

lemma freeBatch_inv:
  assumes "pools_inv os M pools R" "i < kClassCount" "distinct bs" "set bs \<subseteq> outs R i"
    "PoolAllocator_freeBatch i bs M pools = Some (M', pools')"
  shows "pools_inv os M' pools' (R - blocks_of i (set bs))"
    "tier_step (snd ` (R - blocks_of i (set bs))) M (pool_regs pools) M' (pool_regs pools')"
proof -
  note inv = pools_invD [OF assms(1)]
  have st: "8 \<le> blockStride i" using blockStride_bounds [OF assms(2)] by simp
  obtain m fl where f: "fold FreeList_push bs (mem M, freeList (pools ! i)) = (m, fl)" by fastforce
  have r: "M' = M\<lparr>mem := m\<rparr>" "pools' = pools[i := (pools ! i)\<lparr>freeList := fl\<rparr>]"
    using assms(2,5) inv(3) f by (auto simp: PoolAllocator_freeBatch_def)
  have ap: "apart (b, blockStride i) e" if e: "e \<in> snd ` (R - blocks_of i (set bs))" and b: "b \<in> set bs" for e b
  proof -
    obtain j where j: "(j, e) \<in> R - blocks_of i (set bs)" using e by auto
    have "(i, b, blockStride i) \<in> R" using assms(4) b by (auto simp: outs_def)
    then show ?thesis
      using j b by (intro pools_apart [OF assms(1), of i _ j]) (auto simp: blocks_of_def)
  qed
  have step: "tier_step (snd ` (R - blocks_of i (set bs))) M (runs (pools ! i)) M' (runs ((pools ! i)\<lparr>freeList := fl\<rparr>))"
    unfolding r using push_blocks_step [OF inv(5) [OF assms(2)] st assms(4) f] ap by simp
  have "shard_inv (blockStride i) M' ((pools ! i)\<lparr>freeList := fl\<rparr>) (outs R i - set bs)"
    unfolding r by (rule push_blocks_inv [OF inv(5) [OF assms(2)] st assms(4,3) f])
  then show "pools_inv os M' pools' (R - blocks_of i (set bs))"
    unfolding r(2) using inv(4)
    by (intro pools_update [OF assms(1,2) _ step]) (auto simp: outs_minus_blocks)
  show "tier_step (snd ` (R - blocks_of i (set bs))) M (pool_regs pools) M' (pool_regs pools')"
    unfolding r(2) using pool_regs_step [OF _ step] inv(3) assms(2) by simp
qed

subsection \<open>The pools are a tier\<close>

text \<open>The operations with the types of the contract; the key of an extent is its class index.\<close>

definition pool_admits :: "nat \<Rightarrow> nat \<Rightarrow> bool" where
  "pool_admits i n \<longleftrightarrow> i < kClassCount \<and> n \<le> blockStride i"

definition pool_alloc :: "os \<Rightarrow> nat \<Rightarrow> nat \<Rightarrow> machine \<Rightarrow> PoolAllocator \<Rightarrow> (addr \<times> machine \<times> PoolAllocator) option" where
  "pool_alloc os i n M pools = PoolAllocator_allocateBlock os i M pools"

definition pool_free :: "nat \<Rightarrow> addr \<Rightarrow> machine \<Rightarrow> PoolAllocator \<Rightarrow> machine \<times> PoolAllocator" where
  "pool_free i b M pools =
     (case PoolAllocator_freeBlock i b M pools of None \<Rightarrow> (M, pools) | Some r \<Rightarrow> r)"

definition pool_capacity :: "nat \<Rightarrow> machine \<Rightarrow> PoolAllocator \<Rightarrow> addr \<Rightarrow> nat" where
  "pool_capacity i M pools b = blockStride i"

lemma pool_free_batch:
  assumes "pools_inv os M pools R" "(i, b, n) \<in> R" "pool_free i b M pools = (M', pools')"
  shows "pools_inv os M' pools' (R - {(i, b, n)})"
    "tier_step (snd ` (R - {(i, b, n)})) M (pool_regs pools) M' (pool_regs pools')"
proof -
  note b = outs_mem [OF assms(1,2)]
  have one: "blocks_of i {b} = {(i, b, n)}" using b by (simp add: blocks_of_def)
  obtain r where "PoolAllocator_freeBatch i [b] M pools = Some r"
    using b pools_invD(3) [OF assms(1)] by (simp add: PoolAllocator_freeBatch_def Let_def case_prod_beta)
  then have f: "PoolAllocator_freeBatch i [b] M pools = Some (M', pools')"
    using assms(3) by (simp add: pool_free_def freeBlock_batch)
  show "pools_inv os M' pools' (R - {(i, b, n)})"
    "tier_step (snd ` (R - {(i, b, n)})) M (pool_regs pools) M' (pool_regs pools')"
    using freeBatch_inv [OF assms(1) _ _ _ f] b by (simp_all add: one)
qed

lemma outstanding_block:
  assumes "pools_inv os M pools R" "(i, b, n) \<in> R"
  shows "b \<noteq> 0" "16 dvd b" "b + n \<le> 2 ^ 56"
proof -
  note b = outs_mem [OF assms]
  obtain fs where "blocks_ok (blockStride i) (pools ! i) (set fs \<union> outs R i)"
    using pools_invD(5) [OF assms(1), of i] b by (auto elim: shard_invE)
  then show "b \<noteq> 0" "16 dvd b" "b + n \<le> 2 ^ 56" using b by (auto simp: blocks_ok_def)
qed


interpretation pools: tier pool_regs "pools_inv os" pool_admits "pool_alloc os" pool_free pool_capacity
  for os
proof unfold_locales
  fix M s R
  assume inv: "pools_inv os M s R"
  show "machine_ok M \<and> set (pool_regs s) \<subseteq> set (mapped M)"
    using pools_invD(2) [OF inv] pools_cells_mapped(2) [OF inv] by simp
  show "apart e e'" if "(k, e) \<in> R" "(k', e') \<in> R" "(k, e) \<noteq> (k', e')" for k e k' e'
    using inv that by (rule pools_apart)
  show "\<exists>r \<in> set (pool_regs s). lies_in e r" if "(k, e) \<in> R" for k e
  proof -
    obtain b n where e: "e = (b, n)" by (cases e)
    note b = outs_mem [OF inv that [unfolded e]]
    obtain fs where "blocks_ok (blockStride k) (s ! k) (set fs \<union> outs R k)"
      using pools_invD(5) [OF inv, of k] b by (auto elim: shard_invE)
    then have "\<exists>r \<in> set (runs (s ! k)). lies_in e r" using b unfolding e by (auto dest: blocks_ok_within)
    then show ?thesis using runs_in_pool_regs [of k s] pools_invD(3) [OF inv] b by auto
  qed
  show "\<exists>p M' s'. pool_alloc os k n M s = Some (p, M', s')" if "pool_admits k n" for k n
    using that pools_invD(3) [OF inv]
    by (simp add: pool_alloc_def pool_admits_def PoolAllocator_allocateBlock_def split: prod.splits)
  show "p + len \<le> 2 ^ 56" if "(k, p, len) \<in> R" for k p len
    using outstanding_block(3) [OF inv that] .
  show "pool_capacity k M s p = len" if "(k, p, len) \<in> R" for k p len
    using outs_mem [OF inv that] by (simp add: pool_capacity_def)
  fix k n p M' s'
  assume k: "pool_admits k n" and a: "pool_alloc os k n M s = Some (p, M', s')"
  then have k': "k < kClassCount" by (simp add: pool_admits_def)
  note batch = allocateBatch_inv [OF inv k' allocateBlock_batch [OF a [unfolded pool_alloc_def]]]
  show "tier_step (snd ` R) M (pool_regs s) M' (pool_regs s')" by (rule batch(6))
  show "n \<le> pool_capacity k M' s' p \<and> 16 dvd p \<and> (k, p, pool_capacity k M' s' p) \<notin> R \<and>
      pools_inv os M' s' (insert (k, p, pool_capacity k M' s' p) R)" if "p \<noteq> 0"
    using batch(3-5) that k by (auto simp: pool_capacity_def pool_admits_def blocks_of_def outs_def)
next
  fix M s R k n M' s'
  assume "pools_inv os M s R" "pool_admits k n" "pool_alloc os k n M s = Some (0, M', s')"
  then show "pools_inv os M' s' R"
    using allocateBatch_inv(5) [OF _ _ allocateBlock_batch, of os M s R k 0 M' s']
    by (simp add: pool_alloc_def pool_admits_def blocks_of_def)
next
  fix M s R M'
  assume "pools_inv os M s R" "machine_ok M'" "set (pool_regs s) \<subseteq> set (mapped M')"
    "\<And>x. x \<in> cells (set (pool_regs s)) - cells (snd ` R) \<Longrightarrow> mem M' x = mem M x"
  then show "pools_inv os M' s R" by (rule pools_inv_frame)
qed (rule pool_free_batch; assumption)+

lemma PoolAllocator_init_inv: "os_ok os \<Longrightarrow> machine_ok M \<Longrightarrow> pools_inv os M PoolAllocator_init {}"
  by (simp add: pools_inv_def PoolAllocator_init_def outs_def Shard_init_inv) (simp add: Shard_init_def)

section \<open>Properties\<close>

text \<open>
  C27: in every state that clients of the pools can reach by taking blocks, giving them back and
  writing into them, each outstanding block holds the header and its class's payload, is aligned,
  lies in mapped memory, and overlaps no other outstanding block.
\<close>

theorem pools_reachable_safe:
  assumes "os_ok os" "machine_ok M0"
    "tier_reach pool_admits (pool_alloc os) pool_free pool_capacity M0 PoolAllocator_init M pools R"
    "(i, b, n) \<in> R"
  shows "i < kClassCount \<and> n = blockStride i \<and> kHeaderSize + classSize i \<le> n \<and>
    16 dvd b \<and> {b..<b + n} \<subseteq> mapped_cells M \<and> (\<forall>(j, e) \<in> R. (j, e) \<noteq> (i, b, n) \<longrightarrow> apart (b, n) e)"
proof -
  have inv: "pools_inv os M pools R"
    using pools.reach_inv [OF assms(3) PoolAllocator_init_inv [OF assms(1,2)]] .
  have "apart (b, n) e" if "(j, e) \<in> R" "(j, e) \<noteq> (i, b, n)" for j e
    using pools.inv_apart [OF inv assms(4), of j e] that by auto
  then show ?thesis
    using outs_mem [OF inv assms(4)] pools.outstanding_mapped [OF inv assms(4)] blockStride_bounds(2) [of i]
      outstanding_block [OF inv assms(4)]
    by (auto simp: const_simps)
qed

lemma first_small_block:
  "\<exists>M pools. pool_alloc linear_os 0 32 blank_machine PoolAllocator_init = Some (65536, M, pools)"
proof -
  have "blockStride 0 = 32" by (simp add: blockStride_eq const_simps classSize_def kClassSizes_def)
  moreover have "MappedRegion_make linear_os kRunSize blank_machine =
      ((65536, 65536), blank_machine\<lparr>mapped := [(65536, 65536)]\<rparr>)"
    by (subst linear_os_map) (simp_all add: blank_machine_def top_of_def const_simps Let_def)
  ultimately show ?thesis
    by (simp add: pool_alloc_def PoolAllocator_allocateBlock_def PoolAllocator_init_def takeBlock_def
        refill_def bump_def Shard_init_def FreeList_empty_list_def FreeList_pop_def
        MappedRegion_valid_def const_simps)
qed

theorem pools_reachable_safe_witness:
  "\<exists>M pools. tier_reach pool_admits (pool_alloc linear_os) pool_free pool_capacity blank_machine
       PoolAllocator_init M pools {(0, 65536, 32)} \<and> {65536..<65536 + 32} \<subseteq> mapped_cells M"
proof -
  obtain M pools where a: "pool_alloc linear_os 0 32 blank_machine PoolAllocator_init = Some (65536, M, pools)"
    using first_small_block by blast
  have st: "blockStride 0 = 32" by (simp add: blockStride_eq const_simps classSize_def kClassSizes_def)
  then have k: "pool_admits 0 32" by (simp add: pool_admits_def const_simps)
  have r: "tier_reach pool_admits (pool_alloc linear_os) pool_free pool_capacity blank_machine
      PoolAllocator_init M pools {(0, 65536, 32)}"
    using tier_reach.block [where admits = pool_admits, OF tier_reach.start k, of "pool_alloc linear_os",
        OF a, of pool_free pool_capacity]
    by (simp add: pool_capacity_def st)
  show ?thesis
    using r pools_reachable_safe [OF linear_os_ok blank_machine_ok r, of 0 65536 32] by blast
qed

text \<open>
  Taking a block and giving one back leave every byte of the other outstanding blocks as
  it was.
\<close>

lemma pools_keep_user_data:
  assumes "pools_inv os M pools R" "i < kClassCount" "(j, a, n) \<in> R" "a \<le> x" "x < a + n"
  shows "(\<forall>p M' pools'. PoolAllocator_allocateBlock os i M pools = Some (p, M', pools') \<longrightarrow>
      mem M' x = mem M x) \<and>
    (\<forall>b M' pools'. (i, b, blockStride i) \<in> R - {(j, a, n)} \<longrightarrow>
      PoolAllocator_freeBlock i b M pools = Some (M', pools') \<longrightarrow> mem M' x = mem M x)"
proof (intro conjI allI impI)
  fix p M' pools'
  assume "PoolAllocator_allocateBlock os i M pools = Some (p, M', pools')"
  then have "pool_alloc os i 0 M pools = Some (p, M', pools')" by (simp add: pool_alloc_def)
  then show "mem M' x = mem M x"
    using assms(2) by (intro pools.alloc_keeps_data [OF assms(1) _ _ assms(3-5)]) (simp_all add: pool_admits_def)
next
  fix b M' pools'
  assume b: "(i, b, blockStride i) \<in> R - {(j, a, n)}"
    and "PoolAllocator_freeBlock i b M pools = Some (M', pools')"
  then have "pool_free i b M pools = (M', pools')" by (simp add: pool_free_def)
  then show "mem M' x = mem M x"
    using assms(3-5) b by (intro pools.free_keeps_data [OF assms(1), of i b "blockStride i" M' pools' j a n]) auto
qed

text \<open>The reference for a batch: single calls until one fails.\<close>

fun repeat_allocateBlock ::
    "os \<Rightarrow> nat \<Rightarrow> nat \<Rightarrow> machine \<Rightarrow> PoolAllocator \<Rightarrow> (addr list \<times> machine \<times> PoolAllocator) option" where
  "repeat_allocateBlock os i 0 M pools = Some ([], M, pools)"
| "repeat_allocateBlock os i (Suc n) M pools =
     do {
       (b, M', pools') \<leftarrow> PoolAllocator_allocateBlock os i M pools;
       if b = 0 then Some ([], M', pools')
       else do {
         (bs, M'', pools'') \<leftarrow> repeat_allocateBlock os i n M' pools';
         Some (b # bs, M'', pools'')
       }
     }"

text \<open>
  \<open>allocateBatch\<close>, which locks the shard once, gives the blocks and the state that calling
  \<open>allocateBlock\<close> until the span is full or a call fails would give.
\<close>

lemma allocateBatch_is_repeated_allocateBlock:
  assumes "i < length pools"
  shows "PoolAllocator_allocateBatch os i n M pools = repeat_allocateBlock os i n M pools"
  using assms
proof (induction n arbitrary: M pools)
  case 0
  then show ?case by (simp add: PoolAllocator_allocateBatch_def)
next
  case (Suc n)
  obtain b M' sh where t: "takeBlock os (blockStride i) M (pools ! i) = (b, M', sh)"
    by (cases "takeBlock os (blockStride i) M (pools ! i)") auto
  have "PoolAllocator_allocateBatch os i n M' (pools[i := sh]) = repeat_allocateBlock os i n M' (pools[i := sh])"
    using Suc by simp
  then show ?case
    using Suc.prems t
    by (auto simp: PoolAllocator_allocateBatch_def PoolAllocator_allocateBlock_def
        dest!: sym [of "Some _"] split: prod.splits)
qed

end
