(* ===== verification/ThreadCache.thy ===== *)
theory ThreadCache
  imports PoolAllocator
begin

text \<open>
  Per-thread caches of small blocks, \<^verbatim>\<open>src/ThreadCache.hpp\<close> and \<^verbatim>\<open>src/ThreadCache.cpp\<close>, and the small
  branches of \<^verbatim>\<open>AllocatorImpl\<close> that choose between a cache and the pools.  A cache keeps, for every
  class, a stack of blocks it took from the pools in batches; as far as the pools are concerned
  these blocks are outstanding.  The caches of all threads together with the pools meet the
  \<open>tier\<close> contract for any thread that allocates and any, possibly other, thread that frees.

  A cache also holds a weak pointer to the central state; \<open>expired\<close> is its state.  A cache that
  survives its allocator is expired, and may be found again under the address of a new one.
\<close>

section \<open>The code\<close>

definition kCapacity :: nat where [const_simps]: "kCapacity = 64"
definition kBatchSize :: nat where [const_simps]: "kBatchSize = 16"

record ClassCache =
  slots :: "addr list"
  count :: nat

record ThreadCache =
  caches :: "ClassCache list"
  expired :: bool

definition ThreadCache_make :: ThreadCache where
  "ThreadCache_make =
     \<lparr>caches = replicate kClassCount \<lparr>slots = replicate kCapacity 0, count = 0\<rparr>, expired = False\<rparr>"

text \<open>Taking the last used slot.\<close>

definition popSlot :: "nat \<Rightarrow> ThreadCache \<Rightarrow> addr \<times> ThreadCache" where
  "popSlot index tc =
     (let cache = caches tc ! index; n = count cache - 1
      in (slots cache ! n, tc\<lparr>caches := (caches tc)[index := cache\<lparr>count := n\<rparr>]\<rparr>))"

definition ThreadCache_allocateBlock ::
    "os \<Rightarrow> nat \<Rightarrow> machine \<Rightarrow> PoolAllocator \<Rightarrow> ThreadCache \<Rightarrow> (addr \<times> machine \<times> PoolAllocator \<times> ThreadCache) option" where
  "ThreadCache_allocateBlock os index M pools tc =
     (if index < length (caches tc) then
        let cache = caches tc ! index in
        if count cache = 0 then do {
          (blocks, M', pools') \<leftarrow> PoolAllocator_allocateBatch os index kBatchSize M pools;
          let n = length blocks;
              tc' = tc\<lparr>caches := (caches tc)[index := \<lparr>slots = blocks @ drop n (slots cache), count = n\<rparr>]\<rparr>
          in if n = 0 then Some (0, M', pools', tc')
             else let (b, tc'') = popSlot index tc' in Some (b, M', pools', tc'')
        }
        else let (b, tc') = popSlot index tc in Some (b, M, pools, tc')
      else None)"

text \<open>Storing in the next slot.\<close>

definition pushSlot :: "nat \<Rightarrow> addr \<Rightarrow> ThreadCache \<Rightarrow> ThreadCache" where
  "pushSlot index block tc =
     (let cache = caches tc ! index
      in tc\<lparr>caches := (caches tc)[index :=
            cache\<lparr>slots := (slots cache)[count cache := block], count := count cache + 1\<rparr>]\<rparr>)"

definition ThreadCache_freeBlock ::
    "nat \<Rightarrow> addr \<Rightarrow> machine \<Rightarrow> PoolAllocator \<Rightarrow> ThreadCache \<Rightarrow> (machine \<times> PoolAllocator \<times> ThreadCache) option" where
  "ThreadCache_freeBlock index block M pools tc =
     (if index < length (caches tc) then
        let cache = caches tc ! index in
        if count cache = kCapacity then
          let keep = kCapacity - kBatchSize in do {
            (M', pools') \<leftarrow> PoolAllocator_freeBatch index (take kBatchSize (drop keep (slots cache))) M pools;
            Some (M', pools', pushSlot index block (tc\<lparr>caches := (caches tc)[index := cache\<lparr>count := keep\<rparr>]\<rparr>))
          }
        else Some (M, pools, pushSlot index block tc)
      else None)"

text \<open>
  The destructor gives every cached block back, unless the central state is gone: the loop over
  the classes from \<open>index\<close> on.
\<close>

fun flush :: "nat \<Rightarrow> ClassCache list \<Rightarrow> machine \<Rightarrow> PoolAllocator \<Rightarrow> (machine \<times> PoolAllocator) option" where
  "flush index [] M pools = Some (M, pools)"
| "flush index (cache # rest) M pools =
     (if 0 < count cache then do {
        (M', pools') \<leftarrow> PoolAllocator_freeBatch index (take (count cache) (slots cache)) M pools;
        flush (Suc index) rest M' pools'
      }
      else flush (Suc index) rest M pools)"

definition ThreadCache_destroy :: "ThreadCache \<Rightarrow> machine \<Rightarrow> PoolAllocator \<Rightarrow> (machine \<times> PoolAllocator) option" where
  "ThreadCache_destroy tc M pools = (if expired tc then Some (M, pools) else flush 0 (caches tc) M pools)"

subsection \<open>The caches of all threads\<close>

text \<open>
  The entry of the calling thread's map for this allocator.  \<open>threadCache\<close> gives null when caching
  is off, and when the host heap, whose answer is \<open>ok\<close>, has no room for a new cache.
\<close>

type_synonym tls = "nat \<Rightarrow> ThreadCache option"

definition threadCache :: "bool \<Rightarrow> nat \<Rightarrow> bool \<Rightarrow> tls \<Rightarrow> ThreadCache option \<times> tls" where
  "threadCache enableThreadCache t ok tls =
     (if \<not> enableThreadCache then (None, tls)
      else case tls t of
        Some tc \<Rightarrow>
          if \<not> expired tc then (Some tc, tls)
          else if ok then (Some ThreadCache_make, tls(t \<mapsto> ThreadCache_make)) else (None, tls)
      | None \<Rightarrow> if ok then (Some ThreadCache_make, tls(t \<mapsto> ThreadCache_make)) else (None, tls))"

definition smallAllocate ::
    "os \<Rightarrow> bool \<Rightarrow> nat \<Rightarrow> bool \<Rightarrow> nat \<Rightarrow> machine \<Rightarrow> PoolAllocator \<times> tls \<Rightarrow> (addr \<times> machine \<times> PoolAllocator \<times> tls) option" where
  "smallAllocate os enableThreadCache t ok index M = (\<lambda>(pools, tls).
     case threadCache enableThreadCache t ok tls of
       (Some tc, tls') \<Rightarrow> do {
         (b, M', pools', tc') \<leftarrow> ThreadCache_allocateBlock os index M pools tc;
         Some (b, M', pools', tls'(t \<mapsto> tc'))
       }
     | (None, tls') \<Rightarrow> do {
         (b, M', pools') \<leftarrow> PoolAllocator_allocateBlock os index M pools;
         Some (b, M', pools', tls')
       })"

definition smallFree ::
    "bool \<Rightarrow> nat \<Rightarrow> bool \<Rightarrow> nat \<Rightarrow> addr \<Rightarrow> machine \<Rightarrow> PoolAllocator \<times> tls \<Rightarrow> (machine \<times> PoolAllocator \<times> tls) option" where
  "smallFree enableThreadCache t ok index block M = (\<lambda>(pools, tls).
     case threadCache enableThreadCache t ok tls of
       (Some tc, tls') \<Rightarrow> do {
         (M', pools', tc') \<leftarrow> ThreadCache_freeBlock index block M pools tc;
         Some (M', pools', tls'(t \<mapsto> tc'))
       }
     | (None, tls') \<Rightarrow> do {
         (M', pools') \<leftarrow> PoolAllocator_freeBlock index block M pools;
         Some (M', pools', tls')
       })"

text \<open>A thread ends: its map, and with it the cache, is destroyed.\<close>

definition threadExit :: "nat \<Rightarrow> machine \<Rightarrow> PoolAllocator \<times> tls \<Rightarrow> (machine \<times> PoolAllocator \<times> tls) option" where
  "threadExit t M = (\<lambda>(pools, tls).
     case tls t of
       None \<Rightarrow> Some (M, pools, tls)
     | Some tc \<Rightarrow> do {
         (M', pools') \<leftarrow> ThreadCache_destroy tc M pools;
         Some (M', pools', tls(t := None))
       })"

section \<open>What the caches hold\<close>

type_synonym held = "nat \<Rightarrow> nat \<Rightarrow> addr list"

definition cache_list :: "ClassCache \<Rightarrow> addr list" where
  "cache_list cache = take (count cache) (slots cache)"

definition tc_list :: "ThreadCache \<Rightarrow> nat \<Rightarrow> addr list" where
  "tc_list tc i = (if expired tc \<or> kClassCount \<le> i then [] else cache_list (caches tc ! i))"

definition cached :: "tls \<Rightarrow> held" where
  "cached tls t = (case tls t of Some tc \<Rightarrow> tc_list tc | None \<Rightarrow> (\<lambda>_. []))"

definition cache_wf :: "ThreadCache \<Rightarrow> bool" where
  "cache_wf tc \<longleftrightarrow> length (caches tc) = kClassCount \<and>
     (\<forall>cache \<in> set (caches tc). length (slots cache) = kCapacity \<and> count cache \<le> kCapacity)"

definition held_blocks :: "held \<Rightarrow> (nat \<times> region) set" where
  "held_blocks h = (\<Union>t. \<Union>i<kClassCount. blocks_of i (set (h t i)))"

definition held_ok :: "held \<Rightarrow> bool" where
  "held_ok h \<longleftrightarrow> (\<forall>t i. distinct (h t i)) \<and> (\<forall>t t' i. t \<noteq> t' \<longrightarrow> set (h t i) \<inter> set (h t' i) = {})"

definition held_upd :: "held \<Rightarrow> nat \<Rightarrow> nat \<Rightarrow> addr list \<Rightarrow> held" where
  "held_upd h t i bs = h(t := (h t)(i := bs))"

text \<open>
  The blocks the pools have handed out are those of the user and those in the caches; no block is
  both, or in two caches.
\<close>

definition core :: "os \<Rightarrow> machine \<Rightarrow> PoolAllocator \<Rightarrow> held \<Rightarrow> (nat \<times> region) set \<Rightarrow> bool" where
  "core os M pools h R \<longleftrightarrow>
     pools_inv os M pools (R \<union> held_blocks h) \<and> R \<inter> held_blocks h = {} \<and> held_ok h"

definition small_inv :: "os \<Rightarrow> machine \<Rightarrow> PoolAllocator \<times> tls \<Rightarrow> (nat \<times> region) set \<Rightarrow> bool" where
  "small_inv os M = (\<lambda>(pools, tls) R. core os M pools (cached tls) R \<and>
     (\<forall>t tc. tls t = Some tc \<longrightarrow> \<not> expired tc \<longrightarrow> cache_wf tc))"

lemma held_blocks_iff:
  "(i, b, n) \<in> held_blocks h \<longleftrightarrow> i < kClassCount \<and> n = blockStride i \<and> (\<exists>t. b \<in> set (h t i))"
  by (auto simp: held_blocks_def blocks_of_def)

lemma blocks_of_iff: "(j, b, n) \<in> blocks_of i B \<longleftrightarrow> j = i \<and> b \<in> B \<and> n = blockStride i"
  by (auto simp: blocks_of_def)

lemma held_blocks_upd:
  assumes "held_ok h" "i < kClassCount"
  shows "held_blocks (held_upd h t i bs) = (held_blocks h - blocks_of i (set (h t i))) \<union> blocks_of i (set bs)"
proof -
  have "(j, b, n) \<in> held_blocks (held_upd h t i bs) \<longleftrightarrow>
      (j, b, n) \<in> (held_blocks h - blocks_of i (set (h t i))) \<union> blocks_of i (set bs)" for j b n
    using assms unfolding held_ok_def
    by (auto simp: held_blocks_iff blocks_of_iff held_upd_def split: if_splits) blast+
  then show ?thesis by auto
qed

lemma held_ok_upd:
  assumes "held_ok h" "distinct bs" "\<And>t'. t' \<noteq> t \<Longrightarrow> set bs \<inter> set (h t' i) = {}"
  shows "held_ok (held_upd h t i bs)"
  using assms unfolding held_ok_def held_upd_def by (auto; blast)

lemma held_okD: "held_ok h \<Longrightarrow> distinct (h t i)" "held_ok h \<Longrightarrow> t \<noteq> t' \<Longrightarrow> set (h t i) \<inter> set (h t' i) = {}"
  unfolding held_ok_def by blast+

lemma held_ok_shrink:
  assumes "held_ok h" "h t i = xs @ ys"
  shows "held_ok (held_upd h t i xs)"
proof (rule held_ok_upd [OF assms(1)])
  show "distinct xs" using held_okD(1) [OF assms(1), of t i] assms(2) by simp
  show "set xs \<inter> set (h t' i) = {}" if "t' \<noteq> t" for t'
    using held_okD(2) [OF assms(1), of t t' i] that assms(2) by auto
qed

section \<open>Moving blocks between user, caches and pools\<close>

lemma tier_step_weaken: "tier_step E M rs M' rs' \<Longrightarrow> cells E' \<subseteq> cells E \<Longrightarrow> tier_step E' M rs M' rs'"
  unfolding tier_step_def by blast

lemma coreD:
  assumes "core os M pools h R"
  shows "pools_inv os M pools (R \<union> held_blocks h)" "R \<inter> held_blocks h = {}" "held_ok h"
  using assms by (auto simp: core_def)

lemma core_pop:
  assumes "core os M pools h R" "i < kClassCount" "h t i = xs @ [b]"
  shows "core os M pools (held_upd h t i xs) (insert (i, b, blockStride i) R)" "(i, b, blockStride i) \<notin> R"
proof -
  note c = coreD [OF assms(1)]
  have d: "distinct (xs @ [b])" using c(3) assms(3) unfolding held_ok_def by metis
  have in': "(i, b, blockStride i) \<in> held_blocks h"
    using assms(2,3) by (auto simp: held_blocks_iff intro!: exI [of _ t])
  then show "(i, b, blockStride i) \<notin> R" using c(2) by blast
  have eq: "held_blocks (held_upd h t i xs) = held_blocks h - {(i, b, blockStride i)}"
    using d in' assms(3) by (auto simp: held_blocks_upd [OF c(3) assms(2)] blocks_of_def held_blocks_iff assms(2) intro!: exI [of _ t])
  have "insert (i, b, blockStride i) R \<union> (held_blocks h - {(i, b, blockStride i)}) = R \<union> held_blocks h"
    using in' by blast
  moreover have "insert (i, b, blockStride i) R \<inter> (held_blocks h - {(i, b, blockStride i)}) = {}" using c(2) by blast
  moreover have "held_ok (held_upd h t i xs)" by (rule held_ok_shrink [OF c(3) assms(3)])
  ultimately show "core os M pools (held_upd h t i xs) (insert (i, b, blockStride i) R)"
    using c(1) unfolding core_def eq by (simp only: simp_thms)
qed

lemma core_push:
  assumes "core os M pools h R" "(i, b, blockStride i) \<in> R" "i < kClassCount"
  shows "core os M pools (held_upd h t i (h t i @ [b])) (R - {(i, b, blockStride i)})"
proof -
  note c = coreD [OF assms(1)]
  have "(i, b, blockStride i) \<notin> held_blocks h" using c(2) assms(2) by blast
  then have out: "b \<notin> set (h t' i)" for t' using assms(3) by (auto simp: held_blocks_iff)
  have eq: "held_blocks (held_upd h t i (h t i @ [b])) = insert (i, b, blockStride i) (held_blocks h)"
    using assms(3) by (auto simp: held_blocks_upd [OF c(3) assms(3)] blocks_of_def held_blocks_iff intro!: exI [of _ t])
  have "held_ok (held_upd h t i (h t i @ [b]))"
    using held_okD [OF c(3)] out by (intro held_ok_upd [OF c(3)]) auto
  moreover have "R - {(i, b, blockStride i)} \<union> insert (i, b, blockStride i) (held_blocks h) = R \<union> held_blocks h"
    using assms(2) by auto
  ultimately show ?thesis using c unfolding core_def eq by auto
qed

lemma core_refill:
  assumes "core os M pools h R" "i < kClassCount" "h t i = []"
    "PoolAllocator_allocateBatch os i n M pools = Some (bs, M', pools')"
  shows "core os M' pools' (held_upd h t i bs) R" "tier_step (snd ` R) M (pool_regs pools) M' (pool_regs pools')"
    "length bs \<le> n" "\<forall>b \<in> set bs. b \<noteq> 0 \<and> 16 dvd b"
proof -
  note c = coreD [OF assms(1)]
  note a = allocateBatch_inv [OF c(1) assms(2,4)]
  show "length bs \<le> n" "\<forall>b \<in> set bs. b \<noteq> 0 \<and> 16 dvd b" by (rule a(2), rule a(3))
  show "tier_step (snd ` R) M (pool_regs pools) M' (pool_regs pools')"
    by (rule tier_step_weaken [OF a(6)]) (intro cells_mono; blast)
  have fresh: "b \<notin> set (h t' i)" "(i, b, blockStride i) \<notin> R" if "b \<in> set bs" for b t'
    using a(4) that assms(2) by (auto simp: outs_def held_blocks_iff)
  have eq: "held_blocks (held_upd h t i bs) = held_blocks h \<union> blocks_of i (set bs)"
    by (simp add: held_blocks_upd [OF c(3) assms(2)] assms(3) blocks_of_def)
  have "held_ok (held_upd h t i bs)" using c(3) a(1) fresh(1) by (intro held_ok_upd) auto
  moreover have "blocks_of i (set bs) \<union> (R \<union> held_blocks h) = R \<union> (held_blocks h \<union> blocks_of i (set bs))" by auto
  moreover have "R \<inter> blocks_of i (set bs) = {}" using fresh(2) by (auto simp: blocks_of_def)
  ultimately show "core os M' pools' (held_upd h t i bs) R" using c a(5) unfolding core_def eq by auto
qed

lemma core_give_back:
  assumes "core os M pools h R" "i < kClassCount" "h t i = xs @ ys"
    "PoolAllocator_freeBatch i ys M pools = Some (M', pools')"
  shows "core os M' pools' (held_upd h t i xs) R" "tier_step (snd ` R) M (pool_regs pools) M' (pool_regs pools')"
proof -
  note c = coreD [OF assms(1)]
  have d: "distinct (xs @ ys)" using c(3) assms(3) unfolding held_ok_def by metis
  have sub: "blocks_of i (set ys) \<subseteq> held_blocks h"
    using assms(2,3) by (auto simp: blocks_of_def held_blocks_iff intro!: exI [of _ t])
  then have out: "set ys \<subseteq> outs (R \<union> held_blocks h) i" by (auto simp: outs_def blocks_of_def)
  have dy: "distinct ys" using d by simp
  note f = freeBatch_inv [OF c(1) assms(2) dy out assms(4)]
  have eq: "held_blocks (held_upd h t i xs) = held_blocks h - blocks_of i (set ys)"
    using d assms(2,3) by (auto simp: held_blocks_upd [OF c(3) assms(2)] blocks_of_def held_blocks_iff intro!: exI [of _ t])
  have eq': "R \<union> held_blocks h - blocks_of i (set ys) = R \<union> (held_blocks h - blocks_of i (set ys))"
    using c(2) sub by blast
  have "held_ok (held_upd h t i xs)" by (rule held_ok_shrink [OF c(3) assms(3)])
  then show "core os M' pools' (held_upd h t i xs) R" using c f(1) unfolding core_def eq eq' by auto
  show "tier_step (snd ` R) M (pool_regs pools) M' (pool_regs pools')"
    by (rule tier_step_weaken [OF f(2)]) (unfold eq', intro cells_mono, blast)
qed

section \<open>The operations\<close>

lemma tc_list_upd:
  assumes "length (caches tc) = kClassCount" "i < kClassCount" "\<not> expired tc"
  shows "tc_list (tc\<lparr>caches := (caches tc)[i := c]\<rparr>) = (tc_list tc)(i := cache_list c)"
  using assms by (auto simp: tc_list_def fun_eq_iff nth_list_update)

lemma cached_upd:
  assumes "tls t = Some tc" "tc_list tc' = (tc_list tc)(i := bs)"
  shows "cached (tls(t \<mapsto> tc')) = held_upd (cached tls) t i bs"
  using assms by (auto simp: cached_def held_upd_def fun_eq_iff)

lemma cached_at: "tls t = Some tc \<Longrightarrow> cached tls t = tc_list tc"
  by (simp add: cached_def)

lemma cache_wf_upd:
  assumes "cache_wf tc" "length (slots c) = kCapacity" "count c \<le> kCapacity"
  shows "cache_wf (tc\<lparr>caches := (caches tc)[i := c]\<rparr>)"
  using assms unfolding cache_wf_def by (auto dest!: set_update_subset_insert [THEN subsetD])

lemma cache_wf_at:
  assumes "cache_wf tc" "i < kClassCount"
  shows "length (slots (caches tc ! i)) = kCapacity" "count (caches tc ! i) \<le> kCapacity" "i < length (caches tc)"
  using assms nth_mem [of i "caches tc"] unfolding cache_wf_def by auto

lemma popSlot_list:
  assumes "cache_wf tc" "i < kClassCount" "\<not> expired tc" "0 < count (caches tc ! i)" "popSlot i tc = (b, tc')"
  shows "\<exists>xs. tc_list tc i = xs @ [b] \<and> tc_list tc' = (tc_list tc)(i := xs)" "cache_wf tc'" "\<not> expired tc'"
proof -
  let ?c = "caches tc ! i"
  note wf = cache_wf_at [OF assms(1,2)]
  have tc': "tc' = tc\<lparr>caches := (caches tc)[i := ?c\<lparr>count := count ?c - 1\<rparr>]\<rparr>" and b: "b = slots ?c ! (count ?c - 1)"
    using assms(5) by (auto simp: popSlot_def Let_def)
  have "take (count ?c) (slots ?c) = take (count ?c - 1) (slots ?c) @ [b]"
    using wf assms(4) take_Suc_conv_app_nth [of "count ?c - 1" "slots ?c"] b by simp
  then have "tc_list tc i = cache_list (?c\<lparr>count := count ?c - 1\<rparr>) @ [b]"
    using assms(2,3) by (simp add: tc_list_def cache_list_def)
  then show "\<exists>xs. tc_list tc i = xs @ [b] \<and> tc_list tc' = (tc_list tc)(i := xs)"
    using tc_list_upd [of tc i] assms(1-3) unfolding tc' by (auto simp: cache_wf_def)
  show "cache_wf tc'" "\<not> expired tc'" unfolding tc' using cache_wf_upd [OF assms(1)] wf assms(3) by auto
qed

lemma pushSlot_list:
  assumes "cache_wf tc" "i < kClassCount" "\<not> expired tc" "count (caches tc ! i) < kCapacity"
  shows "tc_list (pushSlot i b tc) = (tc_list tc)(i := tc_list tc i @ [b])"
    "cache_wf (pushSlot i b tc)" "\<not> expired (pushSlot i b tc)"
proof -
  let ?c = "caches tc ! i"
  note wf = cache_wf_at [OF assms(1,2)]
  let ?d = "?c\<lparr>slots := (slots ?c)[count ?c := b], count := count ?c + 1\<rparr>"
  have "cache_list ?d = cache_list ?c @ [b]"
    using wf assms(4) by (simp add: cache_list_def take_Suc_conv_app_nth)
  moreover have "tc_list tc i = cache_list ?c" using assms(2,3) by (simp add: tc_list_def)
  ultimately show "tc_list (pushSlot i b tc) = (tc_list tc)(i := tc_list tc i @ [b])"
    using tc_list_upd [of tc i ?d] assms(1-3) by (simp add: pushSlot_def Let_def cache_wf_def)
  show "cache_wf (pushSlot i b tc)" "\<not> expired (pushSlot i b tc)"
    using cache_wf_upd [OF assms(1), of ?d i] wf assms(3,4) by (auto simp: pushSlot_def Let_def)
qed

text \<open>A cache taken from the map, fresh or not, holds what the map says.\<close>

lemma ThreadCache_make_facts: "cache_wf ThreadCache_make" "\<not> expired ThreadCache_make" "tc_list ThreadCache_make = (\<lambda>_. [])"
  by (auto simp: ThreadCache_make_def cache_wf_def tc_list_def cache_list_def fun_eq_iff)

lemma threadCache_same:
  assumes "small_inv os M (pools, tls) R" "threadCache en t ok tls = (r, tls')"
  shows "small_inv os M (pools, tls') R" "cached tls' = cached tls"
    "r = Some tc \<Longrightarrow> tls' t = Some tc \<and> \<not> expired tc \<and> cache_wf tc"
proof -
  have "cached (tls(t \<mapsto> ThreadCache_make)) = cached tls" if "\<forall>tc. tls t = Some tc \<longrightarrow> expired tc"
    using that by (auto simp: cached_def fun_eq_iff tc_list_def ThreadCache_make_facts split: option.splits)
  then show c: "cached tls' = cached tls" using assms(2) by (auto simp: threadCache_def split: if_splits option.splits)
  show "small_inv os M (pools, tls') R" "r = Some tc \<Longrightarrow> tls' t = Some tc \<and> \<not> expired tc \<and> cache_wf tc"
    using assms c ThreadCache_make_facts(1,2)
    by (auto simp: threadCache_def small_inv_def split: if_splits option.splits)
qed

lemma small_wf: "small_inv os M (pools, tls) R \<Longrightarrow> tls t = Some tc \<Longrightarrow> \<not> expired tc \<Longrightarrow> cache_wf tc"
  unfolding small_inv_def by blast

lemma small_inv_upd:
  assumes "core os M' pools' (cached (tls(t \<mapsto> tc'))) R'" "cache_wf tc'" "small_inv os M (pools, tls) R"
  shows "small_inv os M' (pools', tls(t \<mapsto> tc')) R'"
  using assms by (auto simp: small_inv_def)

lemma small_pop:
  assumes "small_inv os M (pools, tls) R" "tls t = Some tc" "\<not> expired tc" "i < kClassCount"
    "0 < count (caches tc ! i)" "popSlot i tc = (b, tc')"
  shows "small_inv os M (pools, tls(t \<mapsto> tc')) (insert (i, b, blockStride i) R)" "(i, b, blockStride i) \<notin> R"
    "b \<noteq> 0" "16 dvd b"
proof -
  have wf: "cache_wf tc" and c: "core os M pools (cached tls) R" using assms(1-3) by (auto simp: small_inv_def)
  note pop = popSlot_list [OF wf assms(4,3,5,6)]
  obtain xs where xs: "tc_list tc i = xs @ [b]" "tc_list tc' = (tc_list tc)(i := xs)" using pop(1) by blast
  have h: "cached tls t i = xs @ [b]" using xs(1) cached_at [of tls t tc] assms(2) by simp
  note cp = core_pop [OF c assms(4) h]
  show "small_inv os M (pools, tls(t \<mapsto> tc')) (insert (i, b, blockStride i) R)"
    using cp(1) cached_upd [of tls t, OF assms(2) xs(2)] pop(2) by (intro small_inv_upd [OF _ _ assms(1)]) simp_all
  show "(i, b, blockStride i) \<notin> R" by (rule cp(2))
  show "b \<noteq> 0" "16 dvd b" using outstanding_block [OF coreD(1) [OF cp(1)], of i b "blockStride i"] by auto
qed

text \<open>An allocation by any thread.\<close>

lemma smallAllocate_inv:
  assumes "small_inv os M (pools, tls) R" "i < kClassCount"
  obtains (null) M' pools' tls' where "smallAllocate os en t ok i M (pools, tls) = Some (0, M', pools', tls')"
      "small_inv os M' (pools', tls') R" "tier_step (snd ` R) M (pool_regs pools) M' (pool_regs pools')"
  | (block) b M' pools' tls' where "smallAllocate os en t ok i M (pools, tls) = Some (b, M', pools', tls')"
      "small_inv os M' (pools', tls') (insert (i, b, blockStride i) R)" "(i, b, blockStride i) \<notin> R"
      "b \<noteq> 0" "16 dvd b" "tier_step (snd ` R) M (pool_regs pools) M' (pool_regs pools')"
proof -
  obtain r tls1 where tl: "threadCache en t ok tls = (r, tls1)" by (cases "threadCache en t ok tls")
  note same = threadCache_same [OF assms(1) tl]
  have core1: "core os M pools (cached tls1) R" using same(1) by (simp add: small_inv_def)
  note pinv = coreD(1) [OF core1]
  show thesis
  proof (cases r)
    case None
    obtain b M' pools' where a: "PoolAllocator_allocateBlock os i M pools = Some (b, M', pools')"
      using pools.alloc_returns [OF pinv, of i 0] assms(2) by (auto simp: pool_alloc_def pool_admits_def)
    have run: "smallAllocate os en t ok i M (pools, tls) = Some (b, M', pools', tls1)"
      using tl None a by (simp add: smallAllocate_def)
    have adm: "pool_admits i 0" using assms(2) by (simp add: pool_admits_def)
    have al: "pool_alloc os i 0 M pools = Some (b, M', pools')" using a by (simp add: pool_alloc_def)
    have step: "tier_step (snd ` R) M (pool_regs pools) M' (pool_regs pools')"
      by (rule tier_step_weaken [OF pools.alloc_step [OF pinv adm al]]) (intro cells_mono; blast)
    show thesis
    proof (cases "b = 0")
      case True
      then have "pools_inv os M' pools' (R \<union> held_blocks (cached tls1))"
        using pools.alloc_null [OF pinv adm] al by simp
      then have "small_inv os M' (pools', tls1) R" using same(1) by (simp add: small_inv_def core_def)
      then show thesis using null run True step by blast
    next
      case False
      note blk = pools.alloc_block [OF pinv adm al False, unfolded pool_capacity_def]
      then have "small_inv os M' (pools', tls1) (insert (i, b, blockStride i) R)"
        using same(1) by (auto simp: small_inv_def core_def)
      then show thesis using block [OF run] blk False step by simp
    qed
  next
    case (Some tc)
    have tc: "tls1 t = Some tc" "\<not> expired tc" "cache_wf tc" using same(3) [OF Some] by auto
    note at = cache_wf_at [OF tc(3) assms(2)]
    show thesis
    proof (cases "count (caches tc ! i) = 0")
      case True
      obtain bs M' pools' where a: "PoolAllocator_allocateBatch os i kBatchSize M pools = Some (bs, M', pools')"
        using assms(2) pools_invD(3) [OF pinv]
        by (cases "takeBatch os (blockStride i) kBatchSize M (pools ! i)") (auto simp: PoolAllocator_allocateBatch_def)
      have "cached tls1 t i = []" using True tc(2) cached_at [of tls1 t, OF tc(1)] by (simp add: tc_list_def cache_list_def)
      note re = core_refill [OF core1 assms(2) this a]
      let ?c = "\<lparr>slots = bs @ drop (length bs) (slots (caches tc ! i)), count = length bs\<rparr>"
      let ?tc = "tc\<lparr>caches := (caches tc)[i := ?c]\<rparr>"
      have "length bs \<le> 16" using re(3) by (simp add: const_simps)
      then have wf: "cache_wf ?tc" using at by (intro cache_wf_upd [OF tc(3)]) (auto simp: const_simps)
      have "tc_list ?tc = (tc_list tc)(i := bs)"
        using tc_list_upd [of tc i ?c] tc(2,3) assms(2) by (simp add: cache_wf_def cache_list_def)
      then have "cached (tls1(t \<mapsto> ?tc)) = held_upd (cached tls1) t i bs" by (rule cached_upd [of tls1 t, OF tc(1)])
      then have inv2: "small_inv os M' (pools', tls1(t \<mapsto> ?tc)) R"
        using re(1) wf by (intro small_inv_upd [OF _ _ same(1)]) simp_all
      show thesis
      proof (cases "bs = []")
        case N: True
        then have "smallAllocate os en t ok i M (pools, tls) = Some (0, M', pools', tls1(t \<mapsto> ?tc))"
          using tl Some at(3) True a by (simp add: smallAllocate_def ThreadCache_allocateBlock_def Let_def)
        then show thesis using null inv2 re(2) by blast
      next
        case False
        obtain b tc' where p: "popSlot i ?tc = (b, tc')" by (cases "popSlot i ?tc")
        have "0 < count (caches ?tc ! i)" "(tls1(t \<mapsto> ?tc)) t = Some ?tc" "\<not> expired ?tc" using False at(3) tc(2) by simp_all
        from small_pop [where tls = "tls1(t \<mapsto> ?tc)", OF inv2 this(2,3) assms(2) this(1) p]
        have "small_inv os M' (pools', tls1(t \<mapsto> tc')) (insert (i, b, blockStride i) R)" "(i, b, blockStride i) \<notin> R"
          "b \<noteq> 0" "16 dvd b" by simp_all
        moreover have "smallAllocate os en t ok i M (pools, tls) = Some (b, M', pools', tls1(t \<mapsto> tc'))"
          using tl Some at(3) True a False p by (simp add: smallAllocate_def ThreadCache_allocateBlock_def Let_def)
        ultimately show thesis using block re(2) by blast
      qed
    next
      case False
      obtain b tc' where p: "popSlot i tc = (b, tc')" by (cases "popSlot i tc")
      have "smallAllocate os en t ok i M (pools, tls) = Some (b, M, pools, tls1(t \<mapsto> tc'))"
        using tl Some at(3) False p by (simp add: smallAllocate_def ThreadCache_allocateBlock_def Let_def)
      then show thesis using block small_pop [OF same(1) tc(1,2) assms(2) _ p] False tier_step_refl by blast
    qed
  qed
qed

text \<open>A release by any thread, not necessarily the one that allocated.\<close>

lemma smallFree_inv:
  assumes "small_inv os M (pools, tls) R" "(i, b, n) \<in> R"
  obtains M' pools' tls' where "smallFree en t ok i b M (pools, tls) = Some (M', pools', tls')"
    "small_inv os M' (pools', tls') (R - {(i, b, n)})"
    "tier_step (snd ` (R - {(i, b, n)})) M (pool_regs pools) M' (pool_regs pools')"
proof -
  note result = that
  obtain r tls1 where tl: "threadCache en t ok tls = (r, tls1)" by (cases "threadCache en t ok tls")
  note same = threadCache_same [OF assms(1) tl]
  have core1: "core os M pools (cached tls1) R" using same(1) by (simp add: small_inv_def)
  note pinv = coreD(1) [OF core1]
  have i: "i < kClassCount" "n = blockStride i" using outs_mem [OF pinv, of i b n] assms(2) by auto
  have len: "length pools = kClassCount" using pools_invD(3) [OF pinv] .
  show thesis
  proof (cases r)
    case None
    obtain M' pools' where f: "PoolAllocator_freeBlock i b M pools = Some (M', pools')"
      using i len by (auto simp: PoolAllocator_freeBlock_def Let_def case_prod_beta)
    then have f': "pool_free i b M pools = (M', pools')" by (simp add: pool_free_def)
    have mem: "(i, b, n) \<in> R \<union> held_blocks (cached tls1)" using assms(2) by simp
    have eq: "R \<union> held_blocks (cached tls1) - {(i, b, n)} = R - {(i, b, n)} \<union> held_blocks (cached tls1)"
      using assms(2) coreD(2) [OF core1] by blast
    note pf = pool_free_batch [OF pinv mem f', unfolded eq]
    have "small_inv os M' (pools', tls1) (R - {(i, b, n)})"
      using pf(1) same(1) by (auto simp: small_inv_def core_def)
    moreover have "tier_step (snd ` (R - {(i, b, n)})) M (pool_regs pools) M' (pool_regs pools')"
      by (rule tier_step_weaken [OF pf(2)]) (intro cells_mono; blast)
    ultimately show thesis using result tl None f by (simp add: smallFree_def)
  next
    case (Some tc)
    have tc: "tls1 t = Some tc" "\<not> expired tc" "cache_wf tc" using same(3) [OF Some] by auto
    note at = cache_wf_at [OF tc(3) i(1)]
    have push: thesis
      if inv1: "small_inv os M1 (pools1, tls1(t \<mapsto> tc1)) R" and tc1: "\<not> expired tc1" "count (caches tc1 ! i) < kCapacity"
        and step: "tier_step (snd ` R) M (pool_regs pools) M1 (pool_regs pools1)"
        and run: "smallFree en t ok i b M (pools, tls) = Some (M1, pools1, tls1(t \<mapsto> pushSlot i b tc1))"
      for M1 pools1 tc1
    proof -
      let ?tls = "tls1(t \<mapsto> tc1)"
      have wf: "cache_wf tc1" using small_wf [OF inv1, of t tc1] tc1(1) by simp
      have c: "core os M1 pools1 (cached ?tls) R" using inv1 by (simp add: small_inv_def)
      note pl = pushSlot_list [OF wf i(1) tc1]
      have "cached (?tls(t \<mapsto> pushSlot i b tc1)) = held_upd (cached ?tls) t i (cached ?tls t i @ [b])"
        using cached_upd [of ?tls t tc1 _ i] pl(1) by (simp add: cached_at [of ?tls t tc1])
      then have "small_inv os M1 (pools1, ?tls(t \<mapsto> pushSlot i b tc1)) (R - {(i, b, n)})"
        using core_push [OF c _ i(1), of b t] assms(2) i(2) pl(2) by (intro small_inv_upd [OF _ _ inv1]) simp_all
      moreover have "tier_step (snd ` (R - {(i, b, n)})) M (pool_regs pools) M1 (pool_regs pools1)"
        by (rule tier_step_weaken [OF step]) (intro cells_mono; blast)
      ultimately show thesis using result run by simp
    qed
    show thesis
    proof (cases "count (caches tc ! i) = kCapacity")
      case False
      have "smallFree en t ok i b M (pools, tls) = Some (M, pools, tls1(t \<mapsto> pushSlot i b tc))"
        using tl Some at(3) False by (simp add: smallFree_def ThreadCache_freeBlock_def Let_def)
      moreover have "tls1(t \<mapsto> tc) = tls1" using tc(1) by auto
      ultimately show thesis using push [of M pools tc] same(1) tc(2) at(2) False tier_step_refl by simp
    next
      case True
      let ?c = "caches tc ! i" and ?keep = "kCapacity - kBatchSize"
      let ?ys = "take kBatchSize (drop ?keep (slots ?c))"
      obtain M' pools' where f: "PoolAllocator_freeBatch i ?ys M pools = Some (M', pools')"
        using i len by (auto simp: PoolAllocator_freeBatch_def Let_def case_prod_beta)
      let ?d = "?c\<lparr>count := ?keep\<rparr>"
      let ?tc = "tc\<lparr>caches := (caches tc)[i := ?d]\<rparr>"
      have split: "cached tls1 t i = take ?keep (slots ?c) @ ?ys"
        using True at tc(2) i(1) take_add [of ?keep kBatchSize "slots ?c"]
        by (simp add: cached_at [of tls1 t tc, OF tc(1)] tc_list_def cache_list_def const_simps)
      note gb = core_give_back [OF core1 i(1) split f]
      have "tc_list ?tc = (tc_list tc)(i := take ?keep (slots ?c))"
        using tc_list_upd [of tc i ?d] tc(2,3) i(1) by (simp add: cache_wf_def cache_list_def)
      then have "cached (tls1(t \<mapsto> ?tc)) = held_upd (cached tls1) t i (take ?keep (slots ?c))"
        by (rule cached_upd [of tls1 t, OF tc(1)])
      moreover have "cache_wf ?tc" using at by (intro cache_wf_upd [OF tc(3)]) (auto simp: const_simps)
      ultimately have inv1: "small_inv os M' (pools', tls1(t \<mapsto> ?tc)) R"
        using gb(1) by (intro small_inv_upd [OF _ _ same(1)]) simp_all
      have "smallFree en t ok i b M (pools, tls) = Some (M', pools', tls1(t \<mapsto> pushSlot i b ?tc))"
        using tl Some at(3) True f by (simp add: smallFree_def ThreadCache_freeBlock_def Let_def)
      then show thesis using push [OF inv1] tc(2) at(3) gb(2) by (simp add: const_simps)
    qed
  qed
qed

text \<open>The end of a thread.\<close>

lemma freeBatch_regs:
  assumes "PoolAllocator_freeBatch i bs M pools = Some (M', pools')"
  shows "pool_regs pools' = pool_regs pools"
proof -
  obtain fl where "i < length pools" "pools' = pools[i := (pools ! i)\<lparr>freeList := fl\<rparr>]"
    using assms by (auto simp: PoolAllocator_freeBatch_def Let_def split: if_splits prod.splits)
  then have "map runs pools' = map runs pools" by (simp add: map_update list_update_same_conv)
  then show ?thesis by (simp add: pool_regs_def)
qed

lemma flush_core:
  assumes "core os M pools h R" "k + length cs = kClassCount" "\<forall>j < length cs. h t (k + j) = cache_list (cs ! j)"
  shows "\<exists>M' pools'. flush k cs M pools = Some (M', pools') \<and> pool_regs pools' = pool_regs pools \<and>
    core os M' pools' (h(t := (\<lambda>i. if k \<le> i \<and> i < kClassCount then [] else h t i))) R \<and>
    tier_step (snd ` R) M (pool_regs pools) M' (pool_regs pools)"
  using assms
proof (induction cs arbitrary: k M pools h)
  case Nil
  then have "h(t := (\<lambda>i. if k \<le> i \<and> i < kClassCount then [] else h t i)) = h" by (auto simp: fun_eq_iff)
  then show ?case using Nil tier_step_refl by simp
next
  case (Cons c cs)
  have k: "k < kClassCount" using Cons.prems(2) by simp
  have hk: "h t k = cache_list c" using Cons.prems(3) by (metis add_0_right length_greater_0_conv list.distinct(1) nth_Cons_0)
  have one: "\<exists>M1 pools1. flush k (c # cs) M pools = flush (Suc k) cs M1 pools1 \<and> pool_regs pools1 = pool_regs pools \<and>
      core os M1 pools1 (held_upd h t k []) R \<and> tier_step (snd ` R) M (pool_regs pools) M1 (pool_regs pools)"
  proof (cases "0 < count c")
    case True
    obtain M1 pools1 where f: "PoolAllocator_freeBatch k (cache_list c) M pools = Some (M1, pools1)"
      using k pools_invD(3) [OF coreD(1) [OF Cons.prems(1)]]
      by (auto simp: PoolAllocator_freeBatch_def Let_def case_prod_beta)
    note gb = core_give_back [where xs = "[]", OF Cons.prems(1) k, simplified, OF hk f]
    show ?thesis using True f gb freeBatch_regs [OF f]
      by (intro exI [of _ M1] exI [of _ pools1]) (simp add: cache_list_def)
  next
    case False
    then have "held_upd h t k [] = h" using hk by (simp add: held_upd_def cache_list_def fun_eq_iff)
    then show ?thesis using False Cons.prems(1) tier_step_refl [of "snd ` R" M "pool_regs pools"]
      by (intro exI [of _ M] exI [of _ pools]) simp
  qed
  then obtain M1 pools1 where s: "flush k (c # cs) M pools = flush (Suc k) cs M1 pools1"
    "pool_regs pools1 = pool_regs pools" "core os M1 pools1 (held_upd h t k []) R"
    "tier_step (snd ` R) M (pool_regs pools) M1 (pool_regs pools)" by blast
  let ?h = "held_upd h t k []"
  have rest: "\<forall>j < length cs. ?h t (Suc k + j) = cache_list (cs ! j)"
    using Cons.prems(3) by (auto simp: held_upd_def dest: spec [of _ "Suc _"])
  have "Suc k + length cs = kClassCount" using Cons.prems(2) by simp
  from Cons.IH [where h = ?h, OF s(3) this rest] obtain M' pools' where r: "flush (Suc k) cs M1 pools1 = Some (M', pools')"
    "pool_regs pools' = pool_regs pools1"
    "core os M' pools' (?h(t := (\<lambda>i. if Suc k \<le> i \<and> i < kClassCount then [] else ?h t i))) R"
    "tier_step (snd ` R) M1 (pool_regs pools1) M' (pool_regs pools1)" by blast
  have eq: "?h(t := (\<lambda>i. if Suc k \<le> i \<and> i < kClassCount then [] else ?h t i)) =
      h(t := (\<lambda>i. if k \<le> i \<and> i < kClassCount then [] else h t i))"
    using k by (auto simp: held_upd_def fun_eq_iff)
  have step: "tier_step (snd ` R) M (pool_regs pools) M' (pool_regs pools)"
    using tier_step_trans [OF s(4) r(4) [unfolded s(2)]] by simp
  have run: "flush k (c # cs) M pools = Some (M', pools')" using s(1) r(1) by (rule trans)
  have regs: "pool_regs pools' = pool_regs pools" using r(2) s(2) by (rule trans)
  show ?case using run regs r(3) [unfolded eq] step by blast
qed

lemma threadExit_inv:
  assumes "small_inv os M (pools, tls) R"
  obtains M' pools' where "threadExit t M (pools, tls) = Some (M', pools', tls(t := None))"
    "small_inv os M' (pools', tls(t := None)) R" "pool_regs pools' = pool_regs pools"
    "tier_step (snd ` R) M (pool_regs pools) M' (pool_regs pools')"
proof -
  have c: "core os M pools (cached tls) R" using assms by (simp add: small_inv_def)
  have wf: "\<forall>t' tc. (tls(t := None)) t' = Some tc \<longrightarrow> \<not> expired tc \<longrightarrow> cache_wf tc"
    using small_wf [OF assms] by (auto split: if_splits)
  show thesis
  proof (cases "\<exists>tc. tls t = Some tc \<and> \<not> expired tc")
    case True
    then obtain tc where tc: "tls t = Some tc" "\<not> expired tc" by blast
    have len: "length (caches tc) = kClassCount" using small_wf [OF assms tc] by (simp add: cache_wf_def)
    have "\<forall>j < length (caches tc). cached tls t (0 + j) = cache_list (caches tc ! j)"
      using tc len by (simp add: cached_def tc_list_def)
    from flush_core [where h = "cached tls" and t = t, OF c _ this] len obtain M' pools' where f: "flush 0 (caches tc) M pools = Some (M', pools')"
      "pool_regs pools' = pool_regs pools"
      "core os M' pools' ((cached tls)(t := (\<lambda>i. if 0 \<le> i \<and> i < kClassCount then [] else cached tls t i))) R"
      "tier_step (snd ` R) M (pool_regs pools) M' (pool_regs pools)" by fastforce
    have eq: "(cached tls)(t := (\<lambda>i. if 0 \<le> i \<and> i < kClassCount then [] else cached tls t i)) = cached (tls(t := None))"
      using tc by (auto simp: cached_def tc_list_def fun_eq_iff)
    have "small_inv os M' (pools', tls(t := None)) R" using f(3) [unfolded eq] wf by (simp add: small_inv_def)
    then show thesis using that [of M' pools'] f(1,2,4) tc by (simp add: threadExit_def ThreadCache_destroy_def)
  next
    case False
    then have "cached (tls(t := None)) = cached tls"
      by (auto simp: cached_def tc_list_def fun_eq_iff split: option.splits)
    then have "small_inv os M (pools, tls(t := None)) R" using c wf by (simp add: small_inv_def)
    moreover have "threadExit t M (pools, tls) = Some (M, pools, tls(t := None))"
      using False by (auto simp: threadExit_def ThreadCache_destroy_def fun_eq_iff split: option.splits)
    ultimately show thesis using that tier_step_refl by blast
  qed
qed

section \<open>Caches and pools are a tier\<close>

definition small_regs :: "PoolAllocator \<times> tls \<Rightarrow> region list" where
  "small_regs s = pool_regs (fst s)"

definition small_alloc ::
    "os \<Rightarrow> bool \<Rightarrow> nat \<Rightarrow> bool \<Rightarrow> nat \<Rightarrow> nat \<Rightarrow> machine \<Rightarrow> PoolAllocator \<times> tls \<Rightarrow> (addr \<times> machine \<times> PoolAllocator \<times> tls) option" where
  "small_alloc os en t ok i n M s = smallAllocate os en t ok i M s"

definition small_free ::
    "bool \<Rightarrow> nat \<Rightarrow> bool \<Rightarrow> nat \<Rightarrow> addr \<Rightarrow> machine \<Rightarrow> PoolAllocator \<times> tls \<Rightarrow> machine \<times> PoolAllocator \<times> tls" where
  "small_free en t ok i b M s = (case smallFree en t ok i b M s of None \<Rightarrow> (M, s) | Some r \<Rightarrow> r)"

definition small_capacity :: "nat \<Rightarrow> machine \<Rightarrow> PoolAllocator \<times> tls \<Rightarrow> addr \<Rightarrow> nat" where
  "small_capacity i M s b = blockStride i"

lemma small_inv_pools:
  assumes "small_inv os M s R"
  shows "pools_inv os M (fst s) (R \<union> held_blocks (cached (snd s)))"
  using assms by (auto simp: small_inv_def core_def split: prod.splits)

interpretation small: tier small_regs "small_inv os" pool_admits "small_alloc os en t ok" "small_free en t' ok'"
  small_capacity for os en t ok t' ok'
proof unfold_locales
  fix M s R assume inv: "small_inv os M s R"
  obtain pools tls where s: "s = (pools, tls)" by (cases s)
  note pinv = small_inv_pools [OF inv]
  show "machine_ok M \<and> set (small_regs s) \<subseteq> set (mapped M)" using pools.inv_machine [OF pinv] by (simp add: small_regs_def)
  show "\<exists>r \<in> set (small_regs s). lies_in e r" if "(k, e) \<in> R" for k e
    using pools.inv_within [OF pinv, of k e] that by (simp add: small_regs_def)
  show "apart e e'" if "(k, e) \<in> R" "(k', e') \<in> R" "(k, e) \<noteq> (k', e')" for k e k' e'
    using pools.inv_apart [OF pinv, of k e k' e'] that by blast
  show "p + len \<le> 2 ^ 56" if "(k, p, len) \<in> R" for k p len
    using outstanding_block(3) [OF pinv, of k p len] that by simp
  show "small_capacity k M s p = len" if "(k, p, len) \<in> R" for k p len
    using outs_mem [OF pinv, of k p len] that by (simp add: small_capacity_def)
  fix k n assume k: "pool_admits k n"
  then have k': "k < kClassCount" "n \<le> blockStride k" by (auto simp: pool_admits_def)
  note cases = smallAllocate_inv [OF inv [unfolded s] k'(1), of en t ok]
  show "\<exists>p M' s'. small_alloc os en t ok k n M s = Some (p, M', s')"
    by (rule cases) (auto simp: small_alloc_def s)
  fix p M' s' assume a: "small_alloc os en t ok k n M s = Some (p, M', s')"
  show "tier_step (snd ` R) M (small_regs s) M' (small_regs s')"
    by (rule cases) (use a in \<open>auto simp: small_alloc_def s small_regs_def\<close>)
  show "n \<le> small_capacity k M' s' p \<and> 16 dvd p \<and> (k, p, small_capacity k M' s' p) \<notin> R \<and>
      small_inv os M' s' (insert (k, p, small_capacity k M' s' p) R)" if "p \<noteq> 0"
    by (rule cases) (use a that k' in \<open>auto simp: small_alloc_def s small_capacity_def\<close>)
next
  fix M s R k n M' s'
  assume h: "small_inv os M s R" "pool_admits k n" "small_alloc os en t ok k n M s = Some (0, M', s')"
  obtain pools tls where s: "s = (pools, tls)" by (cases s)
  have "k < kClassCount" using h(2) by (simp add: pool_admits_def)
  from smallAllocate_inv [OF h(1) [unfolded s] this, of en t ok] show "small_inv os M' s' R"
    by (rule) (use h(3) in \<open>auto simp: small_alloc_def s\<close>)
next
  fix M s R M'
  assume h: "small_inv os M s R" "machine_ok M'" "set (small_regs s) \<subseteq> set (mapped M')"
    "\<And>x. x \<in> cells (set (small_regs s)) - cells (snd ` R) \<Longrightarrow> mem M' x = mem M x"
  have "pools_inv os M' (fst s) (R \<union> held_blocks (cached (snd s)))"
    by (rule pools_inv_frame [OF small_inv_pools [OF h(1)] h(2)])
      (use h(3,4) cells_mono [of "snd ` R" "snd ` (R \<union> held_blocks (cached (snd s)))"] in \<open>auto simp: small_regs_def\<close>)
  then show "small_inv os M' s R" using h(1) by (auto simp: small_inv_def core_def)
next
  fix M s R k p len M' s'
  assume h: "small_inv os M s R" "(k, p, len) \<in> R" "small_free en t' ok' k p M s = (M', s')"
  obtain pools tls where s: "s = (pools, tls)" by (cases s)
  obtain M1 pools1 tls1 where "smallFree en t' ok' k p M (pools, tls) = Some (M1, pools1, tls1)"
    "small_inv os M1 (pools1, tls1) (R - {(k, p, len)})"
    "tier_step (snd ` (R - {(k, p, len)})) M (pool_regs pools) M1 (pool_regs pools1)"
    using smallFree_inv [OF h(1) [unfolded s] h(2)] .
  then show "small_inv os M' s' (R - {(k, p, len)})" "tier_step (snd ` (R - {(k, p, len)})) M (small_regs s) M' (small_regs s')"
    using h(3) by (auto simp: small_free_def s small_regs_def)
qed

section \<open>Threads at work\<close>

text \<open>
  Any interleaving of the threads: each allocates, gives back blocks that it or another thread
  took, writes into blocks in use, or ends.  The host heap answers each request for a cache as it
  likes.  At the start there may be caches left by an allocator that is gone.
\<close>

inductive small_reach ::
    "os \<Rightarrow> bool \<Rightarrow> machine \<Rightarrow> tls \<Rightarrow> machine \<Rightarrow> PoolAllocator \<times> tls \<Rightarrow> (nat \<times> region) set \<Rightarrow> bool"
  for os en M0 tls0 where
  start: "small_reach os en M0 tls0 M0 (PoolAllocator_init, tls0) {}"
| null: "small_reach os en M0 tls0 M s R \<Longrightarrow> i < kClassCount \<Longrightarrow>
    smallAllocate os en t ok i M s = Some (0, M', s') \<Longrightarrow> small_reach os en M0 tls0 M' s' R"
| block: "small_reach os en M0 tls0 M s R \<Longrightarrow> i < kClassCount \<Longrightarrow>
    smallAllocate os en t ok i M s = Some (b, M', s') \<Longrightarrow> b \<noteq> 0 \<Longrightarrow>
    small_reach os en M0 tls0 M' s' (insert (i, b, blockStride i) R)"
| release: "small_reach os en M0 tls0 M s R \<Longrightarrow> (i, b, n) \<in> R \<Longrightarrow>
    smallFree en t ok i b M s = Some (M', s') \<Longrightarrow> small_reach os en M0 tls0 M' s' (R - {(i, b, n)})"
| exit: "small_reach os en M0 tls0 M s R \<Longrightarrow> threadExit t M s = Some (M', s') \<Longrightarrow>
    small_reach os en M0 tls0 M' s' R"
| user_write: "small_reach os en M0 tls0 M s R \<Longrightarrow> mapped M' = mapped M \<Longrightarrow>
    (\<forall>x. x \<notin> cells (snd ` R) \<longrightarrow> mem M' x = mem M x) \<Longrightarrow> small_reach os en M0 tls0 M' s R"

definition all_expired :: "tls \<Rightarrow> bool" where
  "all_expired tls \<longleftrightarrow> (\<forall>t tc. tls t = Some tc \<longrightarrow> expired tc)"

lemma small_init_inv:
  assumes "os_ok os" "machine_ok M" "all_expired tls"
  shows "small_inv os M (PoolAllocator_init, tls) {}"
proof -
  have "cached tls = (\<lambda>_ _. [])"
    using assms(3) by (auto simp: all_expired_def cached_def tc_list_def fun_eq_iff split: option.splits)
  then have "core os M PoolAllocator_init (cached tls) {}"
    using PoolAllocator_init_inv [OF assms(1,2)] by (simp add: core_def held_blocks_def held_ok_def blocks_of_def)
  then show ?thesis using assms(3) by (auto simp: small_inv_def all_expired_def)
qed

lemma small_reach_inv:
  assumes "small_reach os en M0 tls0 M s R" "os_ok os" "machine_ok M0" "all_expired tls0"
  shows "small_inv os M s R"
  using assms(1)
proof (induction rule: small_reach.induct)
  case start
  then show ?case using small_init_inv assms(2-4) by blast
next
  case (null M s R i t ok M' s')
  then show ?case
    using small.alloc_null [of os M s R i 0 en t ok M' s'] by (simp add: small_alloc_def pool_admits_def)
next
  case (block M s R i t ok b M' s')
  then show ?case
    using small.alloc_block [of os M s R i 0 en t ok b M' s']
    by (simp add: small_alloc_def pool_admits_def small_capacity_def)
next
  case (release M s R i b n t ok M' s')
  then show ?case using small.free_block [of os M s R i b n en t ok M' s'] by (simp add: small_free_def)
next
  case (exit M s R t M' s')
  obtain pools tls where s: "s = (pools, tls)" by (cases s)
  show ?case using threadExit_inv [OF exit.IH [unfolded s], of t] exit.hyps(2) unfolding s by force
next
  case (user_write M s R M')
  then show ?case using small.inv_user_write by blast
qed

section \<open>Properties\<close>

text \<open>A first block, taken by thread 0 while the host heap has no room for a cache.\<close>

lemma first_thread_block:
  obtains M pools where "smallAllocate linear_os True 0 False 0 blank_machine (PoolAllocator_init, Map.empty) =
      Some (65536, M, pools, Map.empty)"
    "small_reach linear_os True blank_machine Map.empty M (pools, Map.empty) {(0, 65536, 32)}"
    "small_inv linear_os M (pools, Map.empty) {(0, 65536, 32)}"
proof -
  obtain M pools where a: "pool_alloc linear_os 0 32 blank_machine PoolAllocator_init = Some (65536, M, pools)"
    using first_small_block by blast
  then have s: "smallAllocate linear_os True 0 False 0 blank_machine (PoolAllocator_init, Map.empty) =
      Some (65536, M, pools, Map.empty)"
    by (simp add: smallAllocate_def threadCache_def pool_alloc_def)
  have st: "blockStride 0 = 32" by (simp add: blockStride_eq const_simps classSize_def kClassSizes_def)
  have r: "small_reach linear_os True blank_machine Map.empty M (pools, Map.empty) {(0, 65536, 32)}"
    using small_reach.block [OF small_reach.start _ s] by (simp add: st const_simps)
  have "small_inv linear_os M (pools, Map.empty) {(0, 65536, 32)}"
    by (rule small_reach_inv [OF r linear_os_ok blank_machine_ok]) (simp add: all_expired_def)
  then show thesis using that s r by blast
qed

text \<open>
  C38: however the threads interleave, a block in use lies in mapped memory, is aligned, overlaps
  no other block in use and sits in no cache, so that no thread can be given it; two caches never
  share a block, no cache holds one twice, and none holds more than its capacity.
\<close>

theorem thread_caches_reachable_safe:
  assumes "os_ok os" "machine_ok M0" "all_expired tls0" "small_reach os en M0 tls0 M (pools, tls) R"
  shows "(\<forall>(i, b, n) \<in> R. n = blockStride i \<and> 16 dvd b \<and> {b..<b + n} \<subseteq> mapped_cells M \<and>
      (\<forall>(j, e) \<in> R. (j, e) \<noteq> (i, b, n) \<longrightarrow> apart (b, n) e) \<and> (\<forall>t. b \<notin> set (cached tls t i))) \<and>
    (\<forall>t i. distinct (cached tls t i) \<and> length (cached tls t i) \<le> kCapacity \<and>
      (\<forall>t'. t' \<noteq> t \<longrightarrow> set (cached tls t i) \<inter> set (cached tls t' i) = {}))"
proof -
  have inv: "small_inv os M (pools, tls) R" using small_reach_inv [OF assms(4,1-3)] .
  have c: "core os M pools (cached tls) R" using inv by (simp add: small_inv_def)
  note pinv = coreD(1) [OF c]
  have ap: "apart (b, n) e" if "(i, b, n) \<in> R" "(j, e) \<in> R" "(j, e) \<noteq> (i, b, n)" for i b n j e
    using small.inv_apart [OF inv that(1,2) not_sym [OF that(3)]] .
  have nc: "b \<notin> set (cached tls t i)" if "(i, b, n) \<in> R" for i b n t
  proof -
    have "(i, b, n) \<notin> held_blocks (cached tls)" using coreD(2) [OF c] that by blast
    moreover have "i < kClassCount \<and> n = blockStride i" using outs_mem [OF pinv, of i b n] that by simp
    ultimately show ?thesis by (simp add: held_blocks_iff)
  qed
  have len: "length (cached tls t i) \<le> kCapacity" for t i
  proof (cases "tls t")
    case (Some tc)
    show ?thesis
    proof (cases "expired tc \<or> kClassCount \<le> i")
      case False
      then show ?thesis using cache_wf_at(1,2) [OF small_wf [OF inv Some], of i] Some
        by (simp add: cached_def tc_list_def cache_list_def)
    qed (simp add: cached_def Some tc_list_def)
  qed (simp add: cached_def)
  have blk: "n = blockStride i" "16 dvd b" "{b..<b + n} \<subseteq> mapped_cells M" if "(i, b, n) \<in> R" for i b n
    using outs_mem [OF pinv, of i b n] outstanding_block [OF pinv, of i b n] small.outstanding_mapped [OF inv that] that
    by simp_all
  note held = held_okD [OF coreD(3) [OF c]]
  show ?thesis unfolding Ball_def split_paired_All prod.case
    by (intro conjI allI impI) (erule blk | erule (2) ap | erule nc | rule len held(1) | rule held(2), erule not_sym)+
qed

theorem thread_caches_reachable_safe_witness:
  "\<exists>M pools. small_reach linear_os True blank_machine Map.empty M (pools, Map.empty) {(0, 65536, 32)} \<and>
     {65536..<65536 + 32} \<subseteq> mapped_cells M"
proof -
  obtain M pools where r: "small_reach linear_os True blank_machine Map.empty M (pools, Map.empty) {(0, 65536, 32)}"
    using first_thread_block by blast
  have "all_expired Map.empty" by (simp add: all_expired_def)
  from thread_caches_reachable_safe [OF linear_os_ok blank_machine_ok this r] r show ?thesis by auto
qed

text \<open>
  A block given back with the cache on is what the same thread gets when it next asks for the
  class, from its cache alone: neither memory nor the pools change.
\<close>

lemma thread_cache_reuses_last_freed:
  assumes "small_inv os M (pools, tls) R" "(i, b, n) \<in> R"
    "smallFree True t True i b M (pools, tls) = Some (M1, pools1, tls1)"
  shows "\<exists>tls2. smallAllocate os True t ok i M1 (pools1, tls1) = Some (b, M1, pools1, tls2)"
proof -
  obtain r tls' where tl: "threadCache True t True tls = (r, tls')" by (cases "threadCache True t True tls")
  note same = threadCache_same [OF assms(1) tl]
  obtain tc where r: "r = Some tc" using tl
    by (cases "tls t") (force simp: threadCache_def split: if_splits)+
  have tc: "\<not> expired tc" "cache_wf tc" using same(3) [OF r] by auto
  have c: "core os M pools (cached tls) R" using assms(1) by (simp add: small_inv_def)
  have i: "i < kClassCount" using outs_mem [OF coreD(1) [OF c], of i b n] assms(2) by auto
  note at = cache_wf_at [OF tc(2) i]
  obtain tc0 where tc0: "\<not> expired tc0" "cache_wf tc0" "count (caches tc0 ! i) < kCapacity"
    "tls1 = tls'(t \<mapsto> pushSlot i b tc0)"
  proof (cases "count (caches tc ! i) = kCapacity")
    case True
    let ?d = "(caches tc ! i)\<lparr>count := kCapacity - kBatchSize\<rparr>"
    let ?tc = "tc\<lparr>caches := (caches tc)[i := ?d]\<rparr>"
    have "tls1 = tls'(t \<mapsto> pushSlot i b ?tc)"
      using assms(3) tl r True at by (auto simp: smallFree_def ThreadCache_freeBlock_def Let_def split: bind_splits)
    moreover have "cache_wf ?tc" using at by (intro cache_wf_upd [OF tc(2)]) (auto simp: const_simps)
    ultimately show thesis using that [of ?tc] tc(1) at(3) by (simp add: const_simps)
  next
    case False
    then show thesis using that [of tc] assms(3) tl r tc at
      by (auto simp: smallFree_def ThreadCache_freeBlock_def Let_def)
  qed
  let ?tc = "pushSlot i b tc0"
  note at0 = cache_wf_at [OF tc0(2) i]
  have pop: "fst (popSlot i ?tc) = b" "count (caches ?tc ! i) \<noteq> 0" "i < length (caches ?tc)"
    using at0 tc0(3) by (simp_all add: popSlot_def pushSlot_def Let_def)
  have ex: "\<not> expired ?tc" using tc0(1) by (simp add: pushSlot_def Let_def)
  then show ?thesis using pop unfolding tc0(4)
    by (cases "popSlot i ?tc") (simp add: smallAllocate_def threadCache_def ThreadCache_allocateBlock_def Let_def)
qed

text \<open>
  The end of a thread always comes to its end and gives every block its cache holds back to
  the pools: what they count as outstanding afterwards is what is in use and what the other
  threads cache; no mapping comes or goes, and the blocks in use keep their bytes.
\<close>

lemma thread_exit_returns_cached_blocks:
  assumes "small_inv os M (pools, tls) R"
  shows "\<exists>M' pools'. threadExit t M (pools, tls) = Some (M', pools', tls(t := None)) \<and>
    pools_inv os M' pools' (R \<union> held_blocks ((cached tls)(t := (\<lambda>_. [])))) \<and>
    set (mapped M') = set (mapped M) \<and> (\<forall>x \<in> cells (snd ` R). mem M' x = mem M x)"
proof -
  obtain M' pools' where e: "threadExit t M (pools, tls) = Some (M', pools', tls(t := None))"
    "small_inv os M' (pools', tls(t := None)) R" "pool_regs pools' = pool_regs pools"
    "tier_step (snd ` R) M (pool_regs pools) M' (pool_regs pools')"
    using threadExit_inv [OF assms, of t] .
  have "cached (tls(t := None)) = (cached tls)(t := (\<lambda>_. []))" by (auto simp: cached_def fun_eq_iff)
  then have "pools_inv os M' pools' (R \<union> held_blocks ((cached tls)(t := (\<lambda>_. []))))"
    using small_inv_pools [OF e(2)] by simp
  moreover have "mem M' x = mem M x" if "x \<in> cells (snd ` R)" for x
    using tier_step_memD [OF e(4)] that by blast
  moreover have "set (mapped M') = set (mapped M)"
    using e(3,4) small.inv_machine [OF assms] small.inv_machine [OF e(2)]
    by (auto simp: tier_step_def small_regs_def)
  ultimately show ?thesis using e(1) by blast
qed

end
