(* ===== verification/LargeAllocator.thy ===== *)
theory LargeAllocator
  imports TierContract "HOL-Library.AList"
begin

text \<open>
  The large tier, \<^verbatim>\<open>src/LargeAllocator.hpp\<close> and \<^verbatim>\<open>src/LargeAllocator.cpp\<close>: one mapping per
  allocation, registered under the payload address.  The hash map is an association list; its
  order is never looked at.  The lemmas show that the registry and the mappings agree, so that the
  allocator satisfies the \<open>tier\<close> contract and rejects every pointer it does not own.
\<close>

section \<open>The code\<close>

type_synonym LargeAllocator = "(addr \<times> region) list"

definition LargeAllocator_init :: LargeAllocator where
  "LargeAllocator_init = []"

definition kPayloadOffset :: nat where
  [const_simps]: "kPayloadOffset = 16"

text \<open>
  \<open>emplace\<close> inserts only under a new key; otherwise the region it was given dies at the end of the
  scope, which unmaps it.
\<close>

definition LargeAllocator_allocate ::
    "os \<Rightarrow> nat \<Rightarrow> machine \<Rightarrow> LargeAllocator \<Rightarrow> addr \<times> machine \<times> LargeAllocator" where
  "LargeAllocator_allocate os bytes M large =
     (let (region, M') = MappedRegion_make os (size_add bytes kPayloadOffset) M in
      if \<not> MappedRegion_valid region then (0, M', large)
      else let payload = fst region + kPayloadOffset in
        case map_of large payload of
          None \<Rightarrow> (payload, M', (payload, region) # large)
        | Some _ \<Rightarrow> (payload, MappedRegion_destroy os region M', large))"

definition LargeAllocator_deallocate ::
    "os \<Rightarrow> addr \<Rightarrow> machine \<Rightarrow> LargeAllocator \<Rightarrow> bool \<times> machine \<times> LargeAllocator" where
  "LargeAllocator_deallocate os payload M large =
     (case map_of large payload of
        None \<Rightarrow> (False, M, large)
      | Some region \<Rightarrow> (True, MappedRegion_destroy os region M, AList.delete payload large))"

definition LargeAllocator_contains :: "addr \<Rightarrow> LargeAllocator \<Rightarrow> bool" where
  "LargeAllocator_contains payload large \<longleftrightarrow> map_of large payload \<noteq> None"

definition LargeAllocator_payloadCapacity :: "addr \<Rightarrow> LargeAllocator \<Rightarrow> nat" where
  "LargeAllocator_payloadCapacity payload large =
     (case map_of large payload of None \<Rightarrow> 0 | Some region \<Rightarrow> size_sub (snd region) kPayloadOffset)"

definition LargeAllocator_destroy :: "os \<Rightarrow> LargeAllocator \<Rightarrow> machine \<Rightarrow> machine" where
  "LargeAllocator_destroy os large M = destroy_regions os (map snd large) M"

section \<open>Invariant\<close>

definition large_regs :: "LargeAllocator \<Rightarrow> region list" where
  "large_regs large = map snd large"

definition large_extents :: "LargeAllocator \<Rightarrow> (unit \<times> region) set" where
  "large_extents large = {((), p, n - 16) | p a n. (p, a, n) \<in> set large}"

definition large_inv :: "os \<Rightarrow> machine \<Rightarrow> LargeAllocator \<Rightarrow> (unit \<times> region) set \<Rightarrow> bool" where
  "large_inv os M large R \<longleftrightarrow>
     os_ok os \<and> machine_ok M \<and> distinct (map fst large) \<and> set (large_regs large) \<subseteq> set (mapped M) \<and>
     (\<forall>(p, a, n) \<in> set large. p = a + 16 \<and> 16 dvd a \<and> 0 < a \<and> 16 < n \<and> a + n \<le> 2 ^ 56) \<and>
     R = large_extents large"

lemma large_invD:
  assumes "large_inv os M large R"
  shows "os_ok os" "machine_ok M" "distinct (map fst large)" "set (large_regs large) \<subseteq> set (mapped M)"
    "(p, a, n) \<in> set large \<Longrightarrow> p = a + 16 \<and> 16 dvd a \<and> 0 < a \<and> 16 < n \<and> a + n \<le> 2 ^ 56"
    "R = large_extents large"
  using assms unfolding large_inv_def by blast+

lemma large_regs_mem: "(p, a, n) \<in> set large \<Longrightarrow> (a, n) \<in> set (large_regs large)"
  by (force simp: large_regs_def)

lemma large_inv_apart:
  assumes "large_inv os M large R" "(k, e) \<in> R" "(k', e') \<in> R" "(k, e) \<noteq> (k', e')"
  shows "apart e e'"
proof -
  note inv = large_invD [OF assms(1)]
  obtain p a n where e: "e = (p, n - 16)" "(p, a, n) \<in> set large"
    using assms(2) inv(6) by (auto simp: large_extents_def)
  obtain q b m where e': "e' = (q, m - 16)" "(q, b, m) \<in> set large"
    using assms(3) inv(6) by (auto simp: large_extents_def)
  have "(a, n) \<noteq> (b, m)"
    using assms(4) inv(5) [OF e(2)] inv(5) [OF e'(2)] e(1) e'(1) by auto
  then have "apart (a, n) (b, m)"
    using machine_ok_apart [OF inv(2)] inv(4) e(2) e'(2) by (meson large_regs_mem subsetD)
  then show ?thesis using inv(5) [OF e(2)] inv(5) [OF e'(2)] e(1) e'(1) by auto
qed

lemma large_cells_mapped:
  assumes "large_inv os M large R"
  shows "cells (snd ` R) \<subseteq> mapped_cells M"
proof
  note inv = large_invD [OF assms]
  fix x assume "x \<in> cells (snd ` R)"
  then obtain q b k where q: "(q, b, k) \<in> set large" "q \<le> x" "x < q + (k - 16)"
    unfolding inv(6) by (auto simp: cells_iff large_extents_def)
  then show "x \<in> mapped_cells M"
    using inv(4) inv(5) [OF q(1)] large_regs_mem [OF q(1)]
    by (auto simp: mapped_cells_def intro!: cellsI [of b k])
qed

text \<open>A new mapping is under a new key, so the registry takes it.\<close>

lemma large_allocate_inv:
  assumes "large_inv os M large R" "0 < bytes" "bytes \<le> 2 ^ 60"
    "LargeAllocator_allocate os bytes M large = (p, M', large')"
  shows "p = 0 \<Longrightarrow> large_inv os M' large' R"
    "p \<noteq> 0 \<Longrightarrow> bytes \<le> LargeAllocator_payloadCapacity p large' \<and> 16 dvd p \<and>
       ((), p, LargeAllocator_payloadCapacity p large') \<notin> R \<and>
       large_inv os M' large' (insert ((), p, LargeAllocator_payloadCapacity p large') R)"
    "tier_step (snd ` R) M (large_regs large) M' (large_regs large')"
proof -
  note inv = large_invD [OF assms(1)]
  have sum: "size_add bytes kPayloadOffset = bytes + 16" using assms(3) by (simp add: const_simps)
  obtain r M1 where mk: "MappedRegion_make os (bytes + 16) M = (r, M1)" by fastforce
  have "(p = 0 \<longrightarrow> large_inv os M' large' R) \<and>
    (p \<noteq> 0 \<longrightarrow> bytes \<le> LargeAllocator_payloadCapacity p large' \<and> 16 dvd p \<and>
       ((), p, LargeAllocator_payloadCapacity p large') \<notin> R \<and>
       large_inv os M' large' (insert ((), p, LargeAllocator_payloadCapacity p large') R)) \<and>
    tier_step (snd ` R) M (large_regs large) M' (large_regs large')"
    using inv(1,2) mk
  proof (cases rule: MappedRegion_make_cases)
    case failed
    then have r: "p = 0" "M' = M1" "large' = large"
      using assms(4) sum mk by (auto simp: LargeAllocator_allocate_def)
    have "large_inv os M1 large R"
      using assms(1) failed machine_ok_cong [of M1 M] by (simp add: large_inv_def)
    then show ?thesis using failed by (simp add: r tier_step_def)
  next
    case (valid a n)
    have page: "16 dvd a" using valid(6) os_page_bounds(3) [OF inv(1)] by (rule dvd_trans [rotated])
    have n: "bytes + 16 \<le> n"
      using valid(3) roundToPages_bounds(2) [OF inv(1), of "bytes + 16"] os_page_bounds(2) [OF inv(1)] assms(3)
      by (simp add: const_simps)
    have fresh: "(a, k) \<notin> set (mapped M)" for k
      using valid(4,8) machine_ok_def inv(2) by (fastforce simp: apart_def)
    have key: "map_of large (a + 16) = None"
    proof (rule ccontr)
      assume "map_of large (a + 16) \<noteq> None"
      then obtain b k where bk: "(a + 16, b, k) \<in> set large" by (auto dest: map_of_SomeD)
      then have "(a, k) \<in> set (mapped M)" using inv(4) inv(5) [OF bk] large_regs_mem [OF bk] by auto
      then show False using fresh by blast
    qed
    have r: "p = a + 16" "M' = M1" "large' = (a + 16, a, n) # large"
      using assms(4) sum mk valid key by (auto simp: LargeAllocator_allocate_def const_simps Let_def)
    have cap: "LargeAllocator_payloadCapacity p large' = n - 16"
      using n valid(7) by (simp add: r LargeAllocator_payloadCapacity_def const_simps)
    have ext: "large_extents large' = insert ((), p, n - 16) (large_extents large)"
      by (auto simp: large_extents_def r)
    have new: "((), p, n - 16) \<notin> R"
      using key unfolding inv(6) by (auto simp: large_extents_def r map_of_eq_None_iff image_iff)
    have "large_inv os M1 large' (insert ((), p, n - 16) R)"
      unfolding large_inv_def
    proof (intro conjI)
      show "set (large_regs large') \<subseteq> set (mapped M1)"
        using inv(4) valid by (auto simp: large_regs_def r)
      show "distinct (map fst large')" using inv(3) key by (simp add: r map_of_eq_None_iff)
      show "\<forall>(p, a, n) \<in> set large'. p = a + 16 \<and> 16 dvd a \<and> 0 < a \<and> 16 < n \<and> a + n \<le> 2 ^ 56"
        using inv(5) page n valid assms(2) by (auto simp: r)
    qed (use inv valid ext in auto)
    moreover have "tier_step (snd ` R) M (large_regs large) M1 (large_regs large')"
      using valid large_cells_mapped [OF assms(1)]
      by (intro tier_step_map [of M1 a n]) (auto simp: large_regs_def r)
    moreover have "16 dvd p" using page by (simp add: r)
    ultimately show ?thesis using n new by (simp add: cap r(2)) (simp add: r(1))
  qed
  then show "p = 0 \<Longrightarrow> large_inv os M' large' R"
    "p \<noteq> 0 \<Longrightarrow> bytes \<le> LargeAllocator_payloadCapacity p large' \<and> 16 dvd p \<and>
       ((), p, LargeAllocator_payloadCapacity p large') \<notin> R \<and>
       large_inv os M' large' (insert ((), p, LargeAllocator_payloadCapacity p large') R)"
    "tier_step (snd ` R) M (large_regs large) M' (large_regs large')" by auto
qed

lemma map_of_large:
  assumes "large_inv os M large R" "((), p, len) \<in> R"
  obtains a n where "map_of large p = Some (a, n)" "(p, a, n) \<in> set large" "len = n - 16"
proof -
  obtain a n where an: "(p, a, n) \<in> set large" "len = n - 16"
    using assms(2) unfolding large_invD(6) [OF assms(1)] by (auto simp: large_extents_def)
  then show thesis using that large_invD(3) [OF assms(1)] by (simp add: map_of_is_SomeI)
qed

lemma large_deallocate_inv:
  assumes "large_inv os M large R" "((), p, len) \<in> R"
    "LargeAllocator_deallocate os p M large = (ok, M', large')"
  shows "ok" "large_inv os M' large' (R - {((), p, len)})"
    "tier_step (snd ` (R - {((), p, len)})) M (large_regs large) M' (large_regs large')"
proof -
  note inv = large_invD [OF assms(1)]
  obtain a n where an: "map_of large p = Some (a, n)" "(p, a, n) \<in> set large" "len = n - 16"
    using map_of_large [OF assms(1,2)] .
  have p: "p = a + 16" "16 < n" using inv(5) [OF an(2)] by auto
  have r: "ok" "M' = SystemMemory_unmap os (a, n) M" "large' = AList.delete p large"
    using assms(3) an p
    by (auto simp: LargeAllocator_deallocate_def MappedRegion_destroy_def MappedRegion_reset_def)
  show ok by (fact r(1))
  have mp: "(a, n) \<in> set (mapped M)" using inv(4) large_regs_mem [OF an(2)] by blast
  note un = SystemMemory_unmap_mapped [OF inv(1,2) mp, folded r(2)]
  have set': "set large' = set large - {(p, a, n)}"
    using inv(3) an by (auto simp: r AList.delete_eq dest: eq_key_imp_eq_value)
  have other: "(b, k) \<noteq> (a, n)" if "(q, b, k) \<in> set large'" for q b k
    using that inv(5) [of q b k] p(1) unfolding set' by auto
  have regs': "set (large_regs large') = set (large_regs large) - {(a, n)}"
    using other by (force simp: large_regs_def set')
  have ext: "large_extents large' = R - {((), p, len)}"
  proof -
    have "q \<noteq> p" if "(q, b, k) \<in> set large'" for q b k
      using that inv(3) an unfolding set' by (auto dest: eq_key_imp_eq_value)
    then show ?thesis
      unfolding inv(6) an(3) using an(2) by (auto simp: large_extents_def set')
  qed
  show "large_inv os M' large' (R - {((), p, len)})"
    unfolding large_inv_def
  proof (intro conjI)
    show "set (large_regs large') \<subseteq> set (mapped M')"
      using inv(4) machine_ok_distinct [OF inv(2)] by (auto simp: regs' un(1))
    show "distinct (map fst large')" unfolding r(3) by (rule AList.distinct_delete [OF inv(3)])
  qed (use inv un(2) ext set' in auto)
  have out: "x \<notin> cells (snd ` (R - {((), p, len)}))" if "a \<le> x" "x < a + n" for x
  proof
    assume "x \<in> cells (snd ` (R - {((), p, len)}))"
    then obtain q b k where q: "(q, b, k) \<in> set large'" "q \<le> x" "x < q + (k - 16)"
      unfolding ext [symmetric] by (auto simp: cells_iff large_extents_def)
    then have "(b, k) \<in> set (mapped M)" using inv(4) large_regs_mem [of q b k large] by (auto simp: set')
    then have "apart (a, n) (b, k)" using machine_ok_apart [OF inv(2) mp] other [OF q(1)] by blast
    then show False using q that inv(5) [of q b k] by (auto simp: set')
  qed
  show "tier_step (snd ` (R - {((), p, len)})) M (large_regs large) M' (large_regs large')"
    using out by (intro tier_step_unmap [OF inv(2) large_regs_mem [OF an(2)] inv(4) un(1) regs' un(4)]) auto
qed

section \<open>The large allocator is a tier\<close>

definition large_admits :: "unit \<Rightarrow> nat \<Rightarrow> bool" where
  "large_admits k n \<longleftrightarrow> 0 < n \<and> n \<le> 2 ^ 60"

definition large_alloc ::
    "os \<Rightarrow> unit \<Rightarrow> nat \<Rightarrow> machine \<Rightarrow> LargeAllocator \<Rightarrow> (addr \<times> machine \<times> LargeAllocator) option" where
  "large_alloc os k n M large = Some (LargeAllocator_allocate os n M large)"

definition large_free :: "os \<Rightarrow> unit \<Rightarrow> addr \<Rightarrow> machine \<Rightarrow> LargeAllocator \<Rightarrow> machine \<times> LargeAllocator" where
  "large_free os k p M large = snd (LargeAllocator_deallocate os p M large)"

definition large_capacity :: "unit \<Rightarrow> machine \<Rightarrow> LargeAllocator \<Rightarrow> addr \<Rightarrow> nat" where
  "large_capacity k M large p = LargeAllocator_payloadCapacity p large"

interpretation large: tier large_regs "large_inv os" large_admits "large_alloc os" "large_free os"
  large_capacity for os
proof unfold_locales
  fix M s R assume inv: "large_inv os M s R"
  show "machine_ok M \<and> set (large_regs s) \<subseteq> set (mapped M)" using large_invD [OF inv] by simp
  show "\<exists>r \<in> set (large_regs s). lies_in e r" if e: "(k, e) \<in> R" for k e
  proof -
    obtain p len where pl: "e = (p, len)" by (cases e)
    obtain a n where "(p, a, n) \<in> set s" "len = n - 16"
      using map_of_large [OF inv, of p len] e pl by (metis old.unit.exhaust)
    then show ?thesis using large_invD(5) [OF inv] large_regs_mem pl by (fastforce intro!: bexI [of _ "(a, n)"])
  qed
  show "apart e e'" if "(k, e) \<in> R" "(k', e') \<in> R" "(k, e) \<noteq> (k', e')" for k e k' e'
    using inv that by (rule large_inv_apart)
  show "\<exists>p M' s'. large_alloc os k n M s = Some (p, M', s')" for k n
    by (cases "LargeAllocator_allocate os n M s") (simp add: large_alloc_def)
  show "p + len \<le> 2 ^ 56" if pl: "(k, p, len) \<in> R" for k p len
  proof -
    obtain a n where an: "(p, a, n) \<in> set s" "len = n - 16"
      using map_of_large [OF inv, of p len] pl by (metis old.unit.exhaust)
    then show ?thesis using large_invD(5) [OF inv an(1)] by simp
  qed
  show "large_capacity k M s p = len" if pl: "(k, p, len) \<in> R" for k p len
  proof -
    obtain a n where an: "map_of s p = Some (a, n)" "(p, a, n) \<in> set s" "len = n - 16"
      using map_of_large [OF inv, of p len] pl by (metis old.unit.exhaust)
    then show ?thesis using large_invD(5) [OF inv an(2)]
      by (simp add: large_capacity_def LargeAllocator_payloadCapacity_def const_simps)
  qed
  fix k n p M' s'
  assume k: "large_admits k n" and a: "large_alloc os k n M s = Some (p, M', s')"
  note one = large_allocate_inv [OF inv _ _ a [unfolded large_alloc_def, THEN option.inject [THEN iffD1]]]
  show "tier_step (snd ` R) M (large_regs s) M' (large_regs s')" using one(3) k by (simp add: large_admits_def)
  show "n \<le> large_capacity k M' s' p \<and> 16 dvd p \<and> (k, p, large_capacity k M' s' p) \<notin> R \<and>
      large_inv os M' s' (insert (k, p, large_capacity k M' s' p) R)" if "p \<noteq> 0"
    using one(2) that k by (simp add: large_admits_def large_capacity_def)
next
  fix M s R k n M' s'
  assume "large_inv os M s R" "large_admits k n" "large_alloc os k n M s = Some (0, M', s')"
  then show "large_inv os M' s' R"
    using large_allocate_inv(1) [of os M s R n 0 M' s'] by (simp add: large_alloc_def large_admits_def)
next
  fix M s R M'
  assume "large_inv os M s R" "machine_ok M'" "set (large_regs s) \<subseteq> set (mapped M')"
  then show "large_inv os M' s R" by (simp add: large_inv_def)
next
  fix M s R k p len M' s'
  assume h: "large_inv os M s R" "(k, p, len) \<in> R" "large_free os k p M s = (M', s')"
  then have d: "LargeAllocator_deallocate os p M s = (fst (LargeAllocator_deallocate os p M s), M', s')"
    by (metis large_free_def prod.collapse)
  have "((), p, len) \<in> R" using h(2) by (cases k) simp
  from large_deallocate_inv [OF h(1) this d]
  show "large_inv os M' s' (R - {(k, p, len)})"
    "tier_step (snd ` (R - {(k, p, len)})) M (large_regs s) M' (large_regs s')" by simp_all
qed

lemma LargeAllocator_init_inv: "os_ok os \<Longrightarrow> machine_ok M \<Longrightarrow> large_inv os M LargeAllocator_init {}"
  by (simp add: large_inv_def LargeAllocator_init_def large_regs_def large_extents_def)

section \<open>Properties\<close>

lemma LargeAllocator_allocate_nonnull:
  assumes "large_inv os M large R" "0 < bytes" "bytes \<le> 2 ^ 60"
    "LargeAllocator_allocate os bytes M large = (p, M', large')" "p \<noteq> 0"
  obtains a n where "p = a + 16" "large' = (p, a, n) # large" "mapped M' = (a, n) # mapped M"
    "map_of large p = None" "0 < n"
proof -
  note inv = large_invD [OF assms(1)]
  obtain r M1 where mk: "MappedRegion_make os (size_add bytes kPayloadOffset) M = (r, M1)" by fastforce
  have new: "((), p, LargeAllocator_payloadCapacity p large') \<notin> R"
    using large_allocate_inv(2) [OF assms] by simp
  from inv(1,2) mk show thesis
  proof (cases rule: MappedRegion_make_cases)
    case failed
    then show thesis using assms(4,5) mk by (auto simp: LargeAllocator_allocate_def)
  next
    case (valid a n)
    have p: "p = a + 16"
      using assms(4) mk valid
      by (auto simp: LargeAllocator_allocate_def const_simps Let_def split: option.splits)
    show thesis
    proof (cases "map_of large p")
      case None
      then show thesis using that assms(4) mk valid p
        by (auto simp: LargeAllocator_allocate_def const_simps Let_def)
    next
      case (Some q)
      obtain b k where q: "q = (b, k)" by (cases q)
      have m: "(p, b, k) \<in> set large" using Some q by (simp add: map_of_SomeD)
      have "large' = large"
        using assms(4) mk valid p Some by (auto simp: LargeAllocator_allocate_def const_simps Let_def)
      then have "LargeAllocator_payloadCapacity p large' = k - 16"
        using Some q inv(5) [OF m] by (simp add: LargeAllocator_payloadCapacity_def const_simps)
      then have "((), p, LargeAllocator_payloadCapacity p large') \<in> R"
        using m unfolding inv(6) by (auto simp: large_extents_def)
      then show thesis using new by blast
    qed
  qed
qed

text \<open>
  A large allocation is registered with at least the requested capacity; freeing it succeeds
  once, gives back exactly its mapping and forgets it, so that freeing it again is refused without
  any effect.
\<close>

lemma large_lifecycle:
  assumes "large_inv os M large R" "0 < bytes" "bytes \<le> 2 ^ 60"
    "LargeAllocator_allocate os bytes M large = (p, M1, large1)" "p \<noteq> 0"
    "LargeAllocator_deallocate os p M1 large1 = (ok, M2, large2)"
  shows "LargeAllocator_contains p large1 \<and> bytes \<le> LargeAllocator_payloadCapacity p large1 \<and>
    ok \<and> large2 = large \<and> mapped M2 = mapped M \<and> \<not> LargeAllocator_contains p large2 \<and>
    LargeAllocator_deallocate os p M2 large2 = (False, M2, large2)"
proof -
  obtain a n where a: "p = a + 16" "large1 = (p, a, n) # large" "mapped M1 = (a, n) # mapped M"
    "map_of large p = None" "0 < n"
    using LargeAllocator_allocate_nonnull [OF assms(1-5)] .
  note one = large_allocate_inv(2) [OF assms(1-5)]
  have inv1: "os_ok os" "machine_ok M1" using one large_invD(1,2) by blast+
  have del: "AList.delete p large = large"
    using a(4) by (simp add: AList.delete_idem map_of_eq_None_iff)
  have M2: "M2 = SystemMemory_unmap os (a, n) M1" "ok" "large2 = large"
    using assms(6) a del
    by (auto simp: LargeAllocator_deallocate_def MappedRegion_destroy_def MappedRegion_reset_def)
  have "mapped M2 = mapped M"
    using SystemMemory_unmap_mapped(1) [OF inv1, of a n] a(3) by (simp add: M2)
  then show ?thesis
    using one a M2 by (simp add: LargeAllocator_contains_def LargeAllocator_deallocate_def)
qed

end
