(* ===== verification/Statistics.thy ===== *)
theory Statistics
  imports Complex_Main Prelude
begin

text \<open>
  The usage counters, \<^verbatim>\<open>src/StatisticsCollector.hpp\<close> and \<^verbatim>\<open>include/MAlloc/Statistics.hpp\<close>.  Every
  member of the collector is an atomic 64-bit counter of its own; the collector is the store of
  these locations.  The operations come twice: as the effect of an undisturbed call, which is what
  the allocator's model composes, and as the sequence of atomic accesses a call makes, for runs in
  which the calls of several threads interleave.  The lemmas show that the counters come out
  exact whatever the interleaving, that the peak never falls, and that it covers the current usage
  whenever no call is under way.  Ratios are exact reals, without the rounding of \<^verbatim>\<open>double\<close>.
\<close>

section \<open>The code\<close>

datatype counter =
  AllocationCount | FreeCount | ActiveAllocations | LiveRequested | LiveReserved | PeakUsage |
  AllocatedBytes | FreedBytes

type_synonym StatisticsCollector = "counter \<Rightarrow> 64 word"

definition StatisticsCollector_init :: StatisticsCollector where
  "StatisticsCollector_init = (\<lambda>_. 0)"

definition fetch_add :: "counter \<Rightarrow> 64 word \<Rightarrow> StatisticsCollector \<Rightarrow> StatisticsCollector" where
  "fetch_add c v st = st(c := st c + v)"

definition fetch_sub :: "counter \<Rightarrow> 64 word \<Rightarrow> StatisticsCollector \<Rightarrow> StatisticsCollector" where
  "fetch_sub c v st = st(c := st c - v)"

definition updatePeak :: "64 word \<Rightarrow> StatisticsCollector \<Rightarrow> StatisticsCollector" where
  "updatePeak current st = (if st PeakUsage < current then st(PeakUsage := current) else st)"

definition recordAllocation :: "64 word \<Rightarrow> 64 word \<Rightarrow> StatisticsCollector \<Rightarrow> StatisticsCollector" where
  "recordAllocation requested reserved st =
     (let st1 = fetch_add AllocationCount 1 st;
          st2 = fetch_add AllocatedBytes requested st1;
          st3 = fetch_add LiveRequested requested st2;
          st4 = fetch_add LiveReserved reserved st3;
          st5 = fetch_add ActiveAllocations 1 st4
      in updatePeak (st5 LiveRequested) st5)"

definition recordFree :: "64 word \<Rightarrow> 64 word \<Rightarrow> StatisticsCollector \<Rightarrow> StatisticsCollector" where
  "recordFree requested reserved st =
     (let st1 = fetch_add FreeCount 1 st;
          st2 = fetch_add FreedBytes requested st1;
          st3 = fetch_sub LiveRequested requested st2;
          st4 = fetch_sub LiveReserved reserved st3
      in fetch_sub ActiveAllocations 1 st4)"

record StatisticsSnapshot =
  allocationCount :: "64 word"
  freeCount :: "64 word"
  activeAllocations :: "64 word"
  currentUsage :: "64 word"
  peakUsage :: "64 word"
  allocatedBytes :: "64 word"
  freedBytes :: "64 word"
  reservedBytes :: "64 word"
  internalFragmentation :: real
  externalFragmentation_of :: real

definition StatisticsSnapshot_empty :: StatisticsSnapshot where
  "StatisticsSnapshot_empty =
     \<lparr>allocationCount = 0, freeCount = 0, activeAllocations = 0, currentUsage = 0, peakUsage = 0,
      allocatedBytes = 0, freedBytes = 0, reservedBytes = 0, internalFragmentation = 0,
      externalFragmentation_of = 0\<rparr>"

definition snapshot :: "real \<Rightarrow> StatisticsCollector \<Rightarrow> StatisticsSnapshot" where
  "snapshot external st =
     (let reserved = real (unat (st LiveReserved)); requested = real (unat (st LiveRequested))
      in \<lparr>allocationCount = st AllocationCount, freeCount = st FreeCount,
          activeAllocations = st ActiveAllocations, currentUsage = st LiveRequested,
          peakUsage = st PeakUsage, allocatedBytes = st AllocatedBytes, freedBytes = st FreedBytes,
          reservedBytes = st LiveReserved,
          internalFragmentation = (if reserved > 0 then (reserved - requested) / reserved else 0),
          externalFragmentation_of = external\<rparr>)"

section \<open>Calls as sequences of atomic accesses\<close>

text \<open>
  What is left of a call is the list of its next accesses.  Loads turn into the accesses that
  depend on the value: after \<open>liveRequested\<close> is read, \<open>updatePeak\<close> reads the peak and then loops.
  A failed exchange, spurious or not, reloads the peak.
\<close>

datatype access =
    Add counter "64 word"
  | Sub counter "64 word"
  | LoadLive
  | LoadPeak "64 word"
  | Exchange "64 word" "64 word"

definition allocationCall :: "64 word \<Rightarrow> 64 word \<Rightarrow> access list" where
  "allocationCall requested reserved =
     [Add AllocationCount 1, Add AllocatedBytes requested, Add LiveRequested requested,
      Add LiveReserved reserved, Add ActiveAllocations 1, LoadLive]"

definition freeCall :: "64 word \<Rightarrow> 64 word \<Rightarrow> access list" where
  "freeCall requested reserved =
     [Add FreeCount 1, Add FreedBytes requested, Sub LiveRequested requested,
      Sub LiveReserved reserved, Sub ActiveAllocations 1]"

inductive access_step :: "StatisticsCollector \<Rightarrow> access list \<Rightarrow> StatisticsCollector \<Rightarrow> access list \<Rightarrow> bool" where
  add: "access_step st (Add c v # k) (fetch_add c v st) k"
| sub: "access_step st (Sub c v # k) (fetch_sub c v st) k"
| load_live: "access_step st (LoadLive # k) st (LoadPeak (st LiveRequested) # k)"
| load_peak: "access_step st (LoadPeak current # k) st (Exchange current (st PeakUsage) # k)"
| enough: "\<not> peak < current \<Longrightarrow> access_step st (Exchange current peak # k) st k"
| exchanged: "peak < current \<Longrightarrow> st PeakUsage = peak \<Longrightarrow>
    access_step st (Exchange current peak # k) (st(PeakUsage := current)) k"
| failed: "peak < current \<Longrightarrow> access_step st (Exchange current peak # k) st (Exchange current (st PeakUsage) # k)"

text \<open>
  Threads \<open>0..<n\<close>: an idle thread begins a call, a busy one makes its next access.  \<open>As\<close> and
  \<open>Fs\<close> list the calls begun so far.  With \<open>tame\<close>, the run is one in which \<open>liveRequested\<close> neither
  overflows nor goes below zero.
\<close>

definition tame_access :: "StatisticsCollector \<Rightarrow> access list \<Rightarrow> bool" where
  "tame_access st k = (case k of
       Add LiveRequested v # _ \<Rightarrow> unat (st LiveRequested) + unat v < 2 ^ 64
     | Sub LiveRequested v # _ \<Rightarrow> v \<le> st LiveRequested
     | _ \<Rightarrow> True)"

inductive stats_run ::
    "bool \<Rightarrow> nat \<Rightarrow> StatisticsCollector \<Rightarrow> (nat \<Rightarrow> access list) \<Rightarrow>
     (64 word \<times> 64 word) list \<Rightarrow> (64 word \<times> 64 word) list \<Rightarrow> bool"
  for tame n where
  start: "stats_run tame n StatisticsCollector_init (\<lambda>_. []) [] []"
| begin_allocation: "stats_run tame n st ths As Fs \<Longrightarrow> t < n \<Longrightarrow> ths t = [] \<Longrightarrow>
    stats_run tame n st (ths(t := allocationCall a r)) ((a, r) # As) Fs"
| begin_free: "stats_run tame n st ths As Fs \<Longrightarrow> t < n \<Longrightarrow> ths t = [] \<Longrightarrow>
    stats_run tame n st (ths(t := freeCall a r)) As ((a, r) # Fs)"
| access: "stats_run tame n st ths As Fs \<Longrightarrow> t < n \<Longrightarrow> access_step st (ths t) st' k \<Longrightarrow>
    (tame \<Longrightarrow> tame_access st (ths t)) \<Longrightarrow> stats_run tame n st' (ths(t := k)) As Fs"

inductive_cases access_stepE: "access_step st k st' k'"

section \<open>Lemmas\<close>

lemmas counter_simps = fetch_add_def fetch_sub_def

lemma updatePeak_other [simp]: "c \<noteq> PeakUsage \<Longrightarrow> updatePeak v st c = st c"
  by (simp add: updatePeak_def)

lemma updatePeak_max: "updatePeak v st PeakUsage = max (st PeakUsage) v"
  by (auto simp: updatePeak_def max_def)

text \<open>What a call adds to each counter but the peak.\<close>

fun total_of :: "counter \<Rightarrow> (64 word \<times> 64 word) list \<Rightarrow> (64 word \<times> 64 word) list \<Rightarrow> 64 word" where
  "total_of AllocationCount As Fs = of_nat (length As)"
| "total_of FreeCount As Fs = of_nat (length Fs)"
| "total_of ActiveAllocations As Fs = of_nat (length As) - of_nat (length Fs)"
| "total_of LiveRequested As Fs = sum_list (map fst As) - sum_list (map fst Fs)"
| "total_of LiveReserved As Fs = sum_list (map snd As) - sum_list (map snd Fs)"
| "total_of AllocatedBytes As Fs = sum_list (map fst As)"
| "total_of FreedBytes As Fs = sum_list (map fst Fs)"
| "total_of PeakUsage As Fs = 0"

fun pending1 :: "counter \<Rightarrow> access \<Rightarrow> 64 word" where
  "pending1 c (Add c' v) = (if c' = c then v else 0)"
| "pending1 c (Sub c' v) = (if c' = c then - v else 0)"
| "pending1 c _ = 0"

definition pending :: "counter \<Rightarrow> access list \<Rightarrow> 64 word" where
  "pending c k = sum_list (map (pending1 c) k)"

lemma pending_simps [simp]: "pending c [] = 0" "pending c (x # k) = pending1 c x + pending c k"
  by (simp_all add: pending_def)

text \<open>An access moves its contribution from what is pending into the counter.\<close>

lemma access_step_pending:
  assumes "access_step st k st' k'" "c \<noteq> PeakUsage"
  shows "st' c + pending c k' = st c + pending c k"
  using assms by (cases rule: access_step.cases) (auto simp: counter_simps)

lemma sum_threads_upd:
  fixes f :: "'a \<Rightarrow> 64 word" and n t :: nat
  assumes "t < n"
  shows "(\<Sum>i<n. f ((ths(t := k)) i)) = (\<Sum>i<n. f (ths i)) - f (ths t) + f k"
proof -
  have "(\<Sum>i<n. f ((ths(t := k)) i)) = f k + (\<Sum>i\<in>{..<n} - {t}. f ((ths(t := k)) i))"
    using assms by (subst sum.remove [of _ t]) simp_all
  also have "(\<Sum>i\<in>{..<n} - {t}. f ((ths(t := k)) i)) = (\<Sum>i\<in>{..<n} - {t}. f (ths i))"
    by (rule sum.cong) auto
  also have "\<dots> = (\<Sum>i<n. f (ths i)) - f (ths t)"
    using assms sum.remove [of "{..<n}" t "\<lambda>i. f (ths i)"] by simp
  finally show ?thesis by simp
qed

lemma pending_calls:
  assumes "c \<noteq> PeakUsage"
  shows "total_of c ((a, r) # As) Fs = total_of c As Fs + pending c (allocationCall a r)"
    "total_of c As ((a, r) # Fs) = total_of c As Fs + pending c (freeCall a r)"
  using assms by (cases c; simp add: allocationCall_def freeCall_def)+

lemma stats_run_balance:
  assumes "stats_run tame n st ths As Fs" "c \<noteq> PeakUsage"
  shows "st c + (\<Sum>t<n. pending c (ths t)) = total_of c As Fs"
  using assms(1)
proof (induction rule: stats_run.induct)
  case start
  then show ?case using assms(2) by (cases c) (simp_all add: StatisticsCollector_init_def)
next
  case (begin_allocation st ths As Fs t a r)
  then show ?case
    using sum_threads_upd [of t n "pending c" ths "allocationCall a r"] pending_calls(1) [OF assms(2), of a r As Fs]
    by simp
next
  case (begin_free st ths As Fs t a r)
  then show ?case
    using sum_threads_upd [of t n "pending c" ths "freeCall a r"] pending_calls(2) [OF assms(2), of As a r Fs]
    by simp
next
  case (access st ths As Fs t st' k)
  then show ?case
    using sum_threads_upd [of t n "pending c" ths k] access_step_pending [OF access.hyps(3) assms(2)]
    by (metis (no_types, lifting) add.assoc add.commute diff_add_eq add_diff_cancel_right')
qed

text \<open>
  The shape of what is left of a call: an addition to \<open>liveRequested\<close> is followed by its read and
  by no other such addition, and nothing adds to the peak or takes from it.
\<close>

definition adds_live :: "access \<Rightarrow> bool" where
  "adds_live x \<longleftrightarrow> (\<exists>v. x = Add LiveRequested v)"

definition will_read :: "access list \<Rightarrow> bool" where
  "will_read k \<longleftrightarrow> LoadLive \<in> set k \<and> (\<forall>x \<in> set k. \<not> adds_live x)"

fun well_formed :: "access list \<Rightarrow> bool" where
  "well_formed [] = True"
| "well_formed (x # k) \<longleftrightarrow>
     (adds_live x \<longrightarrow> will_read k) \<and> (\<forall>v. x \<noteq> Add PeakUsage v \<and> x \<noteq> Sub PeakUsage v) \<and> well_formed k"

lemma access_step_well_formed: "access_step st k st' k' \<Longrightarrow> well_formed k \<Longrightarrow> well_formed k'"
  by (erule access_stepE) (auto simp: adds_live_def)

lemma calls_well_formed: "well_formed (allocationCall a r)" "well_formed (freeCall a r)"
  by (auto simp: will_read_def adds_live_def allocationCall_def freeCall_def)

lemma stats_run_well_formed: "stats_run tame n st ths As Fs \<Longrightarrow> well_formed (ths t)"
  by (induction arbitrary: t rule: stats_run.induct)
    (auto simp: calls_well_formed intro: access_step_well_formed)

text \<open>Hence the peak never falls, and the value an exchange compares with is at most the peak.\<close>

lemma access_step_peak: "access_step st k st' k' \<Longrightarrow> well_formed k \<Longrightarrow> st PeakUsage \<le> st' PeakUsage"
  by (erule access_stepE) (auto simp: counter_simps)

definition peak_read :: "StatisticsCollector \<Rightarrow> access list \<Rightarrow> bool" where
  "peak_read st k \<longleftrightarrow> (\<forall>c p. Exchange c p \<in> set k \<longrightarrow> p \<le> st PeakUsage)"

lemma access_step_peak_read:
  assumes "access_step st k st' k'" "well_formed k" "peak_read st k"
  shows "peak_read st' k'"
  using assms(1) access_step_peak [OF assms(1,2)] assms(3)
  by (cases rule: access_step.cases) (auto simp: peak_read_def intro: order_trans)

lemma stats_run_peak_read: "stats_run tame n st ths As Fs \<Longrightarrow> peak_read st (ths t)"
proof (induction arbitrary: t rule: stats_run.induct)
  case (access st ths As Fs t' st' k)
  note wf = stats_run_well_formed [OF access.hyps(1), of t']
  show ?case
  proof (cases "t = t'")
    case True
    then show ?thesis using access_step_peak_read [OF access.hyps(3) wf access.IH] by simp
  next
    case False
    then show ?thesis using access_step_peak [OF access.hyps(3) wf] access.IH [of t]
      by (auto simp: peak_read_def intro: order_trans)
  qed
qed (auto simp: peak_read_def allocationCall_def freeCall_def)

text \<open>
  An allocation that has added to \<open>liveRequested\<close> goes on to read it; once it has read, it carries
  a value that covers the current usage until the peak does.
\<close>

definition will_raise :: "64 word \<Rightarrow> access list \<Rightarrow> bool" where
  "will_raise v k \<longleftrightarrow> (\<exists>c rest. v \<le> c \<and> (k = LoadPeak c # rest \<or> (\<exists>p. k = Exchange c p # rest)))"

definition covered :: "StatisticsCollector \<Rightarrow> (nat \<Rightarrow> access list) \<Rightarrow> bool" where
  "covered st ths \<longleftrightarrow> st LiveRequested \<le> st PeakUsage \<or>
     (\<exists>t. will_read (ths t) \<or> will_raise (st LiveRequested) (ths t))"

lemma tame_live:
  assumes "access_step st k st' k'" "tame_access st k" "well_formed k"
  shows "st' LiveRequested \<le> st LiveRequested \<or> will_read k'"
  using assms
  by (cases rule: access_step.cases)
    (auto simp: tame_access_def counter_simps adds_live_def word_sub_le split: counter.splits)

lemma will_read_step:
  assumes "access_step st k st' k'" "will_read k"
  shows "will_read k' \<or> will_raise (st' LiveRequested) k'"
  using assms by (cases rule: access_step.cases) (auto simp: will_read_def will_raise_def adds_live_def)

lemma will_raise_step:
  assumes "access_step st k st' k'" "will_raise (st LiveRequested) k" "peak_read st k"
  shows "st' LiveRequested \<le> st' PeakUsage \<or> will_raise (st' LiveRequested) k'"
  using assms
  by (cases rule: access_step.cases) (auto simp: will_raise_def peak_read_def not_less intro: order_trans)

lemma will_raise_mono: "will_raise v k \<Longrightarrow> w \<le> v \<Longrightarrow> will_raise w k"
  unfolding will_raise_def by (blast intro: order_trans)

lemma access_covered:
  assumes "access_step st (ths t) st' k" "tame_access st (ths t)" "well_formed (ths t)" "peak_read st (ths t)"
    "covered st ths"
  shows "covered st' (ths(t := k))"
proof (cases "will_read k")
  case True
  then have "will_read ((ths(t := k)) t)" by simp
  then show ?thesis unfolding covered_def by blast
next
  case False
  then have live: "st' LiveRequested \<le> st LiveRequested" using tame_live [OF assms(1-3)] by blast
  note peak = access_step_peak [OF assms(1,3)]
  consider "st LiveRequested \<le> st PeakUsage" | t' where "t' \<noteq> t" "will_read (ths t') \<or> will_raise (st LiveRequested) (ths t')"
    | "will_read (ths t)" | "will_raise (st LiveRequested) (ths t)"
    using assms(5) unfolding covered_def by metis
  then show ?thesis
  proof cases
    case 1
    then have "st' LiveRequested \<le> st' PeakUsage" using live peak by (meson order_trans)
    then show ?thesis by (simp add: covered_def)
  next
    case (2 t')
    then have "will_read (ths t') \<or> will_raise (st' LiveRequested) (ths t')" using will_raise_mono live by blast
    then show ?thesis using 2(1) unfolding covered_def by (metis fun_upd_other)
  next
    case 3
    then have "will_read k \<or> will_raise (st' LiveRequested) k" using will_read_step [OF assms(1)] by blast
    then show ?thesis unfolding covered_def by (metis fun_upd_same)
  next
    case 4
    then show ?thesis using will_raise_step [OF assms(1) _ assms(4)] unfolding covered_def
      by (metis fun_upd_same)
  qed
qed

lemma stats_run_covered: "stats_run True n st ths As Fs \<Longrightarrow> covered st ths"
proof (induction rule: stats_run.induct)
  case start
  then show ?case by (simp add: covered_def StatisticsCollector_init_def)
next
  case (begin_allocation st ths As Fs t a r)
  then have "will_read (ths t') \<or> will_raise v (ths t') \<Longrightarrow> t' \<noteq> t" for t' v
    by (auto simp: will_read_def will_raise_def)
  then show ?case using begin_allocation.IH unfolding covered_def by (metis fun_upd_other)
next
  case (begin_free st ths As Fs t a r)
  then have "will_read (ths t') \<or> will_raise v (ths t') \<Longrightarrow> t' \<noteq> t" for t' v
    by (auto simp: will_read_def will_raise_def)
  then show ?case using begin_free.IH unfolding covered_def by (metis fun_upd_other)
next
  case (access st ths As Fs t st' k)
  then show ?case
    using access_covered stats_run_well_formed [OF access.hyps(1)] stats_run_peak_read [OF access.hyps(1)] by blast
qed

text \<open>
  Reaching the end of a call alone: a call that no other thread disturbs has the effect of the
  undisturbed operation, with any number of spuriously failed exchanges.
\<close>

inductive solo :: "StatisticsCollector \<Rightarrow> access list \<Rightarrow> StatisticsCollector \<Rightarrow> bool" where
  finished: "solo st [] st"
| step: "access_step st k st' k' \<Longrightarrow> solo st' k' st'' \<Longrightarrow> solo st k st''"

inductive_cases solo_doneE: "solo st [] st'"

lemma solo_simps:
  "solo st [] st' \<longleftrightarrow> st' = st"
  "solo st (Add c v # k) st' \<longleftrightarrow> solo (fetch_add c v st) k st'"
  "solo st (Sub c v # k) st' \<longleftrightarrow> solo (fetch_sub c v st) k st'"
  "solo st (LoadLive # k) st' \<longleftrightarrow> solo st (LoadPeak (st LiveRequested) # k) st'"
  "solo st (LoadPeak v # k) st' \<longleftrightarrow> solo st (Exchange v (st PeakUsage) # k) st'"
  by (auto elim: solo.cases access_step.cases intro: solo.intros access_step.intros)

lemma solo_exchange: "solo st (Exchange v (st PeakUsage) # k) st' \<longleftrightarrow> solo (updatePeak v st) k st'"
proof
  have "solo s xs s' \<Longrightarrow> xs = Exchange v (s PeakUsage) # k \<Longrightarrow> solo (updatePeak v s) k s'" for s xs s'
  proof (induction rule: solo.induct)
    case (step s xs s1 xs1 s2)
    have "s1 = updatePeak v s \<and> xs1 = k \<or> s1 = s \<and> xs1 = xs"
      using step.hyps(1) step.prems by (cases rule: access_step.cases) (auto simp: updatePeak_def)
    then show ?case using step.hyps(2) step.IH step.prems by blast
  qed simp
  then show "solo st (Exchange v (st PeakUsage) # k) st' \<Longrightarrow> solo (updatePeak v st) k st'" by blast
next
  assume s: "solo (updatePeak v st) k st'"
  have "access_step st (Exchange v (st PeakUsage) # k) (updatePeak v st) k"
    by (auto simp: updatePeak_def intro: access_step.intros)
  then show "solo st (Exchange v (st PeakUsage) # k) st'" using s by (rule solo.step)
qed

text \<open>A run of one call by one of two threads.\<close>

lemma run_add:
  assumes "stats_run tame n st ((\<lambda>_. [])(t := Add c v # k)) As Fs" "t < n"
    "c = LiveRequested \<longrightarrow> unat (st LiveRequested) + unat v < 2 ^ 64"
  shows "stats_run tame n (fetch_add c v st) ((\<lambda>_. [])(t := k)) As Fs"
proof -
  have s: "access_step st (((\<lambda>_. [])(t := Add c v # k)) t) (fetch_add c v st) k" by (simp add: access_step.add)
  have "tame_access st (((\<lambda>_. [])(t := Add c v # k)) t)" using assms(3) by (auto simp: tame_access_def split: counter.splits)
  from stats_run.access [OF assms(1,2) s this] show ?thesis by (simp only: fun_upd_upd)
qed

lemma run_peak:
  assumes "stats_run tame n st ((\<lambda>_. [])(t := [LoadLive])) As Fs" "t < n"
  shows "stats_run tame n (updatePeak (st LiveRequested) st) (\<lambda>_. []) As Fs"
proof -
  have step: "stats_run tame n st' ((\<lambda>_. [])(t := k')) As Fs"
    if "stats_run tame n st ((\<lambda>_. [])(t := k)) As Fs" "access_step st k st' k'" "tame_access st k" for st st' k k'
    using stats_run.access [OF that(1) assms(2), of st' k'] that(2,3) by (simp only: fun_upd_upd fun_upd_same simp_thms)
  have x: "access_step st [Exchange (st LiveRequested) (st PeakUsage)] (updatePeak (st LiveRequested) st) []"
    by (auto simp: updatePeak_def intro: access_step.intros)
  note step [OF step [OF step [OF assms(1) access_step.load_live] access_step.load_peak] x]
  then show ?thesis by (simp add: tame_access_def fun_upd_idem)
qed

lemma one_call: "stats_run True 2 (recordAllocation 10 16 StatisticsCollector_init) (\<lambda>_. []) [(10, 16)] []"
proof -
  have "stats_run True 2 StatisticsCollector_init ((\<lambda>_. [])(1 := allocationCall 10 16)) [(10, 16)] []"
    by (rule stats_run.begin_allocation [OF stats_run.start]) simp_all
  then have "stats_run True 2 (fetch_add ActiveAllocations 1 (fetch_add LiveReserved 16 (fetch_add LiveRequested 10
      (fetch_add AllocatedBytes 10 (fetch_add AllocationCount 1 StatisticsCollector_init)))))
      ((\<lambda>_. [])(1 := [LoadLive])) [(10, 16)] []"
    unfolding allocationCall_def
    by (intro run_add) (simp_all add: counter_simps StatisticsCollector_init_def)
  from run_peak [OF this] show ?thesis unfolding recordAllocation_def Let_def by simp
qed

section \<open>Properties\<close>

text \<open>
  C39: however the calls of the threads interleave, once no call is under way every counter but
  the peak holds exactly the sum of what the calls recorded, modulo \<open>2 ^ 64\<close>; no update is lost.
\<close>

theorem concurrent_counters_exact:
  assumes "stats_run tame n st ths As Fs" "\<forall>t < n. ths t = []" "c \<noteq> PeakUsage"
  shows "st c = total_of c As Fs"
  using stats_run_balance [OF assms(1,3)] assms(2) by simp

theorem concurrent_counters_exact_witness:
  "\<exists>st. stats_run True 2 st (\<lambda>_. []) [(10, 16)] [] \<and> st LiveRequested = 10 \<and> st ActiveAllocations = 1"
proof -
  note d = one_call
  show ?thesis
    using d concurrent_counters_exact [OF d, of LiveRequested] concurrent_counters_exact [OF d, of ActiveAllocations] by auto
qed

text \<open>
  C40: as long as the bytes in use neither overflow nor go below zero, the recorded peak covers
  the current usage whenever no call is under way, for every interleaving of the compare-and-swap
  loops.
\<close>

theorem concurrent_peak_covers_current:
  assumes "stats_run True n st ths As Fs" "\<forall>t. ths t = []"
  shows "st LiveRequested \<le> st PeakUsage"
  using stats_run_covered [OF assms(1)] assms(2) by (simp add: covered_def will_read_def will_raise_def)

theorem concurrent_peak_covers_current_witness:
  "stats_run True 2 (recordAllocation 10 16 StatisticsCollector_init) (\<lambda>_. []) [(10, 16)] [] \<and>
   recordAllocation 10 16 StatisticsCollector_init LiveRequested \<le> recordAllocation 10 16 StatisticsCollector_init PeakUsage"
  using one_call concurrent_peak_covers_current [OF one_call] by blast

text \<open>
  An undisturbed run of the accesses of \<open>recordAllocation\<close> and \<open>recordFree\<close>, whatever spurious
  failures its exchange meets, has exactly the effect of the definitions the allocator uses.
\<close>

lemma solo_calls_refine:
  "(solo st (allocationCall a r) st' \<longleftrightarrow> st' = recordAllocation a r st) \<and>
   (solo st (freeCall a r) st' \<longleftrightarrow> st' = recordFree a r st)"
  by (simp add: allocationCall_def freeCall_def solo_simps solo_exchange recordAllocation_def recordFree_def Let_def)

end
