(* ===== verification/DebugLayer.thy ===== *)
theory DebugLayer
  imports BlockHeader "HOL-Library.AList"
begin

text \<open>
  The debugging aids, \<^verbatim>\<open>src/DebugLayer.hpp\<close>: guard bytes around an allocation, poison, and the
  registry of live and of released pointers.  The hash map and the hash set are lists whose order
  is never looked at.  An insertion may fail when the host heap is exhausted; its answer is an
  argument, and a failure is swallowed as the code does.
\<close>

section \<open>The code\<close>

definition kFrontGuardSize :: nat where [const_simps]: "kFrontGuardSize = 32"
definition kRearGuardSize :: nat where [const_simps]: "kRearGuardSize = 32"
definition kGuardPattern :: byte where "kGuardPattern = 0xFB"
definition kAllocPoison :: byte where "kAllocPoison = 0xCD"
definition kFreePoison :: byte where "kFreePoison = 0xDD"

definition guardedSize :: "nat \<Rightarrow> nat" where
  "guardedSize requested = size_add (size_add requested kFrontGuardSize) kRearGuardSize"

definition applyGuards :: "addr \<Rightarrow> nat \<Rightarrow> memory \<Rightarrow> addr \<times> memory" where
  "applyGuards raw requested m =
     (let user = raw + kFrontGuardSize;
          m1 = memset raw kGuardPattern (kFrontGuardSize - kHeaderSize) m;
          m2 = memset (user + requested) kGuardPattern kRearGuardSize m1
      in (user, store_header (headerOf user)
            \<lparr>payloadSize = requested, tier = tier_code DebugShim, state = kStateAllocated,
             offset = kFrontGuardSize\<rparr> m2))"

text \<open>Each loop stops at the first byte that differs.\<close>

definition verifyGuards :: "addr \<Rightarrow> nat \<Rightarrow> memory \<Rightarrow> bool" where
  "verifyGuards user requested m \<longleftrightarrow>
     (let front = user - kFrontGuardSize; rear = user + requested in
      list_all (\<lambda>i. m (front + i) = kGuardPattern) [0..<kFrontGuardSize - kHeaderSize] \<and>
      list_all (\<lambda>i. m (rear + i) = kGuardPattern) [0..<kRearGuardSize])"

definition poisonOnAllocate :: "addr \<Rightarrow> nat \<Rightarrow> memory \<Rightarrow> memory" where
  "poisonOnAllocate p n = memset p kAllocPoison n"

definition poisonOnFree :: "addr \<Rightarrow> nat \<Rightarrow> memory \<Rightarrow> memory" where
  "poisonOnFree p n = memset p kFreePoison n"

record DebugLayer =
  live :: "(addr \<times> nat) list"
  freed :: "addr list"

definition DebugLayer_init :: DebugLayer where
  "DebugLayer_init = \<lparr>live = [], freed = []\<rparr>"

definition isTracked :: "addr \<Rightarrow> DebugLayer \<Rightarrow> bool" where
  "isTracked user d \<longleftrightarrow> user \<in> set (map fst (live d))"

definition wasFreed :: "addr \<Rightarrow> DebugLayer \<Rightarrow> bool" where
  "wasFreed user d \<longleftrightarrow> user \<in> set (freed d)"

definition liveCount :: "DebugLayer \<Rightarrow> nat" where
  "liveCount d = length (live d)"

text \<open>Overwriting the size under a key that is there needs no memory.\<close>

definition track :: "bool \<Rightarrow> addr \<Rightarrow> nat \<Rightarrow> DebugLayer \<Rightarrow> DebugLayer" where
  "track ok user n d =
     (if ok \<or> isTracked user d
      then d\<lparr>live := AList.update user n (live d), freed := removeAll user (freed d)\<rparr> else d)"

definition untrack :: "bool \<Rightarrow> addr \<Rightarrow> DebugLayer \<Rightarrow> bool \<times> DebugLayer" where
  "untrack ok user d =
     (if \<not> isTracked user d then (False, d)
      else (True, d\<lparr>live := AList.delete user (live d),
                    freed := (if ok then List.insert user (freed d) else freed d)\<rparr>))"

section \<open>Guards\<close>

text \<open>The bytes the guards of an allocation occupy.\<close>

definition guard_bytes :: "addr \<Rightarrow> nat \<Rightarrow> addr set" where
  "guard_bytes user n = {user - kFrontGuardSize..<user - kHeaderSize} \<union> {user + n..<user + n + kRearGuardSize}"

lemma verifyGuards_iff:
  assumes "kFrontGuardSize \<le> user"
  shows "verifyGuards user n m \<longleftrightarrow> (\<forall>x \<in> guard_bytes user n. m x = kGuardPattern)"
proof -
  have shift: "list_all (\<lambda>i. m (a + i) = kGuardPattern) [0..<k] \<longleftrightarrow> (\<forall>x \<in> {a..<a + k}. m x = kGuardPattern)" for a k
  proof -
    have "{a..<a + k} = (+) a ` {0..<k}" by (simp add: add.commute)
    then show ?thesis by (simp only: list_all_iff ball_simps(9) set_upt)
  qed
  have "user - kFrontGuardSize + (kFrontGuardSize - kHeaderSize) = user - kHeaderSize"
    using assms by (simp add: const_simps)
  then show ?thesis unfolding verifyGuards_def Let_def shift guard_bytes_def by (simp add: ball_Un)
qed

lemma applyGuards_user [simp]: "fst (applyGuards raw n m) = raw + 32"
  by (simp add: applyGuards_def Let_def const_simps)

lemma applyGuards_out:
  "x < raw \<or> raw + 32 + n + 32 \<le> x \<or> (raw + 32 \<le> x \<and> x < raw + 32 + n) \<Longrightarrow> snd (applyGuards raw n m) x = m x"
  by (auto simp: applyGuards_def Let_def const_simps headerOf_def store_header_out memset_def)

lemma applyGuards_guard: "x \<in> guard_bytes (raw + 32) n \<Longrightarrow> snd (applyGuards raw n m) x = kGuardPattern"
  by (auto simp: applyGuards_def Let_def const_simps headerOf_def guard_bytes_def store_header_out memset_def)

lemma applyGuards_header:
  assumes "n < 2 ^ 64"
  shows "load_header (snd (applyGuards raw n m)) (headerOf (raw + 32)) =
    \<lparr>payloadSize = n, tier = tier_code DebugShim, state = kStateAllocated, offset = 32\<rparr>"
  using assms by (simp add: applyGuards_def Let_def const_simps load_store_header)

section \<open>The registry\<close>

definition registry_ok :: "DebugLayer \<Rightarrow> bool" where
  "registry_ok d \<longleftrightarrow> distinct (map fst (live d)) \<and> set (map fst (live d)) \<inter> set (freed d) = {}"

lemma isTracked_map_of: "isTracked user d \<longleftrightarrow> map_of (live d) user \<noteq> None"
  by (simp add: isTracked_def map_of_eq_None_iff)

lemma registry_init: "registry_ok DebugLayer_init"
  by (simp add: registry_ok_def DebugLayer_init_def)

lemma registry_track: "registry_ok d \<Longrightarrow> registry_ok (track ok user n d)"
  by (auto simp: registry_ok_def track_def dom_update distinct_update)

lemma registry_untrack: "registry_ok d \<Longrightarrow> registry_ok (snd (untrack ok user d))"
  using distinct_delete [of "live d" user]
  by (auto simp: registry_ok_def untrack_def delete_keys simp flip: set_map)

lemma live_track: "map_of (live (track ok user n d)) =
    (if ok \<or> isTracked user d then (map_of (live d))(user \<mapsto> n) else map_of (live d))"
  by (simp add: track_def update_conv')

lemma live_untrack: "map_of (live (snd (untrack ok user d))) = (map_of (live d))(user := None)"
  by (auto simp: untrack_def delete_conv' isTracked_map_of fun_eq_iff)

lemma liveCount_card: "registry_ok d \<Longrightarrow> liveCount d = card (dom (map_of (live d)))"
  using distinct_card [of "map fst (live d)"] by (simp add: registry_ok_def liveCount_def dom_map_of_conv_image_fst)

section \<open>Properties\<close>

text \<open>
  The guards detect exactly the overruns that reach them: compared with the memory right after
  the guards were laid, \<open>verifyGuards\<close> succeeds if and only if no guard byte has changed, in
  front of the allocation or behind it.
\<close>

lemma guards_detect_overwrites:
  assumes "applyGuards raw n m = (user, m1)"
  shows "verifyGuards user n m' \<longleftrightarrow> (\<forall>x \<in> guard_bytes user n. m' x = m1 x)"
proof -
  have u: "user = raw + 32" and m1: "m1 = snd (applyGuards raw n m)"
    using assms applyGuards_user [of raw n m] by simp_all
  have "\<forall>x \<in> guard_bytes user n. m1 x = kGuardPattern" using applyGuards_guard unfolding u m1 by blast
  then show ?thesis using verifyGuards_iff [of user n m'] by (simp add: u const_simps)
qed

text \<open>
  The registry behaves as a map from live pointers to sizes and a set of released ones, as
  long as the host heap has room: a tracked pointer is live and not released, an untracked one
  released and not live, other pointers are unaffected, and \<open>liveCount\<close> counts the live ones.
\<close>

lemma registry_refines_map:
  assumes "registry_ok d"
  shows "registry_ok (track True p n d) \<and> map_of (live (track True p n d)) = (map_of (live d))(p \<mapsto> n) \<and>
    set (freed (track True p n d)) = set (freed d) - {p} \<and>
    registry_ok (snd (untrack True p d)) \<and> map_of (live (snd (untrack True p d))) = (map_of (live d))(p := None) \<and>
    set (freed (snd (untrack True p d))) = (if isTracked p d then insert p (set (freed d)) else set (freed d)) \<and>
    fst (untrack True p d) = isTracked p d \<and> liveCount d = card (dom (map_of (live d)))"
  using registry_track [OF assms] registry_untrack [OF assms] live_track [of True p n d] live_untrack [of True p d]
    liveCount_card [OF assms]
  by (simp add: untrack_def) (simp add: track_def)

end
