(* ===== verification/Config.thy ===== *)
theory Config
  imports Prelude
begin

text \<open>
  The error codes and the configuration of an allocator, \<^verbatim>\<open>include/MAlloc/Error.hpp\<close> and
  \<^verbatim>\<open>include/MAlloc/Config.hpp\<close>.  An error handler is code of the client; of it the model keeps
  whether one is set, and the allocator's model records every call to it.  The version constants are
  here too.
\<close>

datatype Error = OutOfMemory | SizeOverflow | InvalidAlignment | InvalidPointer | DoubleFree | HeapCorruption

fun toString :: "Error \<Rightarrow> string" where
  "toString OutOfMemory = ''out of memory''"
| "toString SizeOverflow = ''size overflow''"
| "toString InvalidAlignment = ''invalid alignment''"
| "toString InvalidPointer = ''invalid pointer''"
| "toString DoubleFree = ''double free''"
| "toString HeapCorruption = ''heap corruption''"

record AllocatorConfig =
  enableGuardBytes :: bool
  enablePoisoning :: bool
  enableLeakTracking :: bool
  enableDoubleFreeDetection :: bool
  enableThreadCache :: bool
  abortOnError :: bool
  errorHandler :: bool

definition AllocatorConfig_default :: AllocatorConfig where
  "AllocatorConfig_default =
     \<lparr>enableGuardBytes = False, enablePoisoning = False, enableLeakTracking = False,
      enableDoubleFreeDetection = True, enableThreadCache = True, abortOnError = False,
      errorHandler = False\<rparr>"

definition AllocatorConfig_release :: AllocatorConfig where
  "AllocatorConfig_release = AllocatorConfig_default"

definition AllocatorConfig_debug :: AllocatorConfig where
  "AllocatorConfig_debug =
     AllocatorConfig_default\<lparr>enableGuardBytes := True, enablePoisoning := True, enableLeakTracking := True,
       enableDoubleFreeDetection := True, enableThreadCache := False\<rparr>"

lemma toString_inj: "toString e = toString e' \<longleftrightarrow> e = e'"
  by (cases e; cases e') simp_all

section \<open>Version\<close>

text \<open>\<^verbatim>\<open>include/MAlloc/Version.hpp\<close>\<close>

definition kVersionMajor :: nat where "kVersionMajor = 0"
definition kVersionMinor :: nat where "kVersionMinor = 1"
definition kVersionPatch :: nat where "kVersionPatch = 0"

definition versionString :: string where "versionString = ''0.1.0''"

text \<open>The text names the three numbers.\<close>

definition digit_char :: "nat \<Rightarrow> char" where
  "digit_char d = ''0123456789'' ! d"

lemma versionString_numbers:
  "versionString = [digit_char kVersionMajor] @ ''.'' @ [digit_char kVersionMinor] @ ''.'' @ [digit_char kVersionPatch]"
  by (simp add: versionString_def kVersionMajor_def kVersionMinor_def kVersionPatch_def digit_char_def)

end
