(* ===== verification/AllocatorImpl.thy ===== *)
theory AllocatorImpl
  imports ThreadCache SegmentHeap LargeAllocator Statistics DebugLayer Config
begin

text \<open>
  The allocator behind the public interface, \<^verbatim>\<open>src/AllocatorImpl.hpp\<close>, \<^verbatim>\<open>src/AllocatorImpl.cpp\<close> and
  \<^verbatim>\<open>src/CentralState.hpp\<close>: it chooses the tier, writes and checks headers, lays guards, keeps the
  registry and the counters, and reports errors.

  The state holds the central state and the debug layer, and beside them what a call can reach: the
  caches of all threads, the machine, and the record of what was printed or passed to the error
  handler.  A caller brings its thread and the answers of the host heap to the requests for memory
  that the code guards with a \<^verbatim>\<open>catch\<close>.  A call may return, end the process (\<open>abortOnError\<close>), be
  undefined (it reads a header where no memory is mapped, or a table out of its bounds), or not
  return (a search in corrupted bins).
\<close>

section \<open>State\<close>

datatype event = HandlerCalled Error addr | Printed string addr | LeaksPrinted nat

record CentralState =
  config :: AllocatorConfig
  stats :: StatisticsCollector
  poolAllocator :: PoolAllocator
  segmentHeap :: SegmentHeap
  largeAllocator :: LargeAllocator

record AllocatorImpl = CentralState +
  debug :: DebugLayer
  tlsCaches :: tls
  world :: machine
  events :: "event list"

record caller =
  thread :: nat
  cacheRoom :: bool
  liveRoom :: bool
  freedRoom :: bool

type_synonym 'a result = "(Error + 'a, AllocatorImpl) outcome"

definition kMaxRequest :: nat where [const_simps]: "kMaxRequest = 2 ^ 46"
definition kMaxAlignment :: nat where [const_simps]: "kMaxAlignment = 2 ^ 30"

definition AllocatorImpl_make :: "AllocatorConfig \<Rightarrow> tls \<Rightarrow> machine \<Rightarrow> AllocatorImpl" where
  "AllocatorImpl_make cfg tls M =
     \<lparr>config = cfg, stats = StatisticsCollector_init, poolAllocator = PoolAllocator_init,
      segmentHeap = SegmentHeap_init, largeAllocator = LargeAllocator_init, debug = DebugLayer_init,
      tlsCaches = tls, world = M, events = []\<rparr>"

definition on_mem :: "(memory \<Rightarrow> memory) \<Rightarrow> AllocatorImpl \<Rightarrow> AllocatorImpl" where
  "on_mem f s = s\<lparr>world := (world s)\<lparr>mem := f (mem (world s))\<rparr>\<rparr>"

text \<open>The header in front of a pointer, where it can be read at all.\<close>

definition byte_mapped :: "machine \<Rightarrow> addr \<Rightarrow> bool" where
  "byte_mapped M x \<longleftrightarrow> list_ex (\<lambda>(a, n). a \<le> x \<and> x < a + n) (mapped M)"

definition header_at :: "machine \<Rightarrow> addr \<Rightarrow> BlockHeader option" where
  "header_at M ptr =
     (if kHeaderSize \<le> ptr \<and> list_all (byte_mapped M) [headerOf ptr..<ptr]
      then Some (load_header (mem M) (headerOf ptr)) else None)"

section \<open>Errors\<close>

definition report :: "Error \<Rightarrow> addr \<Rightarrow> AllocatorImpl \<Rightarrow> (unit, AllocatorImpl) outcome" where
  "report error p s =
     (let s' = s\<lparr>events := events s @ [if errorHandler (config s) then HandlerCalled error p
                                         else Printed (toString error) p]\<rparr>
      in if abortOnError (config s) then Aborts s' else Returns () s')"

text \<open>Report, then return the error.\<close>

definition fail_with :: "Error \<Rightarrow> addr \<Rightarrow> AllocatorImpl \<Rightarrow> 'a result" where
  "fail_with error p s = and_then (report error p s) (\<lambda>_ s'. Returns (Inl error) s')"

section \<open>Raw allocation\<close>

definition fresh_header :: "nat \<Rightarrow> Tier \<Rightarrow> BlockHeader" where
  "fresh_header n t = \<lparr>payloadSize = n, tier = tier_code t, state = kStateAllocated, offset = 0\<rparr>"

definition rawAllocate :: "os \<Rightarrow> caller \<Rightarrow> nat \<Rightarrow> AllocatorImpl \<Rightarrow> (addr \<times> nat) result" where
  "rawAllocate os c n s =
     (if n \<le> kSmallMax then
        case classIndex n of None \<Rightarrow> Undefined | Some index \<Rightarrow>
        (case smallAllocate os (enableThreadCache (config s)) (thread c) (cacheRoom c) index (world s)
            (poolAllocator s, tlsCaches s) of
          None \<Rightarrow> Undefined
        | Some (block, M, pools, tls) \<Rightarrow>
            let s1 = s\<lparr>world := M, poolAllocator := pools, tlsCaches := tls\<rparr> in
            if block = 0 then Returns (Inl OutOfMemory) s1
            else let user = userPointerOf block in
              Returns (Inr (user, classSize index)) (on_mem (store_header (headerOf user) (fresh_header n Small)) s1))
      else if n \<le> kMediumMax then
        case SegmentHeap_allocate os (size_add n kHeaderSize) (world s) (segmentHeap s) of
          None \<Rightarrow> Diverges
        | Some (payload, M, heap) \<Rightarrow>
            let s1 = s\<lparr>world := M, segmentHeap := heap\<rparr> in
            if payload = 0 then Returns (Inl OutOfMemory) s1
            else let user = userPointerOf payload;
                     s2 = on_mem (store_header (headerOf user) (fresh_header n Medium)) s1
              in Returns (Inr (user, size_sub (SegmentHeap_payloadCapacity payload (mem (world s2))) kHeaderSize)) s2
      else
        case LargeAllocator_allocate os (size_add n kHeaderSize) (world s) (largeAllocator s) of
          (payload, M, large) \<Rightarrow>
            let s1 = s\<lparr>world := M, largeAllocator := large\<rparr> in
            if payload = 0 then Returns (Inl OutOfMemory) s1
            else let user = userPointerOf payload in
              Returns (Inr (user, size_sub (LargeAllocator_payloadCapacity payload large) kHeaderSize))
                (on_mem (store_header (headerOf user) (fresh_header n Large)) s1))"

definition rawDeallocate :: "os \<Rightarrow> caller \<Rightarrow> addr \<Rightarrow> AllocatorImpl \<Rightarrow> nat result" where
  "rawDeallocate os c raw s =
     (case header_at (world s) raw of None \<Rightarrow> Undefined | Some header \<Rightarrow>
      (case tierValue header of
        Some Small \<Rightarrow>
          (case classIndex (payloadSize header) of None \<Rightarrow> Undefined | Some index \<Rightarrow>
             let s1 = on_mem (store_state (headerOf raw) kStateFreed) s in
             (case smallFree (enableThreadCache (config s)) (thread c) (cacheRoom c) index (headerOf raw) (world s1)
                 (poolAllocator s1, tlsCaches s1) of
               None \<Rightarrow> Undefined
             | Some (M, pools, tls) \<Rightarrow>
                 Returns (Inr (classSize index)) (s1\<lparr>world := M, poolAllocator := pools, tlsCaches := tls\<rparr>)))
      | Some Medium \<Rightarrow>
          let s1 = on_mem (store_state (headerOf raw) kStateFreed) s;
              payload = headerOf raw;
              reserved = size_sub (SegmentHeap_payloadCapacity payload (mem (world s1))) kHeaderSize;
              (M, heap) = SegmentHeap_deallocate os payload (world s1) (segmentHeap s1)
          in Returns (Inr reserved) (s1\<lparr>world := M, segmentHeap := heap\<rparr>)
      | Some Large \<Rightarrow>
          let payload = headerOf raw;
              reserved = size_sub (LargeAllocator_payloadCapacity payload (largeAllocator s)) kHeaderSize;
              (ok, M, large) = LargeAllocator_deallocate os payload (world s) (largeAllocator s);
              s1 = s\<lparr>world := M, largeAllocator := large\<rparr>
          in if \<not> ok then Returns (Inl InvalidPointer) s1 else Returns (Inr reserved) s1
      | _ \<Rightarrow> Returns (Inl InvalidPointer) s))"

section \<open>The operations\<close>

text \<open>The tail \<open>allocate\<close> and \<open>alignedAllocate\<close> share: poison, count, track.\<close>

definition finish_allocation :: "caller \<Rightarrow> addr \<Rightarrow> nat \<Rightarrow> nat \<Rightarrow> AllocatorImpl \<Rightarrow> addr result" where
  "finish_allocation c user n reserved s =
     (let s1 = (if enablePoisoning (config s) then on_mem (poisonOnAllocate user n) s else s);
          s2 = s1\<lparr>stats := recordAllocation (to_size n) (to_size reserved) (stats s1)\<rparr>;
          s3 = (if enableLeakTracking (config s) then s2\<lparr>debug := track (liveRoom c) user n (debug s2)\<rparr> else s2)
      in Returns (Inr user) s3)"

definition AllocatorImpl_allocate :: "os \<Rightarrow> caller \<Rightarrow> nat \<Rightarrow> AllocatorImpl \<Rightarrow> addr result" where
  "AllocatorImpl_allocate os c request s =
     (let n = (if request = 0 then 1 else request) in
      if kMaxRequest < n then fail_with SizeOverflow 0 s
      else if enableGuardBytes (config s) then
        and_then (rawAllocate os c (guardedSize n) s) (\<lambda>raw s1. case raw of
            Inl error \<Rightarrow> fail_with error 0 s1
          | Inr (base, reserved) \<Rightarrow>
              let (user, m) = applyGuards base n (mem (world s1))
              in finish_allocation c user n reserved (on_mem (\<lambda>_. m) s1))
      else
        and_then (rawAllocate os c n s) (\<lambda>raw s1. case raw of
            Inl error \<Rightarrow> fail_with error 0 s1
          | Inr (user, reserved) \<Rightarrow> finish_allocation c user n reserved s1))"

text \<open>What the three branches of \<open>deallocate\<close> do with a valid header.\<close>

definition release_block :: "os \<Rightarrow> caller \<Rightarrow> addr \<Rightarrow> BlockHeader \<Rightarrow> AllocatorImpl \<Rightarrow> nat result" where
  "release_block os c p header s =
     (let cfg = config s; requested = payloadSize header;
          poison = (\<lambda>s. if enablePoisoning cfg then on_mem (poisonOnFree p requested) s else s);
          free_shim = (\<lambda>s. on_mem (store_state (headerOf p) kStateFreed) s)
      in case tierValue header of
           Some DebugShim \<Rightarrow>
             and_then (if enableGuardBytes cfg \<and> \<not> verifyGuards p requested (mem (world s))
                       then report HeapCorruption p s else Returns () s)
               (\<lambda>_ s1. rawDeallocate os c (p - offset header) (free_shim (poison s1)))
         | Some AlignedShim \<Rightarrow> rawDeallocate os c (p - offset header) (free_shim (poison s))
         | _ \<Rightarrow> rawDeallocate os c p (poison s))"

definition AllocatorImpl_deallocate :: "os \<Rightarrow> caller \<Rightarrow> addr \<Rightarrow> AllocatorImpl \<Rightarrow> unit result" where
  "AllocatorImpl_deallocate os c p s =
     (if p = 0 then Returns (Inr ()) s
      else if enableLeakTracking (config s) \<and> \<not> isTracked p (debug s) then
        fail_with (if wasFreed p (debug s) then DoubleFree else InvalidPointer) p s
      else case header_at (world s) p of None \<Rightarrow> Undefined | Some header \<Rightarrow>
        if \<not> hasValidTier header \<or> state header \<noteq> kStateAllocated \<and> state header \<noteq> kStateFreed then
          fail_with InvalidPointer p s
        else if state header = kStateFreed then fail_with DoubleFree p s
        else and_then (release_block os c p header s) (\<lambda>reserved s1. case reserved of
            Inl error \<Rightarrow> fail_with error p s1
          | Inr r \<Rightarrow>
              let s2 = s1\<lparr>stats := recordFree (to_size (payloadSize header)) (to_size r) (stats s1)\<rparr>;
                  s3 = (if enableLeakTracking (config s) then s2\<lparr>debug := snd (untrack (freedRoom c) p (debug s2))\<rparr> else s2)
              in Returns (Inr ()) s3))"

definition AllocatorImpl_allocationSize :: "addr \<Rightarrow> AllocatorImpl \<Rightarrow> (nat, AllocatorImpl) outcome" where
  "AllocatorImpl_allocationSize p s =
     (if p = 0 then Returns 0 s
      else if enableLeakTracking (config s) \<and> \<not> isTracked p (debug s) then Returns 0 s
      else case header_at (world s) p of None \<Rightarrow> Undefined | Some header \<Rightarrow>
        if \<not> hasValidTier header \<or> state header \<noteq> kStateAllocated then Returns 0 s
        else Returns (payloadSize header) s)"

text \<open>\<open>c\<close> makes the inner allocation and \<open>c'\<close> the inner release; they are one thread at two times.\<close>

definition AllocatorImpl_reallocate :: "os \<Rightarrow> caller \<Rightarrow> caller \<Rightarrow> addr \<Rightarrow> nat \<Rightarrow> AllocatorImpl \<Rightarrow> addr result" where
  "AllocatorImpl_reallocate os c c' p newSize s =
     (if p = 0 then AllocatorImpl_allocate os c newSize s
      else if newSize = 0 then
        and_then (AllocatorImpl_deallocate os c' p s) (\<lambda>released s1. case released of
            Inl error \<Rightarrow> Returns (Inl error) s1 | Inr _ \<Rightarrow> Returns (Inr 0) s1)
      else and_then (AllocatorImpl_allocationSize p s) (\<lambda>oldSize s1.
        if oldSize = 0 then fail_with InvalidPointer p s1
        else and_then (AllocatorImpl_allocate os c newSize s1) (\<lambda>fresh s2. case fresh of
            Inl error \<Rightarrow> Returns (Inl error) s2
          | Inr q \<Rightarrow>
              and_then (AllocatorImpl_deallocate os c' p (on_mem (memcpy q p (min oldSize newSize)) s2))
                (\<lambda>released s3. case released of
                    Inl error \<Rightarrow> Returns (Inl error) s3 | Inr _ \<Rightarrow> Returns (Inr q) s3))))"

definition AllocatorImpl_alignedAllocate :: "os \<Rightarrow> caller \<Rightarrow> nat \<Rightarrow> nat \<Rightarrow> AllocatorImpl \<Rightarrow> addr result" where
  "AllocatorImpl_alignedAllocate os c alignment request s =
     (if \<not> isPowerOfTwo alignment \<or> kMaxAlignment < alignment then fail_with InvalidAlignment 0 s
      else if alignment \<le> kDefaultAlignment then AllocatorImpl_allocate os c request s
      else let n = (if request = 0 then 1 else request) in
        if kMaxRequest < n then fail_with SizeOverflow 0 s
        else and_then (rawAllocate os c (size_add n alignment) s) (\<lambda>raw s1. case raw of
            Inl error \<Rightarrow> fail_with error 0 s1
          | Inr (address, reserved) \<Rightarrow>
              let up = alignUp address alignment;
                  user = (if up = address then up + alignment else up);
                  shim = \<lparr>payloadSize = n, tier = tier_code AlignedShim, state = kStateAllocated,
                          offset = (user - address) mod 2 ^ 32\<rparr>
              in finish_allocation c user n reserved (on_mem (store_header (headerOf user) shim) s1)))"

definition AllocatorImpl_statistics :: "AllocatorImpl \<Rightarrow> (StatisticsSnapshot, AllocatorImpl) outcome" where
  "AllocatorImpl_statistics s =
     (case externalFragmentation (mem (world s)) (segmentHeap s) of
        None \<Rightarrow> Diverges | Some f \<Rightarrow> Returns (snapshot f (stats s)) s)"

definition AllocatorImpl_config :: "AllocatorImpl \<Rightarrow> AllocatorConfig" where
  "AllocatorImpl_config s = config s"

definition liveAllocationCount :: "AllocatorImpl \<Rightarrow> nat" where
  "liveAllocationCount s = liveCount (debug s)"

text \<open>A thread of the program ends.\<close>

definition AllocatorImpl_threadExit :: "nat \<Rightarrow> AllocatorImpl \<Rightarrow> AllocatorImpl option" where
  "AllocatorImpl_threadExit t s =
     do {
       (M, pools, tls) \<leftarrow> threadExit t (world s) (poolAllocator s, tlsCaches s);
       Some (s\<lparr>world := M, poolAllocator := pools, tlsCaches := tls\<rparr>)
     }"

text \<open>
  The destructor reports leaks; then the central state goes, its members in reverse order of
  declaration, which leaves the caches of all threads expired.
\<close>

definition expire :: "tls \<Rightarrow> tls" where
  "expire tls = (\<lambda>t. map_option (\<lambda>tc. tc\<lparr>expired := True\<rparr>) (tls t))"

definition CentralState_destroy :: "os \<Rightarrow> AllocatorImpl \<Rightarrow> machine" where
  "CentralState_destroy os s =
     PoolAllocator_destroy os (poolAllocator s)
       (SegmentHeap_destroy os (segmentHeap s) (LargeAllocator_destroy os (largeAllocator s) (world s)))"

definition AllocatorImpl_destroy :: "os \<Rightarrow> AllocatorImpl \<Rightarrow> machine \<times> tls \<times> event list" where
  "AllocatorImpl_destroy os s =
     (let leaks = liveCount (debug s);
          evs = (if enableLeakTracking (config s) \<and> 0 < leaks then events s @ [LeaksPrinted leaks] else events s)
      in (CentralState_destroy os s, expire (tlsCaches s), evs))"

end
