(* ===== verification/TierPair.thy ===== *)
theory TierPair
  imports TierContract
begin

text \<open>
  Two tiers that hold disjoint sets of mappings make up one tier, with the keys of both.  The
  locale \<open>tier_pair\<close> proves the whole \<open>tier\<close> contract for the pair once; the allocator's three
  tiers are composed with it.
\<close>

section \<open>The pair\<close>

definition pair_regs :: "('s \<Rightarrow> region list) \<Rightarrow> ('t \<Rightarrow> region list) \<Rightarrow> 's \<times> 't \<Rightarrow> region list" where
  "pair_regs r1 r2 = (\<lambda>(s, t). r1 s @ r2 t)"

definition part1 :: "(('k + 'l) \<times> region) set \<Rightarrow> ('k \<times> region) set" where
  "part1 R = {(k, e). (Inl k, e) \<in> R}"

definition part2 :: "(('k + 'l) \<times> region) set \<Rightarrow> ('l \<times> region) set" where
  "part2 R = {(k, e). (Inr k, e) \<in> R}"

definition pair_inv ::
    "('s \<Rightarrow> region list) \<Rightarrow> ('t \<Rightarrow> region list) \<Rightarrow> (machine \<Rightarrow> 's \<Rightarrow> ('k \<times> region) set \<Rightarrow> bool) \<Rightarrow>
     (machine \<Rightarrow> 't \<Rightarrow> ('l \<times> region) set \<Rightarrow> bool) \<Rightarrow> machine \<Rightarrow> 's \<times> 't \<Rightarrow> (('k + 'l) \<times> region) set \<Rightarrow> bool" where
  "pair_inv r1 r2 i1 i2 M = (\<lambda>(s, t) R. i1 M s (part1 R) \<and> i2 M t (part2 R) \<and> set (r1 s) \<inter> set (r2 t) = {})"

definition pair_admits :: "('k \<Rightarrow> nat \<Rightarrow> bool) \<Rightarrow> ('l \<Rightarrow> nat \<Rightarrow> bool) \<Rightarrow> 'k + 'l \<Rightarrow> nat \<Rightarrow> bool" where
  "pair_admits a1 a2 k n = (case k of Inl i \<Rightarrow> a1 i n | Inr j \<Rightarrow> a2 j n)"

definition pair_alloc ::
    "('k \<Rightarrow> nat \<Rightarrow> machine \<Rightarrow> 's \<Rightarrow> (addr \<times> machine \<times> 's) option) \<Rightarrow>
     ('l \<Rightarrow> nat \<Rightarrow> machine \<Rightarrow> 't \<Rightarrow> (addr \<times> machine \<times> 't) option) \<Rightarrow>
     'k + 'l \<Rightarrow> nat \<Rightarrow> machine \<Rightarrow> 's \<times> 't \<Rightarrow> (addr \<times> machine \<times> 's \<times> 't) option" where
  "pair_alloc al1 al2 k n M = (\<lambda>(s, t). case k of
       Inl i \<Rightarrow> map_option (\<lambda>(p, M', s'). (p, M', s', t)) (al1 i n M s)
     | Inr j \<Rightarrow> map_option (\<lambda>(p, M', t'). (p, M', s, t')) (al2 j n M t))"

definition pair_free ::
    "('k \<Rightarrow> addr \<Rightarrow> machine \<Rightarrow> 's \<Rightarrow> machine \<times> 's) \<Rightarrow> ('l \<Rightarrow> addr \<Rightarrow> machine \<Rightarrow> 't \<Rightarrow> machine \<times> 't) \<Rightarrow>
     'k + 'l \<Rightarrow> addr \<Rightarrow> machine \<Rightarrow> 's \<times> 't \<Rightarrow> machine \<times> 's \<times> 't" where
  "pair_free f1 f2 k p M = (\<lambda>(s, t). case k of
       Inl i \<Rightarrow> (case f1 i p M s of (M', s') \<Rightarrow> (M', s', t))
     | Inr j \<Rightarrow> (case f2 j p M t of (M', t') \<Rightarrow> (M', s, t')))"

definition pair_capacity ::
    "('k \<Rightarrow> machine \<Rightarrow> 's \<Rightarrow> addr \<Rightarrow> nat) \<Rightarrow> ('l \<Rightarrow> machine \<Rightarrow> 't \<Rightarrow> addr \<Rightarrow> nat) \<Rightarrow>
     'k + 'l \<Rightarrow> machine \<Rightarrow> 's \<times> 't \<Rightarrow> addr \<Rightarrow> nat" where
  "pair_capacity c1 c2 k M = (\<lambda>(s, t) p. case k of Inl i \<Rightarrow> c1 i M s p | Inr j \<Rightarrow> c2 j M t p)"

section \<open>Parts\<close>

lemma part_simps [simp]:
  "(k, e) \<in> part1 R \<longleftrightarrow> (Inl k, e) \<in> R" "(l, e) \<in> part2 R \<longleftrightarrow> (Inr l, e) \<in> R"
  "part1 (insert (Inl k, e) R) = insert (k, e) (part1 R)" "part1 (insert (Inr l, e) R) = part1 R"
  "part2 (insert (Inl k, e) R) = part2 R" "part2 (insert (Inr l, e) R) = insert (l, e) (part2 R)"
  "part1 (R - {(Inl k, e)}) = part1 R - {(k, e)}" "part1 (R - {(Inr l, e)}) = part1 R"
  "part2 (R - {(Inl k, e)}) = part2 R" "part2 (R - {(Inr l, e)}) = part2 R - {(l, e)}"
  "part1 {} = {}" "part2 {} = {}"
  by (auto simp: part1_def part2_def)

lemma snd_parts: "snd ` R = snd ` part1 R \<union> snd ` part2 R"
proof -
  have "e \<in> snd ` part1 R \<union> snd ` part2 R" if "(k, e) \<in> R" for k e
    using that by (cases k) (force simp: part1_def part2_def)+
  then show ?thesis by (force simp: part1_def part2_def)
qed

text \<open>A step of one tier is a step of the pair, in which the other tier's extents are safe too.\<close>

lemma tier_step_set: "set rs = set qs \<Longrightarrow> set rs' = set qs' \<Longrightarrow> tier_step E M rs M' rs' \<longleftrightarrow> tier_step E M qs M' qs'"
  by (simp add: tier_step_def)

lemma tier_step_beside:
  assumes "tier_step E M rs M' rs'" "machine_ok M" "machine_ok M'"
    "set rs \<subseteq> set (mapped M)" "set rs' \<subseteq> set (mapped M')" "set qs \<subseteq> set (mapped M)" "set qs \<inter> set rs = {}"
    "cells F \<subseteq> cells (set qs)"
  shows "tier_step (E \<union> F) M (rs @ qs) M' (rs' @ qs)"
proof -
  have "mem M' x = mem M x" if x: "x \<notin> cells (set (rs @ qs) \<union> set (rs' @ qs)) - cells (E \<union> F)" for x
  proof (cases "x \<in> cells F")
    case True
    then have "x \<in> cells (set (mapped M) - set rs)"
      using assms(6-8) cells_mono [of "set qs" "set (mapped M) - set rs"] by blast
    then show ?thesis by (rule tier_step_foreign [OF assms(1-5)])
  next
    case False
    then have "x \<notin> cells (set rs \<union> set rs') - cells E" using x by auto
    then show ?thesis by (rule tier_step_memD [OF assms(1)])
  qed
  moreover have "set (mapped M') - set (rs' @ qs) = set (mapped M) - set (rs @ qs)"
    using assms(1) by (auto simp: tier_step_def)
  ultimately show ?thesis by (simp add: tier_step_def)
qed

section \<open>The contract of the pair\<close>

locale tier_pair = a: tier r1 i1 ad1 al1 f1 c1 + b: tier r2 i2 ad2 al2 f2 c2
  for r1 :: "'s \<Rightarrow> region list" and i1 :: "machine \<Rightarrow> 's \<Rightarrow> ('k \<times> region) set \<Rightarrow> bool" and ad1 al1 f1 c1
    and r2 :: "'t \<Rightarrow> region list" and i2 :: "machine \<Rightarrow> 't \<Rightarrow> ('l \<times> region) set \<Rightarrow> bool" and ad2 al2 f2 c2
begin

abbreviation regs where "regs \<equiv> pair_regs r1 r2"
abbreviation inv where "inv \<equiv> pair_inv r1 r2 i1 i2"

lemma invD:
  assumes "inv M (s, t) R"
  shows "i1 M s (part1 R)" "i2 M t (part2 R)" "set (r1 s) \<inter> set (r2 t) = {}"
  using assms by (auto simp: pair_inv_def)

text \<open>One tier moves, the other stays.\<close>

lemma step1:
  assumes "inv M (s, t) R" "i1 M' s' Q" "tier_step E M (r1 s) M' (r1 s')"
  shows "i2 M' t (part2 R)" "set (r1 s') \<inter> set (r2 t) = {}"
    "tier_step (E \<union> snd ` part2 R) M (regs (s, t)) M' (regs (s', t))"
proof -
  note d = invD [OF assms(1)]
  note m = a.inv_machine [OF d(1)] b.inv_machine [OF d(2)] a.inv_machine [OF assms(2)]
  show "i2 M' t (part2 R)" "set (r1 s') \<inter> set (r2 t) = {}"
    using b.inv_foreign_step [OF d(2) assms(3)] m d(3) by blast+
  have "tier_step (E \<union> snd ` part2 R) M (r1 s @ r2 t) M' (r1 s' @ r2 t)"
    by (rule tier_step_beside [OF assms(3)]) (use m d a.outstanding_cells [OF d(1)] b.outstanding_cells [OF d(2)] in auto)
  then show "tier_step (E \<union> snd ` part2 R) M (regs (s, t)) M' (regs (s', t))" by (simp add: pair_regs_def)
qed

lemma step2:
  assumes "inv M (s, t) R" "i2 M' t' Q" "tier_step E M (r2 t) M' (r2 t')"
  shows "i1 M' s (part1 R)" "set (r1 s) \<inter> set (r2 t') = {}"
    "tier_step (snd ` part1 R \<union> E) M (regs (s, t)) M' (regs (s, t'))"
proof -
  note d = invD [OF assms(1)]
  note m = a.inv_machine [OF d(1)] b.inv_machine [OF d(2)] b.inv_machine [OF assms(2)]
  show "i1 M' s (part1 R)" "set (r1 s) \<inter> set (r2 t') = {}"
    using a.inv_foreign_step [OF d(1) assms(3)] m d(3) by blast+
  have "tier_step (E \<union> snd ` part1 R) M (r2 t @ r1 s) M' (r2 t' @ r1 s)"
    by (rule tier_step_beside [OF assms(3)]) (use m d a.outstanding_cells [OF d(1)] b.outstanding_cells [OF d(2)] in auto)
  then show "tier_step (snd ` part1 R \<union> E) M (regs (s, t)) M' (regs (s, t'))"
    using tier_step_set [of "r2 t @ r1 s" "regs (s, t)" "r2 t' @ r1 s" "regs (s, t')"]
    by (simp add: pair_regs_def Un_commute)
qed

lemma pair_apart:
  assumes "inv M (s, t) R" "(k, e) \<in> R" "(k', e') \<in> R" "(k, e) \<noteq> (k', e')"
  shows "apart e e'"
proof -
  note d = invD [OF assms(1)]
  have m: "machine_ok M" "set (r1 s) \<subseteq> set (mapped M)" "set (r2 t) \<subseteq> set (mapped M)"
    using a.inv_machine [OF d(1)] b.inv_machine [OF d(2)] by auto
  have across: "apart e e'" if h: "(i, e) \<in> part1 R" "(j, e') \<in> part2 R" for i j e e'
  proof -
    obtain r r' where r: "r \<in> set (r1 s)" "lies_in e r" "r' \<in> set (r2 t)" "lies_in e' r'"
      using a.inv_within [OF d(1) h(1)] b.inv_within [OF d(2) h(2)] by blast
    then have "apart r r'" using machine_ok_apart [OF m(1), of r r'] m(2,3) d(3) by blast
    then show ?thesis using r(2,4) by (auto simp: apart_def lies_in_def)
  qed
  show ?thesis
  proof (cases k)
    case (Inl i)
    show ?thesis
    proof (cases k')
      case i': (Inl i')
      then show ?thesis using a.inv_apart [OF d(1), of i e i' e'] assms(2-4) Inl by simp
    next
      case (Inr j)
      then show ?thesis using across [of i e j e'] assms(2,3) Inl by simp
    qed
  next
    case (Inr j)
    show ?thesis
    proof (cases k')
      case (Inl i)
      then show ?thesis using across [of i e' j e] assms(2,3) Inr apart_sym by simp
    next
      case j': (Inr j')
      then show ?thesis using b.inv_apart [OF d(2), of j e j' e'] assms(2-4) Inr by simp
    qed
  qed
qed

text \<open>An allocation by either side.\<close>

lemma alloc_cases:
  assumes "inv M (s, t) R" "pair_admits ad1 ad2 k n"
  obtains (left) i p M' s' where "k = Inl i" "ad1 i n" "al1 i n M s = Some (p, M', s')"
      "pair_alloc al1 al2 k n M (s, t) = Some (p, M', s', t)"
    | (right) j p M' t' where "k = Inr j" "ad2 j n" "al2 j n M t = Some (p, M', t')"
      "pair_alloc al1 al2 k n M (s, t) = Some (p, M', s, t')"
proof (cases k)
  case (Inl i)
  then have ad: "ad1 i n" using assms(2) by (simp add: pair_admits_def)
  then obtain p M' s' where "al1 i n M s = Some (p, M', s')"
    using a.alloc_returns [OF invD(1) [OF assms(1)]] by blast
  then show thesis using left Inl ad by (simp add: pair_alloc_def)
next
  case (Inr j)
  then have ad: "ad2 j n" using assms(2) by (simp add: pair_admits_def)
  then obtain p M' t' where "al2 j n M t = Some (p, M', t')"
    using b.alloc_returns [OF invD(2) [OF assms(1)]] by blast
  then show thesis using right Inr ad by (simp add: pair_alloc_def)
qed

lemma pair_alloc_ok:
  assumes "inv M (s, t) R" "pair_admits ad1 ad2 k n" "pair_alloc al1 al2 k n M (s, t) = Some (p, M', s', t')"
  defines "len \<equiv> pair_capacity c1 c2 k M' (s', t') p"
  shows "p = 0 \<Longrightarrow> inv M' (s', t') R"
    "p \<noteq> 0 \<Longrightarrow> n \<le> len \<and> 16 dvd p \<and> (k, p, len) \<notin> R \<and> inv M' (s', t') (insert (k, p, len) R)"
    "tier_step (snd ` R) M (regs (s, t)) M' (regs (s', t'))"
proof -
  note d = invD [OF assms(1)]
  have "(p = 0 \<longrightarrow> inv M' (s', t') R) \<and>
    (p \<noteq> 0 \<longrightarrow> n \<le> len \<and> 16 dvd p \<and> (k, p, len) \<notin> R \<and> inv M' (s', t') (insert (k, p, len) R)) \<and>
    tier_step (snd ` R) M (regs (s, t)) M' (regs (s', t'))"
    using assms(1,2)
  proof (cases rule: alloc_cases)
    case (left i q M1 s1)
    then have q: "q = p" "M1 = M'" "s1 = s'" "t' = t" and len: "len = c1 i M' s' p" using assms(3) by (auto simp: len_def pair_capacity_def)
    note al = left(3) [unfolded q] and st = a.alloc_step [OF d(1) left(2,3), unfolded q]
    have inv': "i1 M' s' (if p = 0 then part1 R else insert (i, p, len) (part1 R))"
      using a.alloc_null [OF d(1) left(2)] a.alloc_block [OF d(1) left(2) al] al len by auto
    note s1 = step1 [OF assms(1) inv' st]
    show ?thesis using a.alloc_block [OF d(1) left(2) al] inv' s1 q len left(1) snd_parts [of R]
      by (auto simp: pair_inv_def split: if_splits)
  next
    case (right j q M1 t1)
    then have q: "q = p" "M1 = M'" "t1 = t'" "s' = s" and len: "len = c2 j M' t' p" using assms(3) by (auto simp: len_def pair_capacity_def)
    note al = right(3) [unfolded q] and st = b.alloc_step [OF d(2) right(2,3), unfolded q]
    have inv': "i2 M' t' (if p = 0 then part2 R else insert (j, p, len) (part2 R))"
      using b.alloc_null [OF d(2) right(2)] b.alloc_block [OF d(2) right(2) al] al len by auto
    note s2 = step2 [OF assms(1) inv' st]
    show ?thesis using b.alloc_block [OF d(2) right(2) al] inv' s2 q len right(1) snd_parts [of R]
      by (auto simp: pair_inv_def split: if_splits)
  qed
  then show "p = 0 \<Longrightarrow> inv M' (s', t') R"
    "p \<noteq> 0 \<Longrightarrow> n \<le> len \<and> 16 dvd p \<and> (k, p, len) \<notin> R \<and> inv M' (s', t') (insert (k, p, len) R)"
    "tier_step (snd ` R) M (regs (s, t)) M' (regs (s', t'))" by blast+
qed

lemma pair_free_ok:
  assumes "inv M (s, t) R" "(k, p, len) \<in> R" "pair_free f1 f2 k p M (s, t) = (M', s', t')"
  shows "inv M' (s', t') (R - {(k, p, len)})"
    "tier_step (snd ` (R - {(k, p, len)})) M (regs (s, t)) M' (regs (s', t'))"
proof -
  note d = invD [OF assms(1)]
  have "inv M' (s', t') (R - {(k, p, len)}) \<and> tier_step (snd ` (R - {(k, p, len)})) M (regs (s, t)) M' (regs (s', t'))"
  proof (cases k)
    case (Inl i)
    have f: "f1 i p M s = (M', s')" "t' = t" using assms(3) Inl by (auto simp: pair_free_def split: prod.splits)
    have m: "(i, p, len) \<in> part1 R" using assms(2) Inl by simp
    note fb = a.free_block [OF d(1) m f(1)] and st = a.free_step [OF d(1) m f(1)]
    note s1 = step1 [OF assms(1) fb st]
    show ?thesis using fb s1 f(2) Inl snd_parts [of "R - {(k, p, len)}"] by (simp add: pair_inv_def)
  next
    case (Inr j)
    have f: "f2 j p M t = (M', t')" "s' = s" using assms(3) Inr by (auto simp: pair_free_def split: prod.splits)
    have m: "(j, p, len) \<in> part2 R" using assms(2) Inr by simp
    note fb = b.free_block [OF d(2) m f(1)] and st = b.free_step [OF d(2) m f(1)]
    note s2 = step2 [OF assms(1) fb st]
    show ?thesis using fb s2 f(2) Inr snd_parts [of "R - {(k, p, len)}"] by (simp add: pair_inv_def)
  qed
  then show "inv M' (s', t') (R - {(k, p, len)})"
    "tier_step (snd ` (R - {(k, p, len)})) M (regs (s, t)) M' (regs (s', t'))" by blast+
qed

lemma pair_frame:
  assumes "inv M (s, t) R" "machine_ok M'" "set (regs (s, t)) \<subseteq> set (mapped M')"
    "\<And>x. x \<in> cells (set (regs (s, t))) - cells (snd ` R) \<Longrightarrow> mem M' x = mem M x"
  shows "inv M' (s, t) R"
proof -
  note d = invD [OF assms(1)]
  have m: "machine_ok M" "set (r1 s) \<subseteq> set (mapped M)" "set (r2 t) \<subseteq> set (mapped M)"
    using a.inv_machine [OF d(1)] b.inv_machine [OF d(2)] by auto
  have disj: "cells (set (r1 s)) \<inter> cells (set (r2 t)) = {}"
    using machine_ok_apart [OF m(1)] m(2,3) d(3) by (fastforce simp: cells_iff)
  have cells: "cells (snd ` R) = cells (snd ` part1 R) \<union> cells (snd ` part2 R)" using snd_parts [of R] by simp
  have "i1 M' s (part1 R)"
    by (rule a.inv_frame [OF d(1) assms(2)])
      (use assms(3,4) b.outstanding_cells [OF d(2)] disj in \<open>auto simp: pair_regs_def cells\<close>)
  moreover have "i2 M' t (part2 R)"
    by (rule b.inv_frame [OF d(2) assms(2)])
      (use assms(3,4) a.outstanding_cells [OF d(1)] disj in \<open>auto simp: pair_regs_def cells\<close>)
  ultimately show ?thesis using d(3) by (simp add: pair_inv_def)
qed

end

sublocale tier_pair \<subseteq> pair: tier "pair_regs r1 r2" "pair_inv r1 r2 i1 i2" "pair_admits ad1 ad2" "pair_alloc al1 al2"
  "pair_free f1 f2" "pair_capacity c1 c2"
proof unfold_locales
  fix M s R assume inv: "pair_inv r1 r2 i1 i2 M s R"
  obtain s1 s2 where s: "s = (s1, s2)" by (cases s)
  note d = invD [OF inv [unfolded s]]
  show "machine_ok M \<and> set (pair_regs r1 r2 s) \<subseteq> set (mapped M)"
    using a.inv_machine [OF d(1)] b.inv_machine [OF d(2)] by (simp add: s pair_regs_def)
  show "\<exists>r \<in> set (pair_regs r1 r2 s). lies_in e r" if "(k, e) \<in> R" for k e
    using that a.inv_within [OF d(1), of _ e] b.inv_within [OF d(2), of _ e] by (cases k) (fastforce simp: s pair_regs_def)+
  show "apart e e'" if "(k, e) \<in> R" "(k', e') \<in> R" "(k, e) \<noteq> (k', e')" for k e k' e'
    using pair_apart [OF inv [unfolded s] that] .
  show "p + len \<le> 2 ^ 56" if "(k, p, len) \<in> R" for k p len
    using that a.inv_bounded [OF d(1)] b.inv_bounded [OF d(2)] by (cases k) auto
  show "pair_capacity c1 c2 k M s p = len" if "(k, p, len) \<in> R" for k p len
    using that a.capacity_outstanding [OF d(1)] b.capacity_outstanding [OF d(2)]
    by (cases k) (auto simp: s pair_capacity_def)
  fix k n assume k: "pair_admits ad1 ad2 k n"
  show "\<exists>p M' s'. pair_alloc al1 al2 k n M s = Some (p, M', s')"
    using inv [unfolded s] k by (cases rule: alloc_cases) (auto simp: s)
  fix p M' s' assume al: "pair_alloc al1 al2 k n M s = Some (p, M', s')"
  obtain t1 t2 where s': "s' = (t1, t2)" by (cases s')
  note ok = pair_alloc_ok [OF inv [unfolded s] k al [unfolded s s'], folded s s']
  show "tier_step (snd ` R) M (pair_regs r1 r2 s) M' (pair_regs r1 r2 s')" by (rule ok(3))
  show "n \<le> pair_capacity c1 c2 k M' s' p \<and> 16 dvd p \<and> (k, p, pair_capacity c1 c2 k M' s' p) \<notin> R \<and>
      pair_inv r1 r2 i1 i2 M' s' (insert (k, p, pair_capacity c1 c2 k M' s' p) R)" if "p \<noteq> 0"
    using ok(2) [OF that] .
next
  fix M s R k n M' s'
  assume h: "pair_inv r1 r2 i1 i2 M s R" "pair_admits ad1 ad2 k n" "pair_alloc al1 al2 k n M s = Some (0, M', s')"
  obtain s1 s2 t1 t2 where s: "s = (s1, s2)" "s' = (t1, t2)" by (cases s; cases s')
  show "pair_inv r1 r2 i1 i2 M' s' R" using pair_alloc_ok(1) [OF h [unfolded s]] by (simp add: s)
next
  fix M s R M'
  assume h: "pair_inv r1 r2 i1 i2 M s R" "machine_ok M'" "set (pair_regs r1 r2 s) \<subseteq> set (mapped M')"
    "\<And>x. x \<in> cells (set (pair_regs r1 r2 s)) - cells (snd ` R) \<Longrightarrow> mem M' x = mem M x"
  obtain s1 s2 where s: "s = (s1, s2)" by (cases s)
  show "pair_inv r1 r2 i1 i2 M' s R" using pair_frame [OF h [unfolded s]] by (simp add: s)
next
  fix M s R k p len M' s'
  assume h: "pair_inv r1 r2 i1 i2 M s R" "(k, p, len) \<in> R" "pair_free f1 f2 k p M s = (M', s')"
  obtain s1 s2 t1 t2 where s: "s = (s1, s2)" "s' = (t1, t2)" by (cases s; cases s')
  note ok = pair_free_ok [OF h(1) [unfolded s] h(2) h(3) [unfolded s]]
  show "pair_inv r1 r2 i1 i2 M' s' (R - {(k, p, len)})"
    "tier_step (snd ` (R - {(k, p, len)})) M (pair_regs r1 r2 s) M' (pair_regs r1 r2 s')"
    using ok by (simp_all add: s)
qed

end
