(* ===== verification/AllocatorTiers.thy ===== *)
theory AllocatorTiers
  imports AllocatorImpl TierPair SegmentTier
begin

text \<open>
  The three tiers of the allocator as one tier, and raw allocation on top of it: \<open>rawAllocate\<close> gives
  a fresh block with a valid header or reports exhaustion, \<open>rawDeallocate\<close> finds the tier from the
  header and takes the block back, and neither touches any other block or foreign memory.
\<close>

section \<open>The central tiers\<close>

type_synonym central = "(PoolAllocator \<times> tls) \<times> SegmentHeap \<times> LargeAllocator"
type_synonym key = "nat + unit + unit"

interpretation wide: tier_pair segments "seg_inv os" seg_admits "seg_alloc os" "seg_free os" seg_capacity
  large_regs "large_inv os" large_admits "large_alloc os" "large_free os" large_capacity for os
  by unfold_locales

abbreviation "wide_regs \<equiv> pair_regs segments large_regs"
abbreviation "wide_inv os \<equiv> pair_inv segments large_regs (seg_inv os) (large_inv os)"
abbreviation "wide_admits \<equiv> pair_admits seg_admits large_admits"
abbreviation "wide_alloc os \<equiv> pair_alloc (seg_alloc os) (large_alloc os)"
abbreviation "wide_free os \<equiv> pair_free (seg_free os) (large_free os)"
abbreviation "wide_capacity \<equiv> pair_capacity seg_capacity large_capacity"

interpretation central: tier_pair small_regs "small_inv os" pool_admits "small_alloc os en t ok" "small_free en t' ok'" small_capacity
  wide_regs "wide_inv os" wide_admits "wide_alloc os" "wide_free os" wide_capacity for os en t ok t' ok'
  by unfold_locales

definition central_regs :: "central \<Rightarrow> region list" where
  "central_regs = pair_regs small_regs wide_regs"

definition central_inv :: "os \<Rightarrow> machine \<Rightarrow> central \<Rightarrow> (key \<times> region) set \<Rightarrow> bool" where
  "central_inv os = pair_inv small_regs wide_regs (small_inv os) (wide_inv os)"

definition central_admits :: "key \<Rightarrow> nat \<Rightarrow> bool" where
  "central_admits = pair_admits pool_admits wide_admits"

definition central_alloc ::
    "os \<Rightarrow> bool \<Rightarrow> nat \<Rightarrow> bool \<Rightarrow> key \<Rightarrow> nat \<Rightarrow> machine \<Rightarrow> central \<Rightarrow> (addr \<times> machine \<times> central) option" where
  "central_alloc os en t ok = pair_alloc (small_alloc os en t ok) (wide_alloc os)"

definition central_free :: "os \<Rightarrow> bool \<Rightarrow> nat \<Rightarrow> bool \<Rightarrow> key \<Rightarrow> addr \<Rightarrow> machine \<Rightarrow> central \<Rightarrow> machine \<times> central" where
  "central_free os en t ok = pair_free (small_free en t ok) (wide_free os)"

definition central_capacity :: "key \<Rightarrow> machine \<Rightarrow> central \<Rightarrow> addr \<Rightarrow> nat" where
  "central_capacity = pair_capacity small_capacity wide_capacity"

interpretation tiers: tier central_regs "central_inv os" central_admits "central_alloc os en t ok"
  "central_free os en t' ok'" central_capacity for os en t ok t' ok'
  unfolding central_regs_def central_inv_def central_admits_def central_alloc_def central_free_def central_capacity_def
  by (rule central.pair.tier_axioms)

section \<open>The allocator's state\<close>

definition central_of :: "AllocatorImpl \<Rightarrow> central" where
  "central_of s = ((poolAllocator s, tlsCaches s), segmentHeap s, largeAllocator s)"

definition set_central :: "machine \<Rightarrow> central \<Rightarrow> AllocatorImpl \<Rightarrow> AllocatorImpl" where
  "set_central M = (\<lambda>((pools, tls), heap, large) s.
     s\<lparr>world := M, poolAllocator := pools, tlsCaches := tls, segmentHeap := heap, largeAllocator := large\<rparr>)"

abbreviation regs_of :: "AllocatorImpl \<Rightarrow> region list" where
  "regs_of s \<equiv> central_regs (central_of s)"

abbreviation tiers_ok :: "os \<Rightarrow> AllocatorImpl \<Rightarrow> (key \<times> region) set \<Rightarrow> bool" where
  "tiers_ok os s R \<equiv> central_inv os (world s) (central_of s) R"

text \<open>The fields raw allocation leaves alone.\<close>

definition same_rest :: "AllocatorImpl \<Rightarrow> AllocatorImpl \<Rightarrow> bool" where
  "same_rest s s' \<longleftrightarrow> config s' = config s \<and> stats s' = stats s \<and> debug s' = debug s \<and> events s' = events s"

lemma same_rest_refl [simp]: "same_rest s s"
  by (simp add: same_rest_def)

lemma central_of_set [simp]: "central_of (set_central M st s) = st" "world (set_central M st s) = M"
  by (cases st; auto simp: set_central_def central_of_def)+

lemma same_rest_set [simp]: "same_rest s (set_central M st s)"
  by (cases st) (auto simp: set_central_def same_rest_def)

lemma on_mem_simps [simp]:
  "central_of (on_mem f s) = central_of s" "mem (world (on_mem f s)) = f (mem (world s))"
  "mapped (world (on_mem f s)) = mapped (world s)" "same_rest s' (on_mem f s) \<longleftrightarrow> same_rest s' s"
  "config (on_mem f s) = config s" "stats (on_mem f s) = stats s" "debug (on_mem f s) = debug s" "events (on_mem f s) = events s"
  "poolAllocator (on_mem f s) = poolAllocator s" "tlsCaches (on_mem f s) = tlsCaches s"
  "segmentHeap (on_mem f s) = segmentHeap s" "largeAllocator (on_mem f s) = largeAllocator s"
  by (auto simp: on_mem_def central_of_def same_rest_def)

lemma tiers_write:
  assumes "tiers_ok os s R" "\<And>x. x \<notin> cells (snd ` R) \<Longrightarrow> f (mem (world s)) x = mem (world s) x"
  shows "tiers_ok os (on_mem f s) R"
  using tiers.inv_user_write [of os "world s" "central_of s" R "world (on_mem f s)"] assms by simp

text \<open>The header of an outstanding block can be read.\<close>

lemma byte_mapped_iff: "byte_mapped M x \<longleftrightarrow> x \<in> mapped_cells M"
  by (auto simp: byte_mapped_def list_ex_iff mapped_cells_def cells_iff)

lemma header_at_mapped:
  assumes "{p..<p + 16} \<subseteq> mapped_cells M"
  shows "header_at M (p + 16) = Some (load_header (mem M) p)"
  using assms by (auto simp: header_at_def headerOf_def const_simps list_all_iff byte_mapped_iff)

section \<open>Keys\<close>

text \<open>The tier that serves a raw request, what it reserves for it, and the tag in the header.\<close>

definition key_for :: "key \<Rightarrow> nat \<Rightarrow> bool" where
  "key_for k n = (case k of
       Inl i \<Rightarrow> n \<le> kSmallMax \<and> classIndex n = Some i
     | Inr (Inl _) \<Rightarrow> kSmallMax < n \<and> n \<le> kMediumMax
     | Inr (Inr _) \<Rightarrow> kMediumMax < n)"

definition reserved_of :: "key \<Rightarrow> nat \<Rightarrow> nat" where
  "reserved_of k len = (case k of Inl i \<Rightarrow> classSize i | Inr _ \<Rightarrow> len - 16)"

definition tier_of :: "key \<Rightarrow> Tier" where
  "tier_of k = (case k of Inl _ \<Rightarrow> Small | Inr (Inl _) \<Rightarrow> Medium | Inr (Inr _) \<Rightarrow> Large)"

lemma key_for_ex:
  assumes "n \<le> 2 ^ 59"
  obtains k where "key_for k n" "central_admits k (n + 16)"
proof (cases "n \<le> kSmallMax")
  case True
  then obtain i where i: "classIndex n = Some i" using classIndex_smallest by blast
  note b = classIndex_SomeD [OF True i]
  have "central_admits (Inl i) (n + 16)"
    using b blockStride_bounds(2) [OF b(1)] by (simp add: central_admits_def pair_admits_def pool_admits_def)
  then show thesis using that [of "Inl i"] True i by (simp add: key_for_def)
next
  case False
  show thesis
  proof (cases "n \<le> kMediumMax")
    case True
    then show thesis using that [of "Inr (Inl ())"] False
      by (simp add: key_for_def central_admits_def pair_admits_def seg_admits_def const_simps)
  next
    case large: False
    then show thesis using that [of "Inr (Inr ())"] False assms
      by (simp add: key_for_def central_admits_def pair_admits_def large_admits_def)
  qed
qed

lemma key_for_unique: "key_for k n \<Longrightarrow> key_for k' n \<Longrightarrow> k = k'"
  by (auto simp: key_for_def const_simps split: sum.splits)

section \<open>Raw allocation\<close>

text \<open>Each branch of \<open>rawAllocate\<close> is the allocation of the central tier under its key.\<close>

lemma set_central_fields:
  "s\<lparr>world := M, poolAllocator := pools, tlsCaches := tls\<rparr> = set_central M ((pools, tls), segmentHeap s, largeAllocator s) s"
  "s\<lparr>world := M, segmentHeap := heap\<rparr> = set_central M ((poolAllocator s, tlsCaches s), heap, largeAllocator s) s"
  "s\<lparr>world := M, largeAllocator := large\<rparr> = set_central M ((poolAllocator s, tlsCaches s), segmentHeap s, large) s"
  by (simp_all add: set_central_def)

lemma rawAllocate_central:
  assumes "key_for k n" "n \<le> 2 ^ 59"
    "central_alloc os (enableThreadCache (config s)) (thread c) (cacheRoom c) k (n + 16) (world s) (central_of s) = Some (p, M, st)"
  shows "rawAllocate os c n s =
    (let s1 = set_central M st s; s2 = on_mem (store_header p (fresh_header n (tier_of k))) s1
     in if p = 0 then Returns (Inl OutOfMemory) s1
        else Returns (Inr (p + 16, case k of Inl i \<Rightarrow> classSize i
                                   | Inr _ \<Rightarrow> size_sub (central_capacity k (world s2) st p) 16)) s2)"
proof -
  have add: "size_add n kHeaderSize = n + 16" using assms(2) by (simp add: const_simps)
  consider (small) i where "k = Inl i" | (medium) "k = Inr (Inl ())" | (large) "k = Inr (Inr ())"
    by (cases k; cases "projr k") auto
  then show ?thesis
  proof cases
    case (small i)
    then have k: "n \<le> kSmallMax" "classIndex n = Some i" using assms(1) by (simp_all add: key_for_def)
    obtain pools tls where a: "smallAllocate os (enableThreadCache (config s)) (thread c) (cacheRoom c) i (world s)
          (poolAllocator s, tlsCaches s) = Some (p, M, pools, tls)"
        "st = ((pools, tls), segmentHeap s, largeAllocator s)"
      using assms(3) small by (auto simp: central_alloc_def pair_alloc_def central_of_def small_alloc_def)
    show ?thesis using k a small
      by (simp add: rawAllocate_def set_central_fields Let_def tier_of_def userPointerOf_def const_simps headerOf_def)
  next
    case medium
    then have k: "\<not> n \<le> kSmallMax" "n \<le> kMediumMax" using assms(1) by (simp_all add: key_for_def)
    obtain heap where a: "SegmentHeap_allocate os (n + 16) (world s) (segmentHeap s) = Some (p, M, heap)"
        "st = ((poolAllocator s, tlsCaches s), heap, largeAllocator s)"
      using assms(3) medium by (auto simp: central_alloc_def pair_alloc_def central_of_def seg_alloc_def)
    show ?thesis using k a medium add
      by (simp add: rawAllocate_def set_central_fields Let_def tier_of_def userPointerOf_def headerOf_def
          central_capacity_def pair_capacity_def seg_capacity_def const_simps)
  next
    case large
    then have k: "\<not> n \<le> kSmallMax" "\<not> n \<le> kMediumMax" using assms(1) by (simp_all add: key_for_def const_simps)
    obtain la where a: "LargeAllocator_allocate os (n + 16) (world s) (largeAllocator s) = (p, M, la)"
        "st = ((poolAllocator s, tlsCaches s), segmentHeap s, la)"
      using assms(3) large by (auto simp: central_alloc_def pair_alloc_def central_of_def large_alloc_def split: prod.splits)
    show ?thesis using k a large add
      by (simp add: rawAllocate_def set_central_fields Let_def tier_of_def userPointerOf_def headerOf_def
          central_capacity_def pair_capacity_def large_capacity_def const_simps)
  qed
qed

text \<open>Writing inside a block nobody else owns keeps a step.\<close>

lemma step_write:
  assumes "tier_step E M rs (world s) (regs_of s)" "\<And>x. x \<notin> {p..<p + n} \<Longrightarrow> f (mem (world s)) x = mem (world s) x"
    "{p..<p + n} \<subseteq> cells (set (regs_of s))" "{p..<p + n} \<inter> cells E = {}"
  shows "tier_step E M rs (world (on_mem f s)) (regs_of (on_mem f s))"
proof -
  have "f (mem (world s)) x = mem M x" if x: "x \<notin> cells (set rs \<union> set (regs_of s)) - cells E" for x
  proof -
    have "x \<notin> {p..<p + n}" using x assms(3,4) by auto
    then show ?thesis using assms(2) tier_step_memD [OF assms(1) x] by simp
  qed
  then show ?thesis using assms(1) by (simp add: tier_step_def)
qed

lemma block_fresh:
  assumes "tiers_ok os s (insert (k, p, len) R)" "(k, p, len) \<notin> R"
  shows "{p..<p + len} \<subseteq> cells (set (regs_of s))" "{p..<p + len} \<inter> cells (snd ` R) = {}"
    "{p..<p + len} \<subseteq> mapped_cells (world s)"
proof -
  have m: "(k, p, len) \<in> insert (k, p, len) R" by simp
  show "{p..<p + len} \<subseteq> cells (set (regs_of s))"
    using tiers.outstanding_cells [OF assms(1)] by simp
  show "{p..<p + len} \<subseteq> mapped_cells (world s)" using tiers.outstanding_mapped [OF assms(1) m] .
  have "apart (p, len) e" if "(k', e) \<in> R" for k' e
    using tiers.inv_apart [OF assms(1) m, of k' e] that assms(2) by auto
  then show "{p..<p + len} \<inter> cells (snd ` R) = {}" by (fastforce elim: cells_sndE)
qed

lemma load_fresh_header: "n < 2 ^ 64 \<Longrightarrow> load_header (store_header p (fresh_header n (tier_of k)) m) p = fresh_header n (tier_of k)"
  by (cases "tier_of k") (simp_all add: fresh_header_def load_store_header const_simps)

lemma capacity_bound:
  assumes "central_admits k n"
  shows "central_capacity k M st p < size_max"
proof (cases k)
  case (Inl i)
  then have "i < kClassCount" using assms by (simp add: central_admits_def pair_admits_def pool_admits_def)
  then have "blockStride i < size_max" using blockStride_bounds(4) [of i] by (simp add: size_max_def)
  then show ?thesis using Inl by (simp add: central_capacity_def pair_capacity_def small_capacity_def split: prod.splits)
next
  case (Inr j)
  have "size_sub a b < size_max" "0 < size_max" for a b by (simp_all add: size_sub_def size_max_def)
  then show ?thesis using Inr
    by (auto simp: central_capacity_def pair_capacity_def seg_capacity_def large_capacity_def
        SegmentHeap_payloadCapacity_def LargeAllocator_payloadCapacity_def split: sum.splits prod.splits option.splits)
qed

lemma rawAllocate_ok:
  assumes "tiers_ok os s R" "n \<le> 2 ^ 59"
  obtains (oom) s' where "rawAllocate os c n s = Returns (Inl OutOfMemory) s'" "tiers_ok os s' R" "same_rest s s'"
      "tier_step (snd ` R) (world s) (regs_of s) (world s') (regs_of s')"
    | (block) k p len s' where "rawAllocate os c n s = Returns (Inr (p + 16, reserved_of k len)) s'"
      "tiers_ok os s' (insert (k, p, len) R)" "(k, p, len) \<notin> R" "key_for k n" "0 < p" "16 dvd p" "n + 16 \<le> len"
      "len < size_max" "load_header (mem (world s')) p = fresh_header n (tier_of k)" "same_rest s s'"
      "tier_step (snd ` R) (world s) (regs_of s) (world s') (regs_of s')"
proof -
  obtain k where k: "key_for k n" "central_admits k (n + 16)" using key_for_ex [OF assms(2)] .
  let ?al = "central_alloc os (enableThreadCache (config s)) (thread c) (cacheRoom c)"
  obtain p M st where a: "?al k (n + 16) (world s) (central_of s) = Some (p, M, st)"
    using tiers.alloc_returns [OF assms(1) k(2)] by blast
  note raw = rawAllocate_central [OF k(1) assms(2) a, unfolded Let_def]
  note step = tiers.alloc_step [OF assms(1) k(2) a]
  show thesis
  proof (cases "p = 0")
    case True
    then show thesis
      using oom [of "set_central M st s"] raw step tiers.alloc_null [OF assms(1) k(2)] a by simp
  next
    case False
    let ?len = "central_capacity k M st p" and ?s1 = "set_central M st s"
    let ?s2 = "on_mem (store_header p (fresh_header n (tier_of k))) ?s1"
    note blk = tiers.alloc_block [OF assms(1) k(2) a False]
    have inv1: "tiers_ok os ?s1 (insert (k, p, ?len) R)" using blk by simp
    note fresh = block_fresh [OF inv1]
    have hd: "{p..<p + 16} \<subseteq> {p..<p + ?len}" using blk by auto
    have out: "store_header p (fresh_header n (tier_of k)) m x = m x" if "x \<notin> {p..<p + 16}" for m x
      using that by (intro store_header_out) auto
    have inv2: "tiers_ok os ?s2 (insert (k, p, ?len) R)"
      by (rule tiers_write [OF inv1]) (use out hd in auto)
    have step2: "tier_step (snd ` R) (world s) (regs_of s) (world ?s2) (regs_of ?s2)"
    proof (rule step_write [where p = p and n = 16])
      show "{p..<p + 16} \<subseteq> cells (set (regs_of ?s1))" "{p..<p + 16} \<inter> cells (snd ` R) = {}"
        using fresh(1,2) hd blk by blast+
    qed (use step out in auto)
    have cap: "central_capacity k (world ?s2) st p = ?len"
      using tiers.capacity_outstanding [OF inv2, of k p ?len] by simp
    have res: "(case k of Inl i \<Rightarrow> classSize i | Inr _ \<Rightarrow> size_sub ?len 16) = reserved_of k ?len \<and> ?len < size_max"
      using capacity_bound [OF k(2), of M st p] blk by (auto simp: reserved_of_def split: sum.split)
    have "n < 2 ^ 64" using assms(2) by simp
    then have hdr: "load_header (mem (world ?s2)) p = fresh_header n (tier_of k)" by (simp add: load_fresh_header)
    have run: "rawAllocate os c n s = Returns (Inr (p + 16, reserved_of k ?len)) ?s2"
      using raw [unfolded cap] False res by simp
    show thesis by (rule block [OF run _ _ k(1) _ _ _ _ hdr]) (use inv2 step2 res blk False in simp_all)
  qed
qed

section \<open>Raw release\<close>

lemma write_step:
  assumes "tier_step E (world (on_mem f s)) (regs_of s) M' rs'" "\<And>x. x \<notin> {p..<p + n} \<Longrightarrow> f (mem (world s)) x = mem (world s) x"
    "{p..<p + n} \<subseteq> cells (set (regs_of s))" "{p..<p + n} \<inter> cells E = {}"
  shows "tier_step E (world s) (regs_of s) M' rs'"
proof -
  have "mem M' x = mem (world s) x" if x: "x \<notin> cells (set (regs_of s) \<union> set rs') - cells E" for x
  proof -
    have "x \<notin> {p..<p + n}" using x assms(3,4) by auto
    then show ?thesis using assms(2) tier_step_memD [OF assms(1) x] by simp
  qed
  then show ?thesis using assms(1) by (simp add: tier_step_def)
qed

lemma block_outstanding:
  assumes "tiers_ok os s R" "(k, p, len) \<in> R"
  shows "{p..<p + len} \<subseteq> cells (set (regs_of s))" "{p..<p + len} \<inter> cells (snd ` (R - {(k, p, len)})) = {}"
    "{p..<p + len} \<subseteq> mapped_cells (world s)" "{p..<p + len} \<subseteq> cells (snd ` R)"
proof -
  have "insert (k, p, len) (R - {(k, p, len)}) = R" using assms(2) by auto
  then show "{p..<p + len} \<subseteq> cells (set (regs_of s))" "{p..<p + len} \<inter> cells (snd ` (R - {(k, p, len)})) = {}"
    "{p..<p + len} \<subseteq> mapped_cells (world s)"
    using block_fresh [of os s k p len "R - {(k, p, len)}"] assms(1) by simp_all
  have "(p, len) \<in> snd ` R" using assms(2) by force
  then show "{p..<p + len} \<subseteq> cells (snd ` R)" by (rule range_sub_cells)
qed

text \<open>The state a raw release works on, after the state field of the header is written.\<close>

definition marked :: "key \<Rightarrow> addr \<Rightarrow> AllocatorImpl \<Rightarrow> AllocatorImpl" where
  "marked k p s = (if tier_of k = Large then s else on_mem (store_state p kStateFreed) s)"

lemma rawDeallocate_central:
  assumes "tiers_ok os s R" "(k, p, len) \<in> R" "16 \<le> len" "load_header (mem (world s)) p = h"
    "BlockHeader.tier h = tier_code (tier_of k)" "key_for k (payloadSize h)" "tiers_ok os (marked k p s) R"
    "central_free os (enableThreadCache (config s)) (thread c) (cacheRoom c) k p (world (marked k p s)) (central_of s) = (M, st)"
  shows "rawDeallocate os c (p + 16) s = Returns (Inr (case k of Inl i \<Rightarrow> classSize i
      | Inr _ \<Rightarrow> size_sub (central_capacity k (world (marked k p s)) (central_of s) p) 16)) (set_central M st (marked k p s))"
proof -
  have "{p..<p + 16} \<subseteq> {p..<p + len}" using assms(3) by auto
  then have "header_at (world s) (p + 16) = Some h"
    using block_outstanding(3) [OF assms(1,2)] assms(4) header_at_mapped by blast
  moreover have "tierValue h = Some (tier_of k)" using assms(5) by (rule tierValue_code)
  ultimately have hd: "header_at (world s) (p + 16) = Some h" "tierValue h = Some (tier_of k)" "headerOf (p + 16) = p"
    by (simp_all add: headerOf_def const_simps)
  consider (small) i where "k = Inl i" | (medium) "k = Inr (Inl ())" | (large) "k = Inr (Inr ())"
    by (cases k; cases "projr k") auto
  then show ?thesis
  proof cases
    case (small i)
    let ?s = "on_mem (store_state p kStateFreed) s"
    have mk: "marked k p s = ?s" using small by (simp add: marked_def tier_of_def)
    have idx: "classIndex (payloadSize h) = Some i" using assms(6) small by (simp add: key_for_def)
    have inv: "small_inv os (world ?s) (poolAllocator s, tlsCaches s) (part1 R)"
      using assms(7) mk by (simp add: central_inv_def pair_inv_def central_of_def)
    have "(i, p, len) \<in> part1 R" using assms(2) small by simp
    from smallFree_inv [OF inv this, of "enableThreadCache (config s)" "thread c" "cacheRoom c"]
    obtain M' pools tls where f: "smallFree (enableThreadCache (config s)) (thread c) (cacheRoom c) i p (world ?s)
        (poolAllocator s, tlsCaches s) = Some (M', pools, tls)" by blast
    then have "M = M'" "st = ((pools, tls), segmentHeap s, largeAllocator s)"
      using assms(8) mk small by (auto simp: central_free_def pair_free_def central_of_def small_free_def)
    then show ?thesis using hd idx f small mk
      by (simp add: rawDeallocate_def tier_of_def set_central_fields)
  next
    case medium
    let ?s = "on_mem (store_state p kStateFreed) s"
    have mk: "marked k p s = ?s" using medium by (simp add: marked_def tier_of_def)
    obtain heap where f: "SegmentHeap_deallocate os p (world ?s) (segmentHeap s) = (M, heap)"
        "st = ((poolAllocator s, tlsCaches s), heap, largeAllocator s)"
      using assms(8) mk medium by (auto simp: central_free_def pair_free_def central_of_def seg_free_def split: prod.splits)
    then show ?thesis using hd medium mk
      by (simp add: rawDeallocate_def tier_of_def set_central_fields central_capacity_def pair_capacity_def
          seg_capacity_def central_of_def const_simps)
  next
    case large
    have mk: "marked k p s = s" using large by (simp add: marked_def tier_of_def)
    have inv: "large_inv os (world s) (largeAllocator s) (part2 (part2 R))"
      using assms(1) by (simp add: central_inv_def pair_inv_def central_of_def)
    have "((), p, len) \<in> part2 (part2 R)" using assms(2) large by simp
    then obtain r where "map_of (largeAllocator s) p = Some r" using map_of_large [OF inv, of p len] by blast
    then obtain M' la where f: "LargeAllocator_deallocate os p (world s) (largeAllocator s) = (True, M', la)"
      by (simp add: LargeAllocator_deallocate_def)
    then have "M = M'" "st = ((poolAllocator s, tlsCaches s), segmentHeap s, la)"
      using assms(8) mk large by (auto simp: central_free_def pair_free_def central_of_def large_free_def)
    then show ?thesis using hd large mk f
      by (simp add: rawDeallocate_def tier_of_def set_central_fields central_capacity_def pair_capacity_def
          large_capacity_def central_of_def const_simps)
  qed
qed

lemma rawDeallocate_ok:
  assumes "tiers_ok os s R" "(k, p, len) \<in> R" "16 \<le> len" "len < size_max"
    "BlockHeader.tier (load_header (mem (world s)) p) = tier_code (tier_of k)" "key_for k (payloadSize (load_header (mem (world s)) p))"
  obtains s' where "rawDeallocate os c (p + 16) s = Returns (Inr (reserved_of k len)) s'"
    "tiers_ok os s' (R - {(k, p, len)})" "same_rest s s'"
    "tier_step (snd ` (R - {(k, p, len)})) (world s) (regs_of s) (world s') (regs_of s')"
proof -
  let ?s = "marked k p s"
  note out = block_outstanding [OF assms(1,2)]
  have st: "store_state p kStateFreed m x = m x" if "x \<notin> {p..<p + len}" for m x
    using that assms(3) by (intro store_state_out) auto
  have eq: "central_of ?s = central_of s" "same_rest s ?s" by (simp_all add: marked_def)
  have inv1: "tiers_ok os ?s R"
  proof (cases "tier_of k = Large")
    case False
    have "tiers_ok os (on_mem (store_state p kStateFreed) s) R"
      by (rule tiers_write [OF assms(1)]) (use out(4) st in blast)
    then show ?thesis using False by (simp add: marked_def)
  qed (use assms(1) in \<open>simp add: marked_def\<close>)
  obtain M t where f: "central_free os (enableThreadCache (config s)) (thread c) (cacheRoom c) k p (world ?s) (central_of s) = (M, t)"
    by (meson surj_pair)
  have inv1': "central_inv os (world ?s) (central_of s) R" using inv1 eq(1) by simp
  note run = rawDeallocate_central [OF assms(1-3) refl assms(5,6) inv1 f]
  have cap: "central_capacity k (world ?s) (central_of s) p = len"
    using tiers.capacity_outstanding [OF inv1' assms(2)] .
  have step: "tier_step (snd ` (R - {(k, p, len)})) (world ?s) (regs_of s) M (central_regs t)"
    using tiers.free_step [OF inv1' assms(2) f] .
  have step': "tier_step (snd ` (R - {(k, p, len)})) (world s) (regs_of s) M (central_regs t)"
  proof (cases "tier_of k = Large")
    case False
    then show ?thesis using step st out(1,2)
      by (intro write_step [where p = p and n = len and f = "store_state p kStateFreed"]) (simp_all add: marked_def)
  qed (use step in \<open>simp add: marked_def\<close>)
  have "rawDeallocate os c (p + 16) s = Returns (Inr (reserved_of k len)) (set_central M t ?s)"
    using run [unfolded cap] assms(3,4) by (auto simp: reserved_of_def split: sum.splits)
  moreover have "same_rest s (set_central M t ?s)" using eq(2) same_rest_set [of ?s M t] by (auto simp: same_rest_def)
  ultimately show thesis using that [of "set_central M t ?s"] tiers.free_block [OF inv1' assms(2) f] step' by simp
qed

end
