(* ===== verification/AllocatorInvariant.thy ===== *)
theory AllocatorInvariant
  imports AllocatorTiers
begin

text \<open>
  The invariant of the whole allocator.  Its ghost is the set of live allocations: for each, the
  block of a tier that carries it, the pointer and size the user sees, and how the one sits in the
  other (plainly, between guards, or shifted for alignment).  The invariant ties the tiers, the
  headers in memory, the counters and the registry to that set; every operation keeps it.
\<close>

section \<open>Live allocations\<close>

datatype kind = Plain | Guarded | Aligned

record obj =
  o_key :: key
  o_start :: addr
  o_cap :: nat
  o_req :: nat
  o_user :: addr
  o_size :: nat
  o_kind :: kind

definition block_of :: "obj \<Rightarrow> key \<times> region" where
  "block_of ob = (o_key ob, o_start ob, o_cap ob)"

definition payload_of :: "obj \<Rightarrow> region" where
  "payload_of ob = (o_user ob, o_size ob)"

definition obj_wf :: "obj \<Rightarrow> bool" where
  "obj_wf ob \<longleftrightarrow> key_for (o_key ob) (o_req ob) \<and> o_req ob + 16 \<le> o_cap ob \<and> o_cap ob < size_max \<and>
     0 < o_start ob \<and> 16 dvd o_start ob \<and> 0 < o_size ob \<and> o_size ob \<le> kMaxRequest \<and>
     (case o_kind ob of
        Plain \<Rightarrow> o_user ob = o_start ob + 16 \<and> o_req ob = o_size ob
      | Guarded \<Rightarrow> o_user ob = o_start ob + 48 \<and> o_req ob = o_size ob + 64
      | Aligned \<Rightarrow> o_start ob + 32 \<le> o_user ob \<and> o_user ob - (o_start ob + 16) < 2 ^ 32 \<and> 16 dvd o_user ob \<and>
          o_user ob + o_size ob \<le> o_start ob + 16 + o_req ob)"

fun shim_tier :: "kind \<Rightarrow> Tier" where
  "shim_tier Guarded = DebugShim"
| "shim_tier _ = AlignedShim"

definition shim_header :: "obj \<Rightarrow> BlockHeader" where
  "shim_header ob = \<lparr>payloadSize = o_size ob, tier = tier_code (shim_tier (o_kind ob)), state = kStateAllocated,
     offset = o_user ob - (o_start ob + 16)\<rparr>"

definition user_header :: "obj \<Rightarrow> BlockHeader" where
  "user_header ob = (if o_kind ob = Plain then fresh_header (o_req ob) (tier_of (o_key ob)) else shim_header ob)"

definition obj_hdr :: "memory \<Rightarrow> obj \<Rightarrow> bool" where
  "obj_hdr m ob \<longleftrightarrow> load_header m (o_start ob) = fresh_header (o_req ob) (tier_of (o_key ob)) \<and>
     load_header m (o_user ob - 16) = user_header ob"

definition counters_ok :: "StatisticsCollector \<Rightarrow> obj set \<Rightarrow> bool" where
  "counters_ok st L \<longleftrightarrow> st ActiveAllocations = of_nat (card L) \<and>
     st LiveRequested = (\<Sum>ob \<in> L. to_size (o_size ob)) \<and>
     st LiveReserved = (\<Sum>ob \<in> L. to_size (reserved_of (o_key ob) (o_cap ob))) \<and>
     st AllocationCount = st FreeCount + of_nat (card L) \<and>
     st AllocatedBytes = st FreedBytes + (\<Sum>ob \<in> L. to_size (o_size ob))"

text \<open>\<open>full\<close>: the host heap has never refused an entry of the registry.\<close>

definition registered :: "bool \<Rightarrow> AllocatorImpl \<Rightarrow> obj set \<Rightarrow> bool" where
  "registered full s L \<longleftrightarrow> registry_ok (debug s) \<and>
     (enableLeakTracking (config s) \<longrightarrow>
        (\<forall>p n. map_of (live (debug s)) p = Some n \<longrightarrow> (\<exists>ob \<in> L. o_user ob = p \<and> o_size ob = n)) \<and>
        (full \<longrightarrow> (\<forall>ob \<in> L. isTracked (o_user ob) (debug s))))"

definition impl_inv :: "bool \<Rightarrow> os \<Rightarrow> AllocatorImpl \<Rightarrow> obj set \<Rightarrow> bool" where
  "impl_inv full os s L \<longleftrightarrow> finite L \<and> inj_on block_of L \<and> tiers_ok os s (block_of ` L) \<and>
     (\<forall>ob \<in> L. obj_wf ob \<and> obj_hdr (mem (world s)) ob) \<and> counters_ok (stats s) L \<and> registered full s L"

lemma impl_invD:
  assumes "impl_inv full os s L"
  shows "finite L" "inj_on block_of L" "tiers_ok os s (block_of ` L)" "ob \<in> L \<Longrightarrow> obj_wf ob"
    "ob \<in> L \<Longrightarrow> obj_hdr (mem (world s)) ob" "counters_ok (stats s) L" "registered full s L"
  using assms by (auto simp: impl_inv_def)

section \<open>Geometry\<close>

text \<open>Where the parts of an allocation lie in its block.\<close>

lemma obj_wfD:
  assumes "obj_wf ob"
  shows "key_for (o_key ob) (o_req ob)" "o_req ob + 16 \<le> o_cap ob" "o_cap ob < size_max" "16 \<le> o_cap ob"
    "0 < o_start ob" "16 dvd o_start ob" "0 < o_size ob" "o_size ob \<le> kMaxRequest"
    "o_start ob + 16 \<le> o_user ob" "o_user ob + o_size ob \<le> o_start ob + o_cap ob" "16 dvd o_user ob"
    "o_kind ob \<noteq> Plain \<Longrightarrow> o_start ob + 32 \<le> o_user ob" "o_kind ob = Plain \<Longrightarrow> o_user ob = o_start ob + 16 \<and> o_req ob = o_size ob"
    "o_user ob - (o_start ob + 16) < 2 ^ 32"
proof -
  have d: "16 dvd o_start ob" using assms by (simp add: obj_wf_def)
  have "16 dvd (o_start ob + 16)" "16 dvd (o_start ob + 48)" using d by (auto simp: dvd_add_left_iff)
  then show "key_for (o_key ob) (o_req ob)" "o_req ob + 16 \<le> o_cap ob" "o_cap ob < size_max" "16 \<le> o_cap ob"
    "0 < o_start ob" "16 dvd o_start ob" "0 < o_size ob" "o_size ob \<le> kMaxRequest"
    "o_start ob + 16 \<le> o_user ob" "o_user ob + o_size ob \<le> o_start ob + o_cap ob" "16 dvd o_user ob"
    "o_kind ob \<noteq> Plain \<Longrightarrow> o_start ob + 32 \<le> o_user ob" "o_kind ob = Plain \<Longrightarrow> o_user ob = o_start ob + 16 \<and> o_req ob = o_size ob"
    "o_user ob - (o_start ob + 16) < 2 ^ 32"
    using assms by (auto simp: obj_wf_def split: kind.splits)
qed

lemma block_mem: "ob \<in> L \<Longrightarrow> (o_key ob, o_start ob, o_cap ob) \<in> block_of ` L"
  by (force simp: block_of_def)

lemma payload_sub_block: "obj_wf ob \<Longrightarrow> {o_user ob..<o_user ob + o_size ob} \<subseteq> {o_start ob..<o_start ob + o_cap ob}"
  using obj_wfD(9,10) by fastforce

lemma blocks_apart:
  assumes "impl_inv full os s L" "ob \<in> L" "ob' \<in> L" "ob \<noteq> ob'"
  shows "apart (o_start ob, o_cap ob) (o_start ob', o_cap ob')"
proof -
  note inv = impl_invD [OF assms(1)]
  have "block_of ob \<noteq> block_of ob'" using inj_onD [OF inv(2)] assms(2-4) by blast
  then show ?thesis using tiers.inv_apart [OF inv(3) block_mem [OF assms(2)] block_mem [OF assms(3)]] by (simp add: block_of_def)
qed

lemma payloads_apart:
  assumes "impl_inv full os s L" "ob \<in> L" "ob' \<in> L" "ob \<noteq> ob'"
  shows "apart (payload_of ob) (payload_of ob')" "o_user ob \<noteq> o_user ob'"
proof -
  note w = obj_wfD [OF impl_invD(4) [OF assms(1,2)]] obj_wfD [OF impl_invD(4) [OF assms(1,3)]]
  show "apart (payload_of ob) (payload_of ob')" "o_user ob \<noteq> o_user ob'"
    using blocks_apart [OF assms] w by (auto simp: payload_of_def)
qed

text \<open>The cells of payloads are cells of blocks, apart from every header.\<close>

lemma payload_cells:
  assumes "\<forall>ob \<in> L. obj_wf ob"
  shows "cells (payload_of ` L) \<subseteq> cells (snd ` block_of ` L)"
proof
  fix x assume "x \<in> cells (payload_of ` L)"
  then obtain ob where ob: "ob \<in> L" "o_user ob \<le> x" "x < o_user ob + o_size ob"
    by (auto simp: cells_iff payload_of_def)
  then show "x \<in> cells (snd ` block_of ` L)"
    using payload_sub_block [of ob] assms by (intro cellsI [of "o_start ob" "o_cap ob"]) (force simp: block_of_def)+
qed

lemma header_cells:
  assumes "obj_wf ob" "h = o_start ob \<or> h = o_user ob - 16" "h \<le> x" "x < h + 16"
  shows "o_start ob \<le> x" "x < o_start ob + o_cap ob" "x < o_user ob"
  using obj_wfD [OF assms(1)] assms(2-4) by auto

lemma obj_hdr_cong_headers:
  assumes "obj_hdr m ob" "\<And>x. x \<in> {o_start ob..<o_start ob + 16} \<union> {o_user ob - 16..<o_user ob - 16 + 16} \<Longrightarrow> m' x = m x"
  shows "obj_hdr m' ob"
proof -
  have "load_header m' h = load_header m h" if h: "h = o_start ob \<or> h = o_user ob - 16" for h
    by (rule load_header_cong) (use assms(2) h in auto)
  then show ?thesis using assms(1) by (simp add: obj_hdr_def)
qed

lemma obj_hdr_cong:
  assumes "obj_hdr m ob" "obj_wf ob" "\<And>x. o_start ob \<le> x \<Longrightarrow> x < o_start ob + o_cap ob \<Longrightarrow> x < o_user ob \<Longrightarrow> m' x = m x"
  shows "obj_hdr m' ob"
  by (rule obj_hdr_cong_headers [OF assms(1)]) (use assms(3) obj_wfD(4,7,9,10) [OF assms(2)] in auto)

text \<open>A step that leaves the blocks of \<open>L\<close> alone keeps their headers.\<close>

lemma step_keeps_hdr:
  assumes "tier_step (snd ` block_of ` L) (world s) rs (world s') rs'" "ob \<in> L" "obj_wf ob" "obj_hdr (mem (world s)) ob"
  shows "obj_hdr (mem (world s')) ob"
proof (rule obj_hdr_cong [OF assms(4,3)])
  fix x assume "o_start ob \<le> x" "x < o_start ob + o_cap ob"
  then have "x \<in> cells (snd ` block_of ` L)" using assms(2)
    by (intro cellsI [of "o_start ob" "o_cap ob"]) (force simp: block_of_def)+
  then show "mem (world s') x = mem (world s) x" using tier_step_memD [OF assms(1)] by blast
qed

text \<open>The user may write into the payloads; an overrun that stays within the guards does no harm.\<close>

definition reachable_bytes :: "obj \<Rightarrow> addr set" where
  "reachable_bytes ob = {o_user ob..<o_user ob + o_size ob} \<union>
     (if o_kind ob = Guarded then guard_bytes (o_user ob) (o_size ob) else {})"

lemma reachable_bytes_out:
  assumes "obj_wf ob" "x \<in> reachable_bytes ob"
  shows "o_start ob \<le> x" "x < o_start ob + o_cap ob" "x \<notin> {o_start ob..<o_start ob + 16}" "x \<notin> {o_user ob - 16..<o_user ob - 16 + 16}"
  using assms(2) obj_wfD(9,10) [OF assms(1)] assms(1)
  by (auto simp: reachable_bytes_def guard_bytes_def obj_wf_def const_simps split: if_splits)

lemma impl_scribble:
  assumes "impl_inv full os s L" "\<And>x. x \<notin> (\<Union>ob \<in> L. reachable_bytes ob) \<Longrightarrow> f (mem (world s)) x = mem (world s) x"
  shows "impl_inv full os (on_mem f s) L"
proof -
  note inv = impl_invD [OF assms(1)]
  have blk: "x \<in> cells (snd ` block_of ` L)" if "ob \<in> L" "x \<in> reachable_bytes ob" for ob x
    using reachable_bytes_out [OF inv(4) [OF that(1)] that(2)] that(1)
    by (intro cellsI [of "o_start ob" "o_cap ob"]) (force simp: block_of_def)+
  have "tiers_ok os (on_mem f s) (block_of ` L)"
    by (rule tiers_write [OF inv(3)]) (use assms(2) blk in blast)
  moreover have "obj_hdr (f (mem (world s))) ob" if ob: "ob \<in> L" for ob
  proof (rule obj_hdr_cong_headers [OF inv(5) [OF ob]])
    fix x assume x: "x \<in> {o_start ob..<o_start ob + 16} \<union> {o_user ob - 16..<o_user ob - 16 + 16}"
    then have in': "o_start ob \<le> x" "x < o_start ob + o_cap ob"
      using header_cells [OF inv(4) [OF ob], of "o_start ob" x] header_cells [OF inv(4) [OF ob], of "o_user ob - 16" x] by auto
    have "x \<notin> (\<Union>ob \<in> L. reachable_bytes ob)"
    proof
      assume "x \<in> (\<Union>ob \<in> L. reachable_bytes ob)"
      then obtain ob' where ob': "ob' \<in> L" "x \<in> reachable_bytes ob'" by blast
      note o' = reachable_bytes_out [OF inv(4) [OF ob'(1)] ob'(2)]
      then have "ob' \<noteq> ob" using x by blast
      then show False using blocks_apart [OF assms(1) ob ob'(1)] o'(1,2) in' by auto
    qed
    then show "f (mem (world s)) x = mem (world s) x" by (rule assms(2))
  qed
  ultimately show ?thesis using inv by (auto simp: impl_inv_def registered_def)
qed

lemma impl_user_write:
  assumes "impl_inv full os s L" "\<And>x. x \<notin> cells (payload_of ` L) \<Longrightarrow> f (mem (world s)) x = mem (world s) x"
  shows "impl_inv full os (on_mem f s) L"
proof (rule impl_scribble [OF assms(1)])
  fix x assume "x \<notin> (\<Union>ob \<in> L. reachable_bytes ob)"
  then have "x \<notin> cells (payload_of ` L)" by (auto simp: cells_iff payload_of_def reachable_bytes_def)
  then show "f (mem (world s)) x = mem (world s) x" by (rule assms(2))
qed

end
