(* ===== verification/AllocatorOps.thy ===== *)
theory AllocatorOps
  imports AllocatorInvariant
begin

text \<open>
  Every operation of the allocator against the invariant: what it comes to on each branch, the
  live allocations after it, and the memory it leaves alone.
\<close>

section \<open>Counters, registry and errors\<close>

lemma counters_add:
  assumes "counters_ok st L" "finite L" "ob \<notin> L"
  shows "counters_ok (recordAllocation (to_size (o_size ob)) (to_size (reserved_of (o_key ob) (o_cap ob))) st) (insert ob L)"
  using assms by (simp add: counters_ok_def recordAllocation_def counter_simps Let_def ac_simps)

lemma counters_remove:
  assumes "counters_ok st L" "finite L" "ob \<in> L"
  shows "counters_ok (recordFree (to_size (o_size ob)) (to_size (reserved_of (o_key ob) (o_cap ob))) st) (L - {ob})"
proof -
  obtain c where c: "card L = Suc c" using assms(2,3) by (metis card_Suc_Diff1)
  show ?thesis using assms c
    by (simp add: counters_ok_def recordFree_def counter_simps Let_def sum_diff1 card_Diff_singleton)
qed

lemma registered_cong:
  "debug s' = debug s \<Longrightarrow> config s' = config s \<Longrightarrow> registered full s' L \<longleftrightarrow> registered full s L"
  by (simp add: registered_def)

lemma registered_add:
  assumes "registered full s L" "config s' = config s" "full \<Longrightarrow> ok"
    "debug s' = (if enableLeakTracking (config s) then track ok (o_user ob) (o_size ob) (debug s) else debug s)"
    "\<And>ob'. ob' \<in> L \<Longrightarrow> o_user ob' \<noteq> o_user ob"
  shows "registered full s' (insert ob L)"
  using assms by (auto simp: registered_def registry_track live_track isTracked_map_of split: if_splits)

lemma registered_remove:
  assumes "registered full s L" "config s' = config s" "ob \<in> L"
    "debug s' = (if enableLeakTracking (config s) then snd (untrack ok (o_user ob) (debug s)) else debug s)"
    "\<And>ob'. ob' \<in> L \<Longrightarrow> ob' \<noteq> ob \<Longrightarrow> o_user ob' \<noteq> o_user ob"
  shows "registered full s' (L - {ob})"
  using assms by (auto simp: registered_def registry_untrack live_untrack isTracked_map_of split: if_splits) blast+

lemma impl_inv_events [simp]: "impl_inv full os (s\<lparr>events := e\<rparr>) L \<longleftrightarrow> impl_inv full os s L"
  by (simp add: impl_inv_def central_of_def registered_def)

definition error_event :: "AllocatorImpl \<Rightarrow> Error \<Rightarrow> addr \<Rightarrow> event" where
  "error_event s e p = (if errorHandler (config s) then HandlerCalled e p else Printed (toString e) p)"

lemma report_eq: "report e p s =
    (if abortOnError (config s) then Aborts (s\<lparr>events := events s @ [error_event s e p]\<rparr>)
     else Returns () (s\<lparr>events := events s @ [error_event s e p]\<rparr>))"
  by (simp add: report_def error_event_def)

lemma fail_with_eq: "fail_with e p s =
    (if abortOnError (config s) then Aborts (s\<lparr>events := events s @ [error_event s e p]\<rparr>)
     else Returns (Inl e) (s\<lparr>events := events s @ [error_event s e p]\<rparr>))"
  by (simp add: fail_with_def report_eq)

section \<open>Allocation\<close>

lemma finish_cases:
  obtains g s' where "finish_allocation c user n r s = Returns (Inr user) s'"
    "g = (if enablePoisoning (config s) then poisonOnAllocate user n else id)"
    "world s' = world (on_mem g s)" "central_of s' = central_of s" "config s' = config s" "events s' = events s"
    "stats s' = recordAllocation (to_size n) (to_size r) (stats s)"
    "debug s' = (if enableLeakTracking (config s) then track (liveRoom c) user n (debug s) else debug s)"
  by (rule that [OF finish_allocation_def [unfolded Let_def] refl])
    (auto simp: on_mem_def central_of_def)

lemma poison_out: "x \<notin> {p..<p + n} \<Longrightarrow> poisonOnAllocate p n m x = m x" "x \<notin> {p..<p + n} \<Longrightarrow> poisonOnFree p n m x = m x"
  by (auto simp: poisonOnAllocate_def poisonOnFree_def memset_def)

lemma add_object:
  assumes inv: "impl_inv full os s L"
    and raw: "tiers_ok os s1 (insert (block_of ob) (block_of ` L))" "block_of ob \<notin> block_of ` L" "same_rest s s1"
      "tier_step (snd ` block_of ` L) (world s) (regs_of s) (world s1) (regs_of s1)"
    and wf: "obj_wf ob" and hdr: "obj_hdr (f (mem (world s1))) ob"
    and f: "\<And>x. x \<notin> {o_start ob..<o_start ob + o_cap ob} \<Longrightarrow> f (mem (world s1)) x = mem (world s1) x"
    and room: "full \<longrightarrow> liveRoom c"
  obtains s' where "finish_allocation c (o_user ob) (o_size ob) (reserved_of (o_key ob) (o_cap ob)) (on_mem f s1) =
      Returns (Inr (o_user ob)) s'"
    "impl_inv full os s' (insert ob L)" "ob \<notin> L" "config s' = config s" "events s' = events s"
    "tier_step (snd ` block_of ` L) (world s) (regs_of s) (world s') (regs_of s')"
    "enablePoisoning (config s) \<Longrightarrow> \<forall>x \<in> {o_user ob..<o_user ob + o_size ob}. mem (world s') x = kAllocPoison"
    "debug s' = (if enableLeakTracking (config s) then track (liveRoom c) (o_user ob) (o_size ob) (debug s) else debug s)"
    "\<And>x. x \<notin> {o_user ob..<o_user ob + o_size ob} \<Longrightarrow> mem (world s') x = f (mem (world s1)) x"
proof -
  note d = impl_invD [OF inv] and w = obj_wfD [OF wf]
  let ?s2 = "on_mem f s1"
  obtain g s' where fin: "finish_allocation c (o_user ob) (o_size ob) (reserved_of (o_key ob) (o_cap ob)) ?s2 =
      Returns (Inr (o_user ob)) s'"
    "g = (if enablePoisoning (config ?s2) then poisonOnAllocate (o_user ob) (o_size ob) else id)"
    "world s' = world (on_mem g ?s2)" "central_of s' = central_of ?s2" "config s' = config ?s2" "events s' = events ?s2"
    "stats s' = recordAllocation (to_size (o_size ob)) (to_size (reserved_of (o_key ob) (o_cap ob))) (stats ?s2)"
    "debug s' = (if enableLeakTracking (config ?s2) then track (liveRoom c) (o_user ob) (o_size ob) (debug ?s2) else debug ?s2)"
    by (rule finish_cases)
  have rest: "config s1 = config s" "stats s1 = stats s" "debug s1 = debug s" "events s1 = events s"
    using raw(3) by (auto simp: same_rest_def)
  have pay: "{o_user ob..<o_user ob + o_size ob} \<subseteq> {o_start ob..<o_start ob + o_cap ob}" by (rule payload_sub_block [OF wf])
  have g: "g m x = m x" if "x \<notin> {o_user ob..<o_user ob + o_size ob}" for m x
    using that poison_out(1) by (auto simp: fin(2))
  let ?h = "g \<circ> f"
  have h: "?h (mem (world s1)) x = mem (world s1) x" if "x \<notin> {o_start ob..<o_start ob + o_cap ob}" for x
    using that f g pay by auto
  have w': "world s' = world (on_mem ?h s1)" "central_of s' = central_of (on_mem ?h s1)"
    using fin(3,4) by (simp add: on_mem_def, simp)
  have blk: "block_of ob = (o_key ob, o_start ob, o_cap ob)" by (simp add: block_of_def)
  note fresh = block_fresh [OF raw(1) [unfolded blk] raw(2) [unfolded blk]]
  have "tiers_ok os (on_mem ?h s1) (insert (block_of ob) (block_of ` L))"
    by (rule tiers_write [OF raw(1)]) (use h in \<open>auto simp: blk\<close>)
  then have tiers': "tiers_ok os s' (block_of ` insert ob L)" using w' by simp
  have step: "tier_step (snd ` block_of ` L) (world s) (regs_of s) (world s') (regs_of s')"
    unfolding w' by (rule step_write [where f = ?h and s = s1, OF raw(4) h fresh(1,2)])
  have new: "ob \<notin> L" using raw(2) by blast
  have "obj_hdr (mem (world s')) ob"
    unfolding w'(1) by (rule obj_hdr_cong [OF hdr wf]) (use g in simp)
  then have hdrs: "obj_wf ob' \<and> obj_hdr (mem (world s')) ob'" if "ob' \<in> insert ob L" for ob'
    using that wf d(4) step_keeps_hdr [OF step _ d(4) d(5)] by blast
  have users: "o_user ob' \<noteq> o_user ob" if ob': "ob' \<in> L" for ob'
  proof -
    have "apart (o_start ob, o_cap ob) (o_start ob', o_cap ob')"
      using tiers.inv_apart [OF tiers', of "o_key ob" "(o_start ob, o_cap ob)" "o_key ob'" "(o_start ob', o_cap ob')"]
        raw(2) ob' by (force simp: block_of_def)
    then show ?thesis using payload_sub_block [OF d(4) [OF ob']] obj_wfD(7,9,10) [OF d(4) [OF ob']] w(7,9,10) by auto
  qed
  have "registered full s' (insert ob L)"
    by (rule registered_add [where s = s and ok = "liveRoom c", OF d(7)]) (use fin rest room users in auto)
  moreover have "counters_ok (stats s') (insert ob L)"
    using counters_add [OF d(6,1) new] fin(7) rest by simp
  moreover have "inj_on block_of (insert ob L)" using d(2) raw(2) by (auto simp: inj_on_insert)
  ultimately have inv': "impl_inv full os s' (insert ob L)" using d(1) tiers' hdrs by (simp add: impl_inv_def)
  have "\<forall>x \<in> {o_user ob..<o_user ob + o_size ob}. mem (world s') x = kAllocPoison" if "enablePoisoning (config s)"
    using that rest w'(1) by (simp add: fin(2) poisonOnAllocate_def memset_def)
  moreover have "mem (world s') x = f (mem (world s1)) x" if "x \<notin> {o_user ob..<o_user ob + o_size ob}" for x
    using that g by (simp add: w'(1))
  ultimately show thesis using that [OF fin(1) inv' new _ _ step] fin(5,6,8) rest by simp
qed

text \<open>A request that no tier can serve leaves the live allocations as they are.\<close>

lemma impl_inv_step:
  assumes "impl_inv full os s L" "tiers_ok os s' (block_of ` L)" "same_rest s s'"
    "tier_step (snd ` block_of ` L) (world s) (regs_of s) (world s') (regs_of s')"
  shows "impl_inv full os s' L"
proof -
  note d = impl_invD [OF assms(1)]
  have "obj_wf ob \<and> obj_hdr (mem (world s')) ob" if "ob \<in> L" for ob
    using step_keeps_hdr [OF assms(4) that d(4) [OF that] d(5) [OF that]] d(4) [OF that] by blast
  moreover have "config s' = config s" "stats s' = stats s" "debug s' = debug s" using assms(3) by (simp_all add: same_rest_def)
  ultimately show ?thesis using d(1,2,6,7) assms(2) registered_cong [of s' s full L] by (simp add: impl_inv_def)
qed

text \<open>An allocation whose guards have been overwritten.\<close>

definition corrupted :: "AllocatorImpl \<Rightarrow> obj \<Rightarrow> bool" where
  "corrupted s ob \<longleftrightarrow> o_kind ob = Guarded \<and> enableGuardBytes (config s) \<and> \<not> verifyGuards (o_user ob) (o_size ob) (mem (world s))"

text \<open>
  The outcome of a request for \<open>n\<close> bytes: an error that is reported, with nothing but free memory
  rearranged, or a new live allocation of that size.
\<close>

definition served ::
    "bool \<Rightarrow> os \<Rightarrow> caller \<Rightarrow> nat \<Rightarrow> obj set \<Rightarrow> AllocatorImpl \<Rightarrow> addr result \<Rightarrow> obj \<Rightarrow> AllocatorImpl \<Rightarrow> bool" where
  "served full os c n L s r ob s' \<longleftrightarrow> r = Returns (Inr (o_user ob)) s' \<and> impl_inv full os s' (insert ob L) \<and> ob \<notin> L \<and>
     o_size ob = n \<and> config s' = config s \<and> events s' = events s \<and>
     tier_step (snd ` block_of ` L) (world s) (regs_of s) (world s') (regs_of s') \<and>
     (enablePoisoning (config s) \<longrightarrow> (\<forall>x \<in> {o_user ob..<o_user ob + n}. mem (world s') x = kAllocPoison)) \<and>
     debug s' = (if enableLeakTracking (config s) then track (liveRoom c) (o_user ob) n (debug s) else debug s) \<and> \<not> corrupted s' ob"

definition refused :: "bool \<Rightarrow> os \<Rightarrow> obj set \<Rightarrow> AllocatorImpl \<Rightarrow> addr result \<Rightarrow> AllocatorImpl \<Rightarrow> bool" where
  "refused full os L s r s1 \<longleftrightarrow> r = fail_with OutOfMemory 0 s1 \<and> impl_inv full os s1 L \<and> same_rest s s1 \<and>
     tier_step (snd ` block_of ` L) (world s) (regs_of s) (world s1) (regs_of s1)"

lemma refusedI:
  assumes "impl_inv full os s L" "tiers_ok os s1 (block_of ` L)" "same_rest s s1"
    "tier_step (snd ` block_of ` L) (world s) (regs_of s) (world s1) (regs_of s1)" "r = fail_with OutOfMemory 0 s1"
  shows "refused full os L s r s1"
  using assms impl_inv_step [OF assms(1-4)] by (simp add: refused_def)

text \<open>The block \<open>rawAllocate\<close> gave, as a plain allocation or with a shim.\<close>

lemma obj_hdr_plain:
  assumes "load_header m (o_start ob) = fresh_header (o_req ob) (tier_of (o_key ob))" "o_kind ob = Plain" "o_user ob = o_start ob + 16"
  shows "obj_hdr m ob"
  using assms by (simp add: obj_hdr_def user_header_def)

lemma allocate_ok:
  fixes request c
  assumes "impl_inv full os s L" "full \<longrightarrow> liveRoom c"
  defines "n \<equiv> if request = 0 then 1 else request" and "r \<equiv> AllocatorImpl_allocate os c request s"
  obtains (too_big) "kMaxRequest < n" "r = fail_with SizeOverflow 0 s"
    | (oom) s1 where "n \<le> kMaxRequest" "refused full os L s r s1"
    | (object) ob s' where "n \<le> kMaxRequest" "served full os c n L s r ob s'"
        "o_kind ob = (if enableGuardBytes (config s) then Guarded else Plain)"
proof (cases "kMaxRequest < n")
  case True
  then show thesis using too_big by (simp add: r_def n_def AllocatorImpl_allocate_def)
next
  case False
  note d = impl_invD [OF assms(1)]
  have n: "0 < n" "n \<le> kMaxRequest" using False by (auto simp: n_def)
  define k where "k = (if enableGuardBytes (config s) then guardedSize n else n)"
  have gs: "guardedSize n = n + 64" using n by (simp add: guardedSize_def const_simps)
  then have "k \<le> 2 ^ 59" using n by (simp add: k_def const_simps)
  from d(3) this show thesis
  proof (cases rule: rawAllocate_ok [where c = c])
    case (oom s1)
    then have "r = fail_with OutOfMemory 0 s1" using False
      by (simp add: r_def n_def [symmetric] AllocatorImpl_allocate_def k_def [symmetric] Let_def split: if_splits)
        (auto simp: k_def split: if_splits)
    then show thesis using that(2) [OF n(2)] refusedI [OF assms(1) oom(2-4)] by blast
  next
    case (block key p len s1)
    show thesis
    proof (cases "enableGuardBytes (config s)")
      case plain: False
      let ?ob = "\<lparr>o_key = key, o_start = p, o_cap = len, o_req = n, o_user = p + 16, o_size = n, o_kind = Plain\<rparr>"
      have k: "k = n" using plain by (simp add: k_def)
      have wf: "obj_wf ?ob" using block k n by (simp add: obj_wf_def)
      have b: "block_of ?ob = (key, p, len)" by (simp add: block_of_def)
      have hdr: "obj_hdr (id (mem (world s1))) ?ob" using block(9) k by (intro obj_hdr_plain) simp_all
      obtain s' where o: "finish_allocation c (p + 16) n (reserved_of key len) (on_mem id s1) = Returns (Inr (p + 16)) s'"
        "impl_inv full os s' (insert ?ob L)" "?ob \<notin> L" "config s' = config s" "events s' = events s"
        "tier_step (snd ` block_of ` L) (world s) (regs_of s) (world s') (regs_of s')"
        "enablePoisoning (config s) \<Longrightarrow> \<forall>x \<in> {p + 16..<p + 16 + n}. mem (world s') x = kAllocPoison"
        "debug s' = (if enableLeakTracking (config s) then track (liveRoom c) (p + 16) n (debug s) else debug s)"
        by (rule add_object [where f = id and ob = ?ob, OF assms(1) _ _ block(10,11) wf hdr _ assms(2)])
          (use block(2,3) in \<open>simp_all add: b\<close>)
      have "r = Returns (Inr (p + 16)) s'"
        using False plain block(1) k o(1) by (simp add: r_def n_def [symmetric] AllocatorImpl_allocate_def on_mem_def)
      then show thesis using that(3) [OF n(2), of ?ob s'] o plain by (simp add: served_def corrupted_def)
    next
      case guards: True
      let ?ob = "\<lparr>o_key = key, o_start = p, o_cap = len, o_req = n + 64, o_user = p + 48, o_size = n, o_kind = Guarded\<rparr>"
      have k: "k = n + 64" using guards gs by (simp add: k_def)
      have wf: "obj_wf ?ob" using block k n by (simp add: obj_wf_def)
      have b: "block_of ?ob = (key, p, len)" by (simp add: block_of_def)
      let ?m = "snd (applyGuards (p + 16) n (mem (world s1)))"
      have "n < 2 ^ 64" using n by (simp add: const_simps)
      note sh = applyGuards_header [OF this, of "p + 16" "mem (world s1)"]
      have "load_header ?m p = load_header (mem (world s1)) p"
        by (rule load_header_cong, rule applyGuards_out) auto
      then have hdr: "obj_hdr ((\<lambda>_. ?m) (mem (world s1))) ?ob" using block(9) k sh
        by (simp add: obj_hdr_def user_header_def shim_header_def headerOf_def const_simps)
      obtain s' where o: "finish_allocation c (p + 48) n (reserved_of key len) (on_mem (\<lambda>_. ?m) s1) = Returns (Inr (p + 48)) s'"
        "impl_inv full os s' (insert ?ob L)" "?ob \<notin> L" "config s' = config s" "events s' = events s"
        "tier_step (snd ` block_of ` L) (world s) (regs_of s) (world s') (regs_of s')"
        "enablePoisoning (config s) \<Longrightarrow> \<forall>x \<in> {p + 48..<p + 48 + n}. mem (world s') x = kAllocPoison"
        "debug s' = (if enableLeakTracking (config s) then track (liveRoom c) (p + 48) n (debug s) else debug s)"
        "\<And>x. x \<notin> {p + 48..<p + 48 + n} \<Longrightarrow> mem (world s') x = ?m x"
        by (rule add_object [where f = "\<lambda>_. ?m" and ob = ?ob, OF assms(1) _ _ block(10,11) wf hdr _ assms(2)])
          (use block(2,3,7) k in \<open>auto simp: b intro!: applyGuards_out\<close>)
      have "\<forall>x \<in> guard_bytes (p + 48) n. mem (world s') x = kGuardPattern"
        using o(9) applyGuards_guard [of _ "p + 16" n "mem (world s1)"] by (auto simp: guard_bytes_def const_simps)
      then have "\<not> corrupted s' ?ob" using verifyGuards_iff [of "p + 48" n] by (simp add: corrupted_def const_simps)
      moreover have "r = Returns (Inr (p + 48)) s'"
        using False guards block(1) k gs o(1)
        by (simp add: r_def n_def [symmetric] AllocatorImpl_allocate_def case_prod_beta) (simp add: add.commute)
      ultimately show thesis using that(3) [OF n(2), of ?ob s'] o(2-8) guards by (simp add: served_def)
    qed
  qed
qed

section \<open>Aligned allocation\<close>

text \<open>Where \<open>alignedAllocate\<close> puts the pointer inside the block.\<close>

definition shifted :: "nat \<Rightarrow> addr \<Rightarrow> addr" where
  "shifted al a = (let up = alignUp a al in if up = a then up + al else up)"

lemma alignedAllocate_shifted:
  assumes "isPowerOfTwo al" "al \<le> kMaxAlignment" "\<not> al \<le> kDefaultAlignment" "n = (if request = 0 then 1 else request)"
    "n \<le> kMaxRequest"
  shows "AllocatorImpl_alignedAllocate os c al request s =
    and_then (rawAllocate os c (size_add n al) s) (\<lambda>raw s1. case raw of
        Inl error \<Rightarrow> fail_with error 0 s1
      | Inr (a, reserved) \<Rightarrow> finish_allocation c (shifted al a) n reserved
          (on_mem (store_header (headerOf (shifted al a)) \<lparr>payloadSize = n, tier = tier_code AlignedShim,
             state = kStateAllocated, offset = (shifted al a - a) mod 2 ^ 32\<rparr>) s1))"
  using assms(1-3,5) unfolding AllocatorImpl_alignedAllocate_def shifted_def Let_def assms(4) by simp

lemma shifted_bounds:
  assumes "isPowerOfTwo al" "16 < al" "al \<le> kMaxAlignment" "16 dvd a" "a \<le> 2 ^ 56"
  shows "al dvd shifted al a" "a + 16 \<le> shifted al a" "shifted al a \<le> a + al" "16 dvd shifted al a" "16 dvd al"
proof -
  have lt: "al < size_max" "a + al - 1 < size_max" using assms(3,5) by (auto simp: const_simps)
  note b = alignUp_bounds [OF assms(1) lt]
  obtain k where k: "al = 2 ^ k" using assms(1) isPowerOfTwo_iff [OF lt(1)] by blast
  have "4 \<le> k"
  proof (rule ccontr)
    assume "\<not> 4 \<le> k"
    then have "(2 :: nat) ^ k \<le> 2 ^ 3" by (intro power_increasing) auto
    then show False using assms(2) k by simp
  qed
  then have "(2 :: nat) ^ 4 dvd 2 ^ k" by (rule le_imp_power_dvd)
  then show d: "16 dvd al" using k by simp
  show al: "al dvd shifted al a" using b(1) by (auto simp: shifted_def Let_def)
  then show dvd: "16 dvd shifted al a" using d dvd_trans by blast
  have lt': "a < shifted al a" "shifted al a \<le> a + al" using b(2,3) assms(2) by (auto simp: shifted_def Let_def)
  then show "shifted al a \<le> a + al" by simp
  obtain i j where "shifted al a = 16 * i" "a = 16 * j" using dvd assms(4) by (auto elim!: dvdE)
  then show "a + 16 \<le> shifted al a" using lt'(1) by simp
qed

lemma pow2_dvd_16:
  assumes "isPowerOfTwo al" "al \<le> 16"
  shows "al dvd 16"
proof -
  have "al < size_max" using assms(2) by (simp add: const_simps)
  then obtain k where k: "al = 2 ^ k" using assms(1) isPowerOfTwo_iff by blast
  have "k \<le> 4"
  proof (rule ccontr)
    assume "\<not> k \<le> 4"
    then have "(2 :: nat) ^ 5 \<le> 2 ^ k" by (intro power_increasing) auto
    then show False using assms(2) k by simp
  qed
  then have "(2 :: nat) ^ k dvd 2 ^ 4" by (rule le_imp_power_dvd)
  then show ?thesis using k by simp
qed

lemma alignedAllocate_ok:
  fixes request c al
  assumes "impl_inv full os s L" "full \<longrightarrow> liveRoom c"
  defines "n \<equiv> if request = 0 then 1 else request" and "r \<equiv> AllocatorImpl_alignedAllocate os c al request s"
  obtains (bad) "\<not> isPowerOfTwo al \<or> kMaxAlignment < al" "r = fail_with InvalidAlignment 0 s"
    | (too_big) "isPowerOfTwo al" "al \<le> kMaxAlignment" "kMaxRequest < n" "r = fail_with SizeOverflow 0 s"
    | (oom) s1 where "isPowerOfTwo al" "al \<le> kMaxAlignment" "n \<le> kMaxRequest" "refused full os L s r s1"
    | (object) ob s' where "isPowerOfTwo al" "al \<le> kMaxAlignment" "n \<le> kMaxRequest" "served full os c n L s r ob s'" "al dvd o_user ob"
proof (cases "\<not> isPowerOfTwo al \<or> kMaxAlignment < al")
  case True
  then show thesis using bad by (simp add: r_def AllocatorImpl_alignedAllocate_def)
next
  case ok: False
  then have al: "isPowerOfTwo al" "al \<le> kMaxAlignment" by auto
  show thesis
  proof (cases "al \<le> kDefaultAlignment")
    case True
    then have r: "r = AllocatorImpl_allocate os c request s" using al by (simp add: r_def AllocatorImpl_alignedAllocate_def)
    from assms(1,2) show thesis
    proof (cases rule: allocate_ok [where request = request and c = c])
      case too_big
      then show thesis using that(2) al by (simp add: n_def r)
    next
      case (oom s1)
      then show thesis using that(3) al by (simp add: n_def r)
    next
      case (object ob s')
      then have "impl_inv full os s' (insert ob L)" by (simp add: served_def)
      from obj_wfD(11) [OF impl_invD(4) [OF this]] have "16 dvd o_user ob" by simp
      moreover have "al dvd 16" using pow2_dvd_16 [OF al(1)] True by (simp add: const_simps)
      ultimately have "al dvd o_user ob" using dvd_trans by blast
      then show thesis using that(4) al object by (simp add: n_def r)
    qed
  next
    case big: False
    show thesis
    proof (cases "kMaxRequest < n")
      case True
      then show thesis using that(2) al big by (simp add: r_def n_def AllocatorImpl_alignedAllocate_def)
    next
      case False
      note d = impl_invD [OF assms(1)]
      have n: "0 < n" "n \<le> kMaxRequest" using False by (auto simp: n_def)
      have sum: "size_add n al = n + al" and le: "n + al \<le> 2 ^ 59" using n al(2) by (simp_all add: const_simps)
      from d(3) le show thesis
      proof (cases rule: rawAllocate_ok [where c = c])
        case (oom s1)
        then have "r = fail_with OutOfMemory 0 s1" using False big al sum
          by (simp add: r_def n_def [symmetric] AllocatorImpl_alignedAllocate_def)
        then show thesis using that(3) [OF al n(2)] refusedI [OF assms(1) oom(2-4)] by blast
      next
        case (block key p len s1)
        let ?u = "shifted al (p + 16)"
        let ?ob = "\<lparr>o_key = key, o_start = p, o_cap = len, o_req = n + al, o_user = ?u, o_size = n, o_kind = Aligned\<rparr>"
        have b: "block_of ?ob = (key, p, len)" by (simp add: block_of_def)
        have "p + len \<le> 2 ^ 56" using tiers.inv_bounded [OF block(2), of key p len] by simp
        then have "p + 16 \<le> 2 ^ 56" using block(7) by simp
        moreover have "16 dvd p + 16" using block(6) by simp
        ultimately have sh: "al dvd ?u" "p + 32 \<le> ?u" "?u \<le> p + 16 + al" "16 dvd ?u"
          using shifted_bounds [OF al(1) _ al(2), of "p + 16"] big by (simp_all add: const_simps)
        have wf: "obj_wf ?ob" using block sh n al(2) by (simp add: obj_wf_def const_simps)
        let ?f = "store_header (?u - 16) (shim_header ?ob)"
        have "load_header (?f (mem (world s1))) p = load_header (mem (world s1)) p"
          by (rule load_store_header_apart) (use sh(2) in auto)
        moreover have "load_header (?f (mem (world s1))) (?u - 16) = shim_header ?ob"
          using n obj_wfD(14) [OF wf] by (simp add: load_store_header shim_header_def const_simps)
        ultimately have hdr: "obj_hdr (?f (mem (world s1))) ?ob" using block(9) by (simp add: obj_hdr_def user_header_def)
        obtain s' where o: "finish_allocation c ?u n (reserved_of key len) (on_mem ?f s1) = Returns (Inr ?u) s'"
          "impl_inv full os s' (insert ?ob L)" "?ob \<notin> L" "config s' = config s" "events s' = events s"
          "tier_step (snd ` block_of ` L) (world s) (regs_of s) (world s') (regs_of s')"
          "enablePoisoning (config s) \<Longrightarrow> \<forall>x \<in> {?u..<?u + n}. mem (world s') x = kAllocPoison"
          "debug s' = (if enableLeakTracking (config s) then track (liveRoom c) (?u) n (debug s) else debug s)"
          by (rule add_object [where f = ?f and ob = ?ob, OF assms(1) _ _ block(10,11) wf hdr _ assms(2)])
            (use block(2,3,7) sh(2,3) in \<open>auto simp: b intro!: store_header_out\<close>)
        have "(?u - (p + 16)) mod 2 ^ 32 = ?u - (p + 16)" using obj_wfD(14) [OF wf] by simp
        then have "r = Returns (Inr ?u) s'"
          using alignedAllocate_shifted [OF al big, of n request os c s] n(2) block(1) sum o(1)
          by (simp add: r_def n_def shim_header_def headerOf_def const_simps)
        then show thesis using that(4) [OF al n(2), of ?ob s'] o sh(1) by (simp add: served_def corrupted_def)
      qed
    qed
  qed
qed

end
