(* ===== verification/AllocatorRelease.thy ===== *)
theory AllocatorRelease
  imports AllocatorOps
begin

text \<open>
  Releasing and resizing: \<open>deallocate\<close>, \<open>allocationSize\<close> and \<open>reallocate\<close> against the invariant.
\<close>

section \<open>What the header in front of a live pointer says\<close>

lemma tierValue_fresh: "tierValue (fresh_header n t) = Some t"
  by (rule tierValue_code) (simp add: fresh_header_def)

lemma user_header_facts:
  assumes "obj_wf ob"
  shows "payloadSize (user_header ob) = o_size ob" "state (user_header ob) = kStateAllocated"
    "tierValue (user_header ob) = Some (if o_kind ob = Plain then tier_of (o_key ob) else shim_tier (o_kind ob))"
    "hasValidTier (user_header ob)" "o_kind ob \<noteq> Plain \<Longrightarrow> offset (user_header ob) = o_user ob - (o_start ob + 16)"
proof -
  show t: "tierValue (user_header ob) = Some (if o_kind ob = Plain then tier_of (o_key ob) else shim_tier (o_kind ob))"
    using tierValue_code [of "shim_header ob" "shim_tier (o_kind ob)"]
    by (simp add: user_header_def tierValue_fresh shim_header_def)
  then show "hasValidTier (user_header ob)" unfolding hasValidTier_iff by blast
  show "payloadSize (user_header ob) = o_size ob" "state (user_header ob) = kStateAllocated"
    "o_kind ob \<noteq> Plain \<Longrightarrow> offset (user_header ob) = o_user ob - (o_start ob + 16)"
    using obj_wfD(13) [OF assms] by (auto simp: user_header_def fresh_header_def shim_header_def)
qed

lemma live_header:
  assumes "impl_inv full os s L" "ob \<in> L"
  shows "header_at (world s) (o_user ob) = Some (user_header ob)" "o_user ob \<noteq> 0"
proof -
  note d = impl_invD [OF assms(1)]
  note w = obj_wfD [OF d(4) [OF assms(2)]]
  have "{o_user ob - 16..<o_user ob - 16 + 16} \<subseteq> {o_start ob..<o_start ob + o_cap ob}" using w(7,9,10) by auto
  also have "\<dots> \<subseteq> mapped_cells (world s)" using block_outstanding(3) [OF d(3) block_mem [OF assms(2)]] .
  finally show "header_at (world s) (o_user ob) = Some (user_header ob)"
    using header_at_mapped [of "o_user ob - 16" "world s"] d(5) [OF assms(2)] w(9) by (simp add: obj_hdr_def)
  show "o_user ob \<noteq> 0" using w(9) by simp
qed

lemma allocationSize_live:
  assumes "impl_inv full os s L" "ob \<in> L" "enableLeakTracking (config s) \<longrightarrow> isTracked (o_user ob) (debug s)"
  shows "AllocatorImpl_allocationSize (o_user ob) s = Returns (o_size ob) s"
  using live_header [OF assms(1,2)] user_header_facts [OF impl_invD(4) [OF assms(1,2)]] assms(3)
  by (auto simp: AllocatorImpl_allocationSize_def)

section \<open>Release\<close>

lemma release_raw:
  assumes "impl_inv full os s L" "ob \<in> L"
    "\<And>x. x \<notin> {o_start ob + 16..<o_start ob + o_cap ob} \<Longrightarrow> f (mem (world s)) x = mem (world s) x"
  obtains s' where "rawDeallocate os c (o_start ob + 16) (on_mem f s) = Returns (Inr (reserved_of (o_key ob) (o_cap ob))) s'"
    "tiers_ok os s' (block_of ` (L - {ob}))" "same_rest s s'"
    "tier_step (snd ` block_of ` (L - {ob})) (world s) (regs_of s) (world s') (regs_of s')"
proof -
  note d = impl_invD [OF assms(1)]
  note w = obj_wfD [OF d(4) [OF assms(2)]]
  note m = block_mem [OF assms(2)]
  note out = block_outstanding [OF d(3) m]
  have f: "f (mem (world s)) x = mem (world s) x" if "x \<notin> {o_start ob..<o_start ob + o_cap ob}" for x
    using assms(3) that by auto
  have tiers: "tiers_ok os (on_mem f s) (block_of ` L)"
    by (rule tiers_write [OF d(3)]) (use f out(4) in blast)
  have "load_header (f (mem (world s))) (o_start ob) = load_header (mem (world s)) (o_start ob)"
    by (rule load_header_cong) (use assms(3) in auto)
  then have hd: "load_header (mem (world (on_mem f s))) (o_start ob) = fresh_header (o_req ob) (tier_of (o_key ob))"
    using d(5) [OF assms(2)] by (simp add: obj_hdr_def)
  have rm: "block_of ` L - {(o_key ob, o_start ob, o_cap ob)} = block_of ` (L - {ob})"
    using inj_on_image_set_diff [OF d(2), of L "{ob}"] assms(2) by (simp add: block_of_def)
  obtain s' where r: "rawDeallocate os c (o_start ob + 16) (on_mem f s) = Returns (Inr (reserved_of (o_key ob) (o_cap ob))) s'"
    "tiers_ok os s' (block_of ` (L - {ob}))" "same_rest (on_mem f s) s'"
    "tier_step (snd ` block_of ` (L - {ob})) (world (on_mem f s)) (regs_of (on_mem f s)) (world s') (regs_of s')"
    by (rule rawDeallocate_ok [OF tiers m w(4,3), of c, unfolded rm]) (use hd w(1) in \<open>simp_all add: fresh_header_def\<close>)
  have "tier_step (snd ` block_of ` (L - {ob})) (world s) (regs_of s) (world s') (regs_of s')"
    by (rule write_step [where f = f and p = "o_start ob" and n = "o_cap ob"])
      (use r(4) f out(1,2) rm in simp_all)
  moreover have "same_rest s s'" using r(3) by (simp add: same_rest_def)
  ultimately show thesis using that r(1,2) by blast
qed

text \<open>Taking an allocation out of the invariant, with its counters and its registry entry.\<close>

lemma remove_object:
  assumes "impl_inv full os s L" "ob \<in> L" "tiers_ok os s1 (block_of ` (L - {ob}))" "world s' = world s1" "central_of s' = central_of s1"
    "tier_step (snd ` block_of ` (L - {ob})) (world s) (regs_of s) (world s1) (regs_of s1)" "config s' = config s"
    "stats s' = recordFree (to_size (o_size ob)) (to_size (reserved_of (o_key ob) (o_cap ob))) (stats s)"
    "debug s' = (if enableLeakTracking (config s) then snd (untrack ok (o_user ob) (debug s)) else debug s)"
  shows "impl_inv full os s' (L - {ob})"
proof -
  note d = impl_invD [OF assms(1)]
  have "obj_wf ob' \<and> obj_hdr (mem (world s')) ob'" if "ob' \<in> L - {ob}" for ob'
    using that d(4,5) step_keeps_hdr [OF assms(6) that] assms(4) by auto
  moreover have "registered full s' (L - {ob})"
    by (rule registered_remove [OF d(7) assms(7,2,9)]) (use payloads_apart(2) [OF assms(1)] assms(2) in blast)
  moreover have "counters_ok (stats s') (L - {ob})" using counters_remove [OF d(6,1) assms(2)] assms(8) by simp
  moreover have "inj_on block_of (L - {ob})" using d(2) by (rule inj_on_subset) blast
  ultimately show ?thesis using d(1) assms(3-5) by (simp add: impl_inv_def)
qed

text \<open>The writes of a release: poison over the payload, the state of the shim.\<close>

definition wipe :: "AllocatorImpl \<Rightarrow> obj \<Rightarrow> memory \<Rightarrow> memory" where
  "wipe s ob = (if o_kind ob = Plain then id else store_state (o_user ob - 16) kStateFreed) \<circ>
     (if enablePoisoning (config s) then poisonOnFree (o_user ob) (o_size ob) else id)"

lemma wipe_out:
  assumes "obj_wf ob" "x \<notin> {o_start ob + 16..<o_start ob + o_cap ob}"
  shows "wipe s ob m x = m x"
proof -
  note w = obj_wfD [OF assms(1)]
  have "x \<notin> {o_user ob..<o_user ob + o_size ob}" using assms(2) w(9,10) by auto
  then have poison: "poisonOnFree (o_user ob) (o_size ob) m x = m x" by (rule poison_out(2))
  have "x < o_user ob - 16 + 10 \<or> o_user ob - 16 + 12 \<le> x" if "o_kind ob \<noteq> Plain" using assms(2) w(7,10) w(12) [OF that] by auto
  then have "store_state (o_user ob - 16) kStateFreed m' x = m' x" if "o_kind ob \<noteq> Plain" for m' using that by (intro store_state_out)
  then show ?thesis using poison by (simp add: wipe_def)
qed

lemma release_block_eq:
  assumes "obj_wf ob"
  shows "release_block os c (o_user ob) (user_header ob) s =
    and_then (if corrupted s ob then report HeapCorruption (o_user ob) s else Returns () s)
      (\<lambda>_ s1. rawDeallocate os c (o_start ob + 16) (on_mem (wipe s ob) s1))"
proof -
  note w = obj_wfD [OF assms] and u = user_header_facts [OF assms]
  have comp: "on_mem f (on_mem g s) = on_mem (f \<circ> g) s" "on_mem id s = s" for f g s by (simp_all add: on_mem_def)
  have "o_user ob - offset (user_header ob) = o_start ob + 16" if "o_kind ob \<noteq> Plain" using u(5) [OF that] w(9) by simp
  moreover have "tier_of (o_key ob) \<in> {Small, Medium, Large}" by (auto simp: tier_of_def split: sum.splits)
  ultimately show ?thesis using u w(13)
    by (cases "o_kind ob")
      (auto simp: release_block_def corrupted_def wipe_def Let_def headerOf_def const_simps comp)
qed

lemma deallocate_ok:
  assumes "impl_inv full os s L" "ob \<in> L" "enableLeakTracking (config s) \<longrightarrow> isTracked (o_user ob) (debug s)"
  obtains (aborted) "corrupted s ob" "abortOnError (config s)"
      "AllocatorImpl_deallocate os c (o_user ob) s = Aborts (s\<lparr>events := events s @ [error_event s HeapCorruption (o_user ob)]\<rparr>)"
    | (released) s' where "\<not> (corrupted s ob \<and> abortOnError (config s))"
      "AllocatorImpl_deallocate os c (o_user ob) s = Returns (Inr ()) s'" "impl_inv full os s' (L - {ob})" "config s' = config s"
      "events s' = events s @ (if corrupted s ob then [error_event s HeapCorruption (o_user ob)] else [])"
      "tier_step (snd ` block_of ` (L - {ob})) (world s) (regs_of s) (world s') (regs_of s')"
      "debug s' = (if enableLeakTracking (config s) then snd (untrack (freedRoom c) (o_user ob) (debug s)) else debug s)"
proof -
  note wf = impl_invD(4) [OF assms(1,2)]
  note u = user_header_facts [OF wf]
  let ?ev = "if corrupted s ob then [error_event s HeapCorruption (o_user ob)] else []"
  let ?s0 = "s\<lparr>events := events s @ ?ev\<rparr>"
  have start: "AllocatorImpl_deallocate os c (o_user ob) s =
      and_then (release_block os c (o_user ob) (user_header ob) s) (\<lambda>reserved s1. case reserved of
          Inl error \<Rightarrow> fail_with error (o_user ob) s1
        | Inr r \<Rightarrow> let s2 = s1\<lparr>stats := recordFree (to_size (payloadSize (user_header ob))) (to_size r) (stats s1)\<rparr>;
              s3 = (if enableLeakTracking (config s) then s2\<lparr>debug := snd (untrack (freedRoom c) (o_user ob) (debug s2))\<rparr> else s2)
            in Returns (Inr ()) s3)"
    using live_header [OF assms(1,2)] u(2,4) assms(3)
    unfolding AllocatorImpl_deallocate_def by (auto simp: const_simps)
  show thesis
  proof (cases "corrupted s ob \<and> abortOnError (config s)")
    case True
    then show thesis using aborted start by (simp add: release_block_eq [OF wf] report_eq)
  next
    case False
    have inv0: "impl_inv full os ?s0 L" using assms(1) by simp
    have "wipe s ob (mem (world ?s0)) x = mem (world ?s0) x" if "x \<notin> {o_start ob + 16..<o_start ob + o_cap ob}" for x
      using wipe_out [OF wf that] .
    from release_raw [where f = "wipe s ob" and c = c, OF inv0 assms(2) this]
    obtain s1 where r: "rawDeallocate os c (o_start ob + 16) (on_mem (wipe s ob) ?s0) = Returns (Inr (reserved_of (o_key ob) (o_cap ob))) s1"
      "tiers_ok os s1 (block_of ` (L - {ob}))" "same_rest ?s0 s1"
      "tier_step (snd ` block_of ` (L - {ob})) (world ?s0) (regs_of ?s0) (world s1) (regs_of s1)" by blast
    have rest: "config s1 = config s" "stats s1 = stats s" "debug s1 = debug s" "events s1 = events s @ ?ev"
      using r(3) by (auto simp: same_rest_def)
    have eq0: "regs_of ?s0 = regs_of s" "world ?s0 = world s" by (simp_all add: central_of_def)
    have "release_block os c (o_user ob) (user_header ob) s = Returns (Inr (reserved_of (o_key ob) (o_cap ob))) s1"
    proof (cases "corrupted s ob")
      case True
      then show ?thesis using r(1) False by (simp add: release_block_eq [OF wf] report_eq)
    next
      case F: False
      then have "?s0 = s" by simp
      then show ?thesis using r(1) F by (simp add: release_block_eq [OF wf])
    qed
    moreover define s2 where "s2 = s1\<lparr>stats := recordFree (to_size (o_size ob)) (to_size (reserved_of (o_key ob) (o_cap ob))) (stats s1)\<rparr>"
    moreover define s' where "s' = (if enableLeakTracking (config s) then s2\<lparr>debug := snd (untrack (freedRoom c) (o_user ob) (debug s2))\<rparr> else s2)"
    ultimately have run: "AllocatorImpl_deallocate os c (o_user ob) s = Returns (Inr ()) s'" using start by (simp add: Let_def u(1))
    have f: "world s' = world s1" "central_of s' = central_of s1" "config s' = config s"
      "stats s' = recordFree (to_size (o_size ob)) (to_size (reserved_of (o_key ob) (o_cap ob))) (stats s)"
      "debug s' = (if enableLeakTracking (config s) then snd (untrack (freedRoom c) (o_user ob) (debug s)) else debug s)"
      "events s' = events s @ ?ev"
      using rest by (auto simp: s'_def s2_def central_of_def)
    note step = r(4) [unfolded eq0]
    have "impl_inv full os s' (L - {ob})" by (rule remove_object [OF assms(1,2) r(2) f(1,2) step f(3-5)])
    then show thesis using released [OF False run] f step by simp
  qed
qed

section \<open>Foreign memory\<close>

text \<open>Mappings the allocator does not hold stay, with their bytes.\<close>

definition foreign_same :: "AllocatorImpl \<Rightarrow> AllocatorImpl \<Rightarrow> bool" where
  "foreign_same s s' \<longleftrightarrow> set (mapped (world s')) - set (regs_of s') = set (mapped (world s)) - set (regs_of s) \<and>
     (\<forall>x \<in> cells (set (mapped (world s)) - set (regs_of s)). mem (world s') x = mem (world s) x)"

lemma foreign_same_refl: "foreign_same s s"
  by (simp add: foreign_same_def)

lemma foreign_same_trans: "foreign_same s s1 \<Longrightarrow> foreign_same s1 s2 \<Longrightarrow> foreign_same s s2"
  by (simp add: foreign_same_def)

lemma foreign_same_cong:
  "world s' = world t' \<Longrightarrow> central_of s' = central_of t' \<Longrightarrow> foreign_same s s' \<longleftrightarrow> foreign_same s t'"
  by (simp add: foreign_same_def)

lemma step_foreign:
  assumes "tier_step E (world s) (regs_of s) (world s') (regs_of s')" "tiers_ok os s R" "tiers_ok os s' R'"
  shows "foreign_same s s'"
  using tier_step_foreign [OF assms(1)] tiers.inv_machine [OF assms(2)] tiers.inv_machine [OF assms(3)] assms(1)
  by (simp add: foreign_same_def tier_step_def)

lemma write_foreign:
  assumes "tiers_ok os s R" "\<And>x. x \<notin> cells (snd ` R) \<Longrightarrow> f (mem (world s)) x = mem (world s) x"
  shows "foreign_same s (on_mem f s)"
proof -
  have "tier_step {} (world s) (regs_of s) (world (on_mem f s)) (regs_of (on_mem f s))"
    unfolding on_mem_simps(1)
    by (rule tier_step_mem) (use assms(2) tiers.outstanding_cells [OF assms(1)] in auto)
  then show ?thesis using assms(1) tiers_write [where f = f, OF assms] by (rule step_foreign)
qed

section \<open>Resizing\<close>

text \<open>Bytes of a block that survives a step.\<close>

lemma step_keeps_block:
  assumes "tier_step (snd ` block_of ` L) (world s) rs (world s') rs'" "ob \<in> L" "o_start ob \<le> x" "x < o_start ob + o_cap ob"
  shows "mem (world s') x = mem (world s) x"
proof -
  have "x \<in> cells (snd ` block_of ` L)" using assms(2-4)
    by (intro cellsI [of "o_start ob" "o_cap ob"]) (force simp: block_of_def)+
  then show ?thesis using tier_step_memD [OF assms(1)] by blast
qed

lemma corrupted_cong:
  assumes "obj_wf ob" "config s' = config s" "\<And>x. o_start ob \<le> x \<Longrightarrow> x < o_start ob + o_cap ob \<Longrightarrow>
    x \<notin> {o_user ob..<o_user ob + o_size ob} \<Longrightarrow> mem (world s') x = mem (world s) x"
  shows "corrupted s' ob \<longleftrightarrow> corrupted s ob"
proof (cases "o_kind ob = Guarded")
  case True
  then have g: "o_user ob = o_start ob + 48" "o_start ob + 16 + (o_size ob + 64) \<le> o_start ob + o_cap ob"
    using assms(1) by (auto simp: obj_wf_def)
  then have "guard_bytes (o_user ob) (o_size ob) \<subseteq> {o_start ob..<o_start ob + o_cap ob} - {o_user ob..<o_user ob + o_size ob}"
    by (auto simp: guard_bytes_def const_simps)
  then have "(\<forall>x \<in> guard_bytes (o_user ob) (o_size ob). mem (world s') x = kGuardPattern) \<longleftrightarrow>
      (\<forall>x \<in> guard_bytes (o_user ob) (o_size ob). mem (world s) x = kGuardPattern)"
    using assms(3) by (intro ball_cong) auto
  then show ?thesis using g verifyGuards_iff [of "o_user ob" "o_size ob"] assms(2) by (simp add: corrupted_def const_simps)
qed (simp add: corrupted_def)

text \<open>The two halves of a resize: the new allocation with the copied bytes, then the release.\<close>

lemma resize_copy:
  assumes "impl_inv full os s L" "ob \<in> L" "served full os c n L s r ob' s2"
  defines "s3 \<equiv> on_mem (memcpy (o_user ob') (o_user ob) (min (o_size ob) n)) s2"
  shows "impl_inv full os s3 (insert ob' L)" "ob' \<notin> L" "config s3 = config s"
    "i < min (o_size ob) n \<Longrightarrow> mem (world s3) (o_user ob' + i) = mem (world s) (o_user ob + i)"
    "ob'' \<in> L \<Longrightarrow> o_start ob'' \<le> x \<Longrightarrow> x < o_start ob'' + o_cap ob'' \<Longrightarrow> mem (world s3) x = mem (world s) x"
    "foreign_same s s3" "\<not> corrupted s3 ob'"
proof -
  have sv: "impl_inv full os s2 (insert ob' L)" "ob' \<notin> L" "o_size ob' = n" "config s2 = config s"
    "tier_step (snd ` block_of ` L) (world s) (regs_of s) (world s2) (regs_of s2)" "\<not> corrupted s2 ob'"
    using assms(3) by (auto simp: served_def)
  show "ob' \<notin> L" "config s3 = config s" using sv by (simp_all add: s3_def)
  have wf: "obj_wf ob'" using impl_invD(4) [OF sv(1)] by blast
  have out: "memcpy (o_user ob') q (min k n) m x = m x" if "x \<notin> {o_user ob'..<o_user ob' + n}" for q k m x
    using that by (auto simp: memcpy_def)
  have "corrupted s3 ob' \<longleftrightarrow> corrupted s2 ob'" unfolding s3_def by (rule corrupted_cong [OF wf]) (use out sv(3) in auto)
  then show "\<not> corrupted s3 ob'" using sv(6) by simp
  have pay: "{o_user ob'..<o_user ob' + n} \<subseteq> cells (payload_of ` insert ob' L)"
    using sv(3) by (intro range_sub_cells) (auto simp: payload_of_def)
  then show inv3: "impl_inv full os s3 (insert ob' L)" unfolding s3_def
    by (intro impl_user_write [OF sv(1)] out) blast
  have "cells (payload_of ` insert ob' L) \<subseteq> cells (snd ` block_of ` insert ob' L)"
    using payload_cells [of "insert ob' L"] impl_invD(4) [OF sv(1)] by blast
  then have "foreign_same s2 s3" unfolding s3_def using pay
    by (intro write_foreign [OF impl_invD(3) [OF sv(1)]] out) blast
  then show "foreign_same s s3"
    using foreign_same_trans step_foreign [OF sv(5) impl_invD(3) [OF assms(1)] impl_invD(3) [OF sv(1)]] by blast
  show other: "mem (world s3) x = mem (world s) x"
    if "ob'' \<in> L" "o_start ob'' \<le> x" "x < o_start ob'' + o_cap ob''" for ob'' x
  proof -
    have "apart (o_start ob', o_cap ob') (o_start ob'', o_cap ob'')"
      using blocks_apart [OF sv(1), of ob' ob''] that(1) sv(2) by blast
    then have "x \<notin> {o_user ob'..<o_user ob' + n}" using payload_sub_block [OF wf] that sv(3) by fastforce
    then show ?thesis using out step_keeps_block [OF sv(5) that] by (simp add: s3_def)
  qed
  show "mem (world s3) (o_user ob' + i) = mem (world s) (o_user ob + i)" if "i < min (o_size ob) n"
  proof -
    note w = obj_wfD [OF impl_invD(4) [OF assms(1,2)]]
    have "mem (world s2) (o_user ob + i) = mem (world s) (o_user ob + i)"
      by (rule step_keeps_block [OF sv(5) assms(2)]) (use w(9,10) that in auto)
    then show ?thesis using that by (simp add: s3_def memcpy_def)
  qed
qed

lemma reallocate_ok:
  fixes n :: nat and c c' :: caller
  assumes "impl_inv full os s L" "ob \<in> L" "enableLeakTracking (config s) \<longrightarrow> isTracked (o_user ob) (debug s)"
    "full \<longrightarrow> liveRoom c" "0 < n"
  defines "r \<equiv> AllocatorImpl_reallocate os c c' (o_user ob) n s"
  obtains (too_big) "kMaxRequest < n" "r = fail_with SizeOverflow 0 s"
    | (oom) s1 where "n \<le> kMaxRequest" "refused full os L s r s1"
    | (aborted) s1 where "corrupted s ob" "abortOnError (config s)" "r = Aborts s1"
    | (moved) ob' s' where "n \<le> kMaxRequest" "r = Returns (Inr (o_user ob')) s'" "ob' \<notin> L" "o_size ob' = n"
        "impl_inv full os s' (insert ob' (L - {ob}))" "config s' = config s"
        "\<forall>i < min (o_size ob) n. mem (world s') (o_user ob' + i) = mem (world s) (o_user ob + i)"
        "\<forall>x \<in> cells (snd ` block_of ` (L - {ob})). mem (world s') x = mem (world s) x" "foreign_same s s'" "\<not> corrupted s' ob'"
proof -
  note lh = live_header [OF assms(1,2)] and w = obj_wfD [OF impl_invD(4) [OF assms(1,2)]]
  have run: "r = and_then (AllocatorImpl_allocate os c n s) (\<lambda>fresh s2. case fresh of
        Inl error \<Rightarrow> Returns (Inl error) s2
      | Inr q \<Rightarrow> and_then (AllocatorImpl_deallocate os c' (o_user ob) (on_mem (memcpy q (o_user ob) (min (o_size ob) n)) s2))
          (\<lambda>released s3. case released of Inl error \<Rightarrow> Returns (Inl error) s3 | Inr _ \<Rightarrow> Returns (Inr q) s3))"
    using lh(2) assms(5) allocationSize_live [OF assms(1-3)] w(7) by (simp add: r_def AllocatorImpl_reallocate_def)
  have err: "and_then (fail_with e p s0) (\<lambda>fresh s2. case fresh of Inl error \<Rightarrow> Returns (Inl error) s2 | Inr q \<Rightarrow> f q s2) = fail_with e p s0"
    for e p s0 and f :: "addr \<Rightarrow> AllocatorImpl \<Rightarrow> addr result" by (simp add: fail_with_eq)
  have n: "(if n = 0 then 1 else n) = n" using assms(5) by simp
  from assms(1,4) show thesis
  proof (cases rule: allocate_ok [where request = n and c = c])
    case too_big
    then show thesis using that(1) run err n by simp
  next
    case (oom s1)
    then show thesis using that(2) [of s1] run err n by (simp add: refused_def)
  next
    case (object ob' s2)
    have sv: "served full os c n L s (AllocatorImpl_allocate os c n s) ob' s2" "n \<le> kMaxRequest" using object n by simp_all
    let ?s3 = "on_mem (memcpy (o_user ob') (o_user ob) (min (o_size ob) n)) s2"
    note cp = resize_copy [OF assms(1,2) sv(1)]
    have al: "AllocatorImpl_allocate os c n s = Returns (Inr (o_user ob')) s2" "o_size ob' = n"
      "debug s2 = (if enableLeakTracking (config s) then track (liveRoom c) (o_user ob') n (debug s) else debug s)"
      using sv(1) by (simp_all add: served_def)
    have ne: "ob' \<noteq> ob" using cp(2) assms(2) by blast
    have ob: "ob \<in> insert ob' L" using assms(2) by simp
    have tr: "enableLeakTracking (config ?s3) \<longrightarrow> isTracked (o_user ob) (debug ?s3)"
      using assms(3) al(3) cp(3) by (auto simp: isTracked_map_of live_track)
    have cor: "corrupted ?s3 ob \<longleftrightarrow> corrupted s ob"
      by (rule corrupted_cong [OF impl_invD(4) [OF assms(1,2)] cp(3)]) (rule cp(5) [OF assms(2)])
    from cp(1) ob tr show thesis
    proof (cases rule: deallocate_ok [where c = c'])
      case aborted
      then show thesis using that(3) run al(1) cor cp(3) by simp
    next
      case (released s')
      have L: "insert ob' L - {ob} = insert ob' (L - {ob})" using ne by auto
      have keep: "mem (world s') x = mem (world ?s3) x"
        if "oc \<in> insert ob' (L - {ob})" "o_start oc \<le> x" "x < o_start oc + o_cap oc" for oc x
        using step_keeps_block [OF released(6) [unfolded L] that] .
      have wf': "obj_wf ob'" using impl_invD(4) [OF cp(1)] by blast
      have copy: "mem (world s') (o_user ob' + i) = mem (world s) (o_user ob + i)" if "i < min (o_size ob) n" for i
        using keep [of ob' "o_user ob' + i"] cp(4) [OF that] obj_wfD(9,10) [OF wf'] al(2) that by simp
      have data: "mem (world s') x = mem (world s) x" if "x \<in> cells (snd ` block_of ` (L - {ob}))" for x
      proof -
        obtain oc where oc: "oc \<in> L - {ob}" "o_start oc \<le> x" "x < o_start oc + o_cap oc"
          using \<open>x \<in> cells _\<close> by (fastforce simp: cells_iff block_of_def)
        then show ?thesis using keep [of oc x] cp(5) [of oc x] by simp
      qed
      have "corrupted s' ob' \<longleftrightarrow> corrupted ?s3 ob'"
        by (rule corrupted_cong [OF wf']) (use keep [of ob'] released(4) in auto)
      then have "\<not> corrupted s' ob'" using cp(7) by simp
      moreover have "foreign_same s s'"
        by (rule foreign_same_trans [OF cp(6) step_foreign [OF released(6) impl_invD(3) [OF cp(1)] impl_invD(3) [OF released(3)]]])
      ultimately show thesis
        by (intro that(4) [OF sv(2), of ob' s'])
          (use run al(1,2) released(2-4) cp(2,3) copy data L in auto)
    qed
  qed
qed

end
