(* ===== verification/AllocatorReach.thy ===== *)
theory AllocatorReach
  imports AllocatorRelease
begin

text \<open>
  All a program can do with an allocator: any of its threads allocates, with or without alignment,
  resizes and releases live pointers, writes into live payloads, passes pointers that are not live
  to an allocator that tracks its allocations, prints for itself, or ends.  Every state reached this way satisfies the
  invariant, holds exactly the allocations the program believes to hold, and has left all memory
  that was mapped before alone.
\<close>

section \<open>The end of a thread and construction\<close>

lemma tiers_threadExit:
  assumes "tiers_ok os s R"
  obtains s' where "AllocatorImpl_threadExit t s = Some s'" "tiers_ok os s' R" "same_rest s s'"
    "tier_step (snd ` R) (world s) (regs_of s) (world s') (regs_of s')"
proof -
  have inv: "pair_inv small_regs wide_regs (small_inv os) (wide_inv os) (world s)
      ((poolAllocator s, tlsCaches s), segmentHeap s, largeAllocator s) R"
    using assms by (simp add: central_inv_def central_of_def)
  note d = central.invD [OF inv]
  obtain M' pools' where e: "threadExit t (world s) (poolAllocator s, tlsCaches s) = Some (M', pools', (tlsCaches s)(t := None))"
    "small_inv os M' (pools', (tlsCaches s)(t := None)) (part1 R)"
    "tier_step (snd ` part1 R) (world s) (pool_regs (poolAllocator s)) M' (pool_regs pools')"
    using threadExit_inv [OF d(1), of t] by blast
  let ?st = "((pools', (tlsCaches s)(t := None)), segmentHeap s, largeAllocator s)"
  have step: "tier_step (snd ` part1 R) (world s) (small_regs (poolAllocator s, tlsCaches s)) M' (small_regs (pools', (tlsCaches s)(t := None)))"
    using e(3) by (simp add: small_regs_def)
  note s1 = central.step1 [OF inv e(2) step]
  have "AllocatorImpl_threadExit t s = Some (set_central M' ?st s)"
    using e(1) by (simp add: AllocatorImpl_threadExit_def set_central_def)
  moreover have "central_inv os M' ?st R" using e(2) s1(1,2) by (simp add: central_inv_def pair_inv_def)
  moreover have "tier_step (snd ` R) (world s) (regs_of s) M' (central_regs ?st)"
    using s1(3) snd_parts [of R] by (simp add: central_regs_def central_of_def)
  ultimately show thesis using that [of "set_central M' ?st s"] by simp
qed

lemma make_simps [simp]:
  "config (AllocatorImpl_make cfg tls M) = cfg" "world (AllocatorImpl_make cfg tls M) = M"
  "regs_of (AllocatorImpl_make cfg tls M) = []" "debug (AllocatorImpl_make cfg tls M) = DebugLayer_init"
  "stats (AllocatorImpl_make cfg tls M) = StatisticsCollector_init" "events (AllocatorImpl_make cfg tls M) = []"
  by (simp_all add: AllocatorImpl_make_def central_of_def central_regs_def pair_regs_def small_regs_def pool_regs_def
      PoolAllocator_init_def Shard_init_def SegmentHeap_init_def LargeAllocator_init_def large_regs_def)

lemma make_inv:
  assumes "os_ok os" "machine_ok M" "all_expired tls"
  shows "impl_inv full os (AllocatorImpl_make cfg tls M) {}"
proof -
  let ?s = "AllocatorImpl_make cfg tls M"
  have "tiers_ok os ?s {}"
    using small_init_inv [OF assms] SegmentHeap_init_inv [OF assms(1,2)] LargeAllocator_init_inv [OF assms(1,2)]
    by (simp add: AllocatorImpl_make_def central_of_def central_inv_def pair_inv_def small_regs_def pool_regs_def
        pair_regs_def PoolAllocator_init_def Shard_init_def SegmentHeap_init_def LargeAllocator_init_def large_regs_def)
  then show ?thesis using registry_init
    by (simp add: impl_inv_def counters_ok_def registered_def StatisticsCollector_init_def DebugLayer_init_def)
qed

section \<open>Programs\<close>

text \<open>
  \<open>A\<close> is what the program believes to hold: pointers with the sizes asked for.  With \<open>full\<close>, the host
  heap never refuses the registry an entry.
\<close>

definition asked :: "nat \<Rightarrow> nat" where
  "asked n = (if n = 0 then 1 else n)"

inductive impl_reach ::
    "bool \<Rightarrow> os \<Rightarrow> AllocatorConfig \<Rightarrow> tls \<Rightarrow> machine \<Rightarrow> AllocatorImpl \<Rightarrow> region set \<Rightarrow> bool"
  for full os cfg tls0 M0 where
  make: "impl_reach full os cfg tls0 M0 (AllocatorImpl_make cfg tls0 M0) {}"
| allocated: "impl_reach full os cfg tls0 M0 s A \<Longrightarrow> (full \<longrightarrow> liveRoom c) \<Longrightarrow>
    AllocatorImpl_allocate os c n s = Returns (Inr p) s' \<Longrightarrow>
    impl_reach full os cfg tls0 M0 s' (insert (p, asked n) A)"
| not_allocated: "impl_reach full os cfg tls0 M0 s A \<Longrightarrow> (full \<longrightarrow> liveRoom c) \<Longrightarrow>
    AllocatorImpl_allocate os c n s = Returns (Inl e) s' \<Longrightarrow> impl_reach full os cfg tls0 M0 s' A"
| aligned: "impl_reach full os cfg tls0 M0 s A \<Longrightarrow> (full \<longrightarrow> liveRoom c) \<Longrightarrow>
    AllocatorImpl_alignedAllocate os c al n s = Returns (Inr p) s' \<Longrightarrow>
    impl_reach full os cfg tls0 M0 s' (insert (p, asked n) A)"
| not_aligned: "impl_reach full os cfg tls0 M0 s A \<Longrightarrow> (full \<longrightarrow> liveRoom c) \<Longrightarrow>
    AllocatorImpl_alignedAllocate os c al n s = Returns (Inl e) s' \<Longrightarrow> impl_reach full os cfg tls0 M0 s' A"
| released: "impl_reach full os cfg tls0 M0 s A \<Longrightarrow> (p, n) \<in> A \<Longrightarrow>
    AllocatorImpl_deallocate os c p s = Returns (Inr ()) s' \<Longrightarrow> impl_reach full os cfg tls0 M0 s' (A - {(p, n)})"
| resized: "impl_reach full os cfg tls0 M0 s A \<Longrightarrow> (p, k) \<in> A \<Longrightarrow> (full \<longrightarrow> liveRoom c) \<Longrightarrow> 0 < n \<Longrightarrow>
    AllocatorImpl_reallocate os c c' p n s = Returns (Inr q) s' \<Longrightarrow>
    impl_reach full os cfg tls0 M0 s' (insert (q, n) (A - {(p, k)}))"
| not_resized: "impl_reach full os cfg tls0 M0 s A \<Longrightarrow> (p, k) \<in> A \<Longrightarrow> (full \<longrightarrow> liveRoom c) \<Longrightarrow> 0 < n \<Longrightarrow>
    AllocatorImpl_reallocate os c c' p n s = Returns (Inl e) s' \<Longrightarrow> impl_reach full os cfg tls0 M0 s' A"
| rejected: "impl_reach full os cfg tls0 M0 s A \<Longrightarrow> enableLeakTracking cfg \<Longrightarrow> \<not> isTracked p (debug s) \<Longrightarrow>
    AllocatorImpl_deallocate os c p s = Returns r s' \<Longrightarrow> impl_reach full os cfg tls0 M0 s' A"
| thread_exit: "impl_reach full os cfg tls0 M0 s A \<Longrightarrow> AllocatorImpl_threadExit t s = Some s' \<Longrightarrow>
    impl_reach full os cfg tls0 M0 s' A"
| user_write: "impl_reach full os cfg tls0 M0 s A \<Longrightarrow>
    (\<forall>x. x \<notin> cells A \<longrightarrow> f (mem (world s)) x = mem (world s) x) \<Longrightarrow> impl_reach full os cfg tls0 M0 (on_mem f s) A"
| other_output: "impl_reach full os cfg tls0 M0 s A \<Longrightarrow> impl_reach full os cfg tls0 M0 (s\<lparr>events := events s @ es\<rparr>) A"

text \<open>What holds in every reachable state, for some set of allocations behind \<open>A\<close>.\<close>

definition holds :: "bool \<Rightarrow> os \<Rightarrow> AllocatorConfig \<Rightarrow> machine \<Rightarrow> AllocatorImpl \<Rightarrow> region set \<Rightarrow> obj set \<Rightarrow> bool" where
  "holds full os cfg M0 s A L \<longleftrightarrow> impl_inv full os s L \<and> payload_of ` L = A \<and> config s = cfg \<and>
     set (mapped (world s)) - set (regs_of s) = set (mapped M0) \<and> (\<forall>x \<in> mapped_cells M0. mem (world s) x = mem M0 x) \<and>
     (\<forall>ob \<in> L. \<not> corrupted s ob)"

text \<open>Guards that no step writes on stay intact.\<close>

lemma intact_keep:
  assumes "holds full os cfg M0 s A L" "L' \<subseteq> L" "config s' = config s"
    "\<forall>x \<in> cells (snd ` block_of ` L'). mem (world s') x = mem (world s) x"
  shows "\<forall>ob \<in> L'. \<not> corrupted s' ob"
proof
  fix ob assume ob: "ob \<in> L'"
  have inv: "impl_inv full os s L" "\<not> corrupted s ob" using assms(1,2) ob by (auto simp: holds_def)
  have "corrupted s' ob \<longleftrightarrow> corrupted s ob"
  proof (rule corrupted_cong [OF impl_invD(4) [OF inv(1)] assms(3)])
    fix x assume "o_start ob \<le> x" "x < o_start ob + o_cap ob"
    then have "x \<in> cells (snd ` block_of ` L')" using ob
      by (intro cellsI [of "o_start ob" "o_cap ob"]) (force simp: block_of_def)+
    then show "mem (world s') x = mem (world s) x" using assms(4) by blast
  qed (use ob assms(2) in blast)
  then show "\<not> corrupted s' ob" using inv(2) by simp
qed

lemma intact_step:
  assumes "holds full os cfg M0 s A L" "L' \<subseteq> L" "config s' = config s"
    "tier_step (snd ` block_of ` L') (world s) rs (world s') rs'"
  shows "\<forall>ob \<in> L'. \<not> corrupted s' ob"
  by (rule intact_keep [OF assms(1-3)]) (use tier_step_memD [OF assms(4)] in blast)

lemma holds_step:
  assumes "holds full os cfg M0 s A L" "impl_inv full os s' L'" "payload_of ` L' = A'" "config s' = config s" "foreign_same s s'"
    "\<forall>ob \<in> L'. \<not> corrupted s' ob"
  shows "holds full os cfg M0 s' A' L'"
  using assms by (simp add: holds_def foreign_same_def mapped_cells_def)

lemma served_foreign: "impl_inv full os s L \<Longrightarrow> served full os c n L s r ob s' \<Longrightarrow> foreign_same s s'"
  unfolding served_def by (blast intro: step_foreign dest: impl_invD(3))

lemma refused_foreign: "impl_inv full os s L \<Longrightarrow> refused full os L s r s' \<Longrightarrow> foreign_same s s'"
  unfolding refused_def by (blast intro: step_foreign dest: impl_invD(3))

lemma holds_served:
  assumes "holds full os cfg M0 s A L" "served full os c n L s r ob s'"
  shows "holds full os cfg M0 s' (insert (o_user ob, n) A) (insert ob L)"
proof (rule holds_step [OF assms(1)])
  have inv: "impl_inv full os s L" using assms(1) by (simp add: holds_def)
  show "foreign_same s s'" by (rule served_foreign [OF inv assms(2)])
  show "payload_of ` insert ob L = insert (o_user ob, n) A" using assms by (auto simp: holds_def served_def payload_of_def)
  show "\<forall>ob \<in> insert ob L. \<not> corrupted s' ob"
    using intact_step [OF assms(1) subset_refl] assms(2) by (auto simp: served_def)
qed (use assms(2) in \<open>auto simp: served_def\<close>)

text \<open>An error that is only reported.\<close>

lemma holds_failed:
  assumes "holds full os cfg M0 s A L" "fail_with e p s = Returns r s'"
  shows "holds full os cfg M0 s' A L"
proof -
  have "s' = s\<lparr>events := events s @ [error_event s e p]\<rparr>" using assms(2) by (simp add: fail_with_eq split: if_splits)
  then show ?thesis using assms(1) by (simp add: holds_def central_of_def corrupted_def)
qed

lemma holds_refused:
  assumes "holds full os cfg M0 s A L" "refused full os L s r s1" "r = Returns q s'"
  shows "holds full os cfg M0 s' A L"
proof -
  have inv: "impl_inv full os s L" using assms(1) by (simp add: holds_def)
  have r: "impl_inv full os s1 L" "config s1 = config s" "fail_with OutOfMemory 0 s1 = Returns q s'"
    using assms(2,3) by (auto simp: refused_def same_rest_def)
  have "holds full os cfg M0 s1 A L"
    by (rule holds_step [OF assms(1) r(1) _ r(2) refused_foreign [OF inv assms(2)]])
      (use assms(1) intact_step [OF assms(1) subset_refl r(2)] assms(2) in \<open>auto simp: holds_def refused_def\<close>)
  then show ?thesis using r(3) by (rule holds_failed)
qed

text \<open>\<open>refused\<close> and \<open>fail_with\<close> never return a pointer, \<open>served\<close> never an error.\<close>

lemma fail_not_Inr [simp]: "fail_with e p s \<noteq> Returns (Inr x) s'"
  by (simp add: fail_with_eq)

lemma refused_Inl: "refused full os L s (Returns (Inr p) s') s1 \<Longrightarrow> False"
  by (metis fail_not_Inr refused_def)

lemma live_object:
  assumes "holds full os cfg M0 s A L" "(p, n) \<in> A"
  obtains ob where "ob \<in> L" "o_user ob = p" "o_size ob = n"
  using assms by (auto simp: holds_def payload_of_def)

lemma payload_remove:
  assumes "holds full os cfg M0 s A L" "ob \<in> L"
  shows "payload_of ` (L - {ob}) = A - {payload_of ob}"
proof -
  have inv: "impl_inv full os s L" using assms(1) by (simp add: holds_def)
  have "inj_on payload_of L" by (rule inj_onI) (use payloads_apart(2) [OF inv] in \<open>auto simp: payload_of_def\<close>)
  then show ?thesis using inj_on_image_set_diff [of payload_of L L "{ob}"] assms by (simp add: holds_def)
qed

text \<open>The rest of a block is payload of no allocation.\<close>

lemma guards_off_payloads:
  assumes "impl_inv full os s L" "ob \<in> L" "o_start ob \<le> x" "x < o_start ob + o_cap ob" "x \<notin> {o_user ob..<o_user ob + o_size ob}"
  shows "x \<notin> cells (payload_of ` L)"
proof
  assume "x \<in> cells (payload_of ` L)"
  then obtain ob' where o': "ob' \<in> L" "x \<in> {o_user ob'..<o_user ob' + o_size ob'}" by (auto simp: cells_iff payload_of_def)
  then have "o_start ob' \<le> x" "x < o_start ob' + o_cap ob'" using payload_sub_block [OF impl_invD(4) [OF assms(1) o'(1)]] by auto
  moreover have "ob \<noteq> ob'" using o'(2) assms(5) by blast
  ultimately show False using blocks_apart [OF assms(1,2) o'(1)] assms(3,4) by auto
qed

section \<open>Every operation keeps what holds\<close>

definition gained :: "Error + addr \<Rightarrow> nat \<Rightarrow> region set \<Rightarrow> region set" where
  "gained r n A = (case r of Inl _ \<Rightarrow> A | Inr p \<Rightarrow> insert (p, asked n) A)"

lemma gained_failed:
  assumes "holds full os cfg M0 s A L" "fail_with e p s = Returns r s'"
  shows "\<exists>L'. holds full os cfg M0 s' (gained r n A) L'"
proof -
  have "r = Inl e" using assms(2) by (simp add: fail_with_eq split: if_splits)
  then show ?thesis using holds_failed [OF assms] by (auto simp: gained_def)
qed

lemma gained_refused:
  assumes "holds full os cfg M0 s A L" "refused full os L s q s1" "q = Returns r s'"
  shows "\<exists>L'. holds full os cfg M0 s' (gained r n A) L'"
proof -
  have "fail_with OutOfMemory 0 s1 = Returns r s'" using assms(2,3) by (simp add: refused_def)
  then have "r = Inl OutOfMemory" by (simp add: fail_with_eq split: if_splits)
  then show ?thesis using holds_refused [OF assms] by (auto simp: gained_def)
qed

lemma holds_allocate:
  assumes "holds full os cfg M0 s A L" "full \<longrightarrow> liveRoom c" "AllocatorImpl_allocate os c n s = Returns r s'"
  shows "\<exists>L'. holds full os cfg M0 s' (gained r n A) L'"
proof -
  have inv: "impl_inv full os s L" using assms(1) by (simp add: holds_def)
  from inv assms(2) show ?thesis
  proof (cases rule: allocate_ok [where request = n and c = c])
    case too_big
    then show ?thesis using gained_failed [OF assms(1)] assms(3) by simp
  next
    case (oom s1)
    show ?thesis using gained_refused [OF assms(1) oom(2) assms(3)] .
  next
    case (object ob s2)
    then have "r = Inr (o_user ob)" "s' = s2" using assms(3) by (auto simp: served_def)
    then show ?thesis using holds_served [OF assms(1) object(2)] by (auto simp: gained_def asked_def)
  qed
qed

lemma holds_alignedAllocate:
  assumes "holds full os cfg M0 s A L" "full \<longrightarrow> liveRoom c" "AllocatorImpl_alignedAllocate os c al n s = Returns r s'"
  shows "\<exists>L'. holds full os cfg M0 s' (gained r n A) L'"
proof -
  have inv: "impl_inv full os s L" using assms(1) by (simp add: holds_def)
  from inv assms(2) show ?thesis
  proof (cases rule: alignedAllocate_ok [where request = n and c = c and al = al])
    case bad
    then show ?thesis using gained_failed [OF assms(1)] assms(3) by simp
  next
    case too_big
    then show ?thesis using gained_failed [OF assms(1)] assms(3) by simp
  next
    case (oom s1)
    show ?thesis using gained_refused [OF assms(1) oom(4) assms(3)] .
  next
    case (object ob s2)
    then have "r = Inr (o_user ob)" "s' = s2" using assms(3) by (auto simp: served_def)
    then show ?thesis using holds_served [OF assms(1) object(4)] by (auto simp: gained_def asked_def)
  qed
qed

lemma untracked_deallocate:
  assumes "enableLeakTracking (config s)" "\<not> isTracked p (debug s)" "p \<noteq> 0"
  shows "AllocatorImpl_deallocate os c p s = fail_with (if wasFreed p (debug s) then DoubleFree else InvalidPointer) p s"
  using assms by (simp add: AllocatorImpl_deallocate_def)

lemma untracked_reallocate:
  assumes "enableLeakTracking (config s)" "\<not> isTracked p (debug s)" "p \<noteq> 0" "0 < n"
  shows "AllocatorImpl_reallocate os c c' p n s = fail_with InvalidPointer p s"
  using assms by (simp add: AllocatorImpl_reallocate_def AllocatorImpl_allocationSize_def)

lemma holds_deallocate:
  assumes "holds full os cfg M0 s A L" "(p, n) \<in> A" "AllocatorImpl_deallocate os c p s = Returns (Inr ()) s'"
  shows "\<exists>L'. holds full os cfg M0 s' (A - {(p, n)}) L'"
proof -
  have inv: "impl_inv full os s L" using assms(1) by (simp add: holds_def)
  obtain ob where ob: "ob \<in> L" "o_user ob = p" "o_size ob = n" using live_object [OF assms(1,2)] .
  have "enableLeakTracking (config s) \<longrightarrow> isTracked (o_user ob) (debug s)"
    using untracked_deallocate [of s p os c] live_header(2) [OF inv ob(1)] assms(3) ob(2) fail_not_Inr by metis
  with inv ob(1) show ?thesis
  proof (cases rule: deallocate_ok [where c = c])
    case aborted
    then show ?thesis using assms(3) ob(2) by simp
  next
    case (released s1)
    then have s1: "s1 = s'" using assms(3) ob(2) by simp
    have "holds full os cfg M0 s' (A - {(p, n)}) (L - {ob})"
      by (rule holds_step [OF assms(1)])
        (use released s1 intact_step [OF assms(1) Diff_subset released(4,6)] payload_remove [OF assms(1) ob(1)] ob
          step_foreign [OF released(6) impl_invD(3) [OF inv] impl_invD(3) [OF released(3)]] in \<open>auto simp: payload_of_def\<close>)
    then show ?thesis by blast
  qed
qed

lemma holds_reallocate:
  assumes "holds full os cfg M0 s A L" "(p, k) \<in> A" "full \<longrightarrow> liveRoom c" "0 < n"
    "AllocatorImpl_reallocate os c c' p n s = Returns r s'"
  shows "\<exists>L'. holds full os cfg M0 s' (case r of Inl _ \<Rightarrow> A | Inr q \<Rightarrow> insert (q, n) (A - {(p, k)})) L'"
proof -
  have inv: "impl_inv full os s L" using assms(1) by (simp add: holds_def)
  obtain ob where ob: "ob \<in> L" "o_user ob = p" "o_size ob = k" using live_object [OF assms(1,2)] .
  have fail: "\<exists>e. r = Inl e" if "fail_with e q s2 = Returns r s'" for e q s2
    using that by (auto simp: fail_with_eq split: if_splits)
  show ?thesis
  proof (cases "enableLeakTracking (config s) \<longrightarrow> isTracked (o_user ob) (debug s)")
    case False
    then have "fail_with InvalidPointer p s = Returns r s'"
      using untracked_reallocate [of s p n os c c'] live_header(2) [OF inv ob(1)] assms(4,5) ob(2) by auto
    from fail [OF this] holds_failed [OF assms(1) this] show ?thesis by auto
  next
    case True
    from inv ob(1) True assms(3,4) show ?thesis
    proof (cases rule: reallocate_ok [where c = c and c' = c'])
      case too_big
      then have "fail_with SizeOverflow 0 s = Returns r s'" using assms(5) ob(2) by simp
      from fail [OF this] holds_failed [OF assms(1) this] show ?thesis by auto
    next
      case (oom s1)
      then have "fail_with OutOfMemory 0 s1 = Returns r s'" using assms(5) ob(2) by (simp add: refused_def)
      from fail [OF this] holds_refused [OF assms(1) oom(2), of r s'] assms(5) ob(2) show ?thesis by auto
    next
      case (aborted s1)
      then show ?thesis using assms(5) ob(2) by simp
    next
      case (moved ob' s1)
      then have r: "r = Inr (o_user ob')" "s1 = s'" using assms(5) ob(2) by auto
      have "holds full os cfg M0 s' (insert (o_user ob', n) (A - {(p, k)})) (insert ob' (L - {ob}))"
        by (rule holds_step [OF assms(1)])
          (use moved r payload_remove [OF assms(1) ob(1)] ob intact_keep [OF assms(1) Diff_subset moved(6,8)] in \<open>auto simp: payload_of_def\<close>)
      then show ?thesis using r(1) by auto
    qed
  qed
qed

lemma impl_reach_holds:
  assumes "impl_reach full os cfg tls0 M0 s A" "os_ok os" "machine_ok M0" "all_expired tls0"
  shows "\<exists>L. holds full os cfg M0 s A L"
  using assms(1)
proof (induction rule: impl_reach.induct)
  case make
  then show ?case using make_inv [OF assms(2-4)] by (auto simp: holds_def)
next
  case (allocated s A c n p s')
  then obtain L where "holds full os cfg M0 s A L" by blast
  from holds_allocate [OF this allocated.hyps(2,3)] show ?case by (simp add: gained_def)
next
  case (not_allocated s A c n e s')
  then obtain L where "holds full os cfg M0 s A L" by blast
  from holds_allocate [OF this not_allocated.hyps(2,3)] show ?case by (simp add: gained_def)
next
  case (aligned s A c al n p s')
  then obtain L where "holds full os cfg M0 s A L" by blast
  from holds_alignedAllocate [OF this aligned.hyps(2,3)] show ?case by (simp add: gained_def)
next
  case (not_aligned s A c al n e s')
  then obtain L where "holds full os cfg M0 s A L" by blast
  from holds_alignedAllocate [OF this not_aligned.hyps(2,3)] show ?case by (simp add: gained_def)
next
  case (released s A p n c s')
  then show ?case using holds_deallocate by blast
next
  case (resized s A p k c n c' q s')
  then obtain L where "holds full os cfg M0 s A L" by blast
  from holds_reallocate [OF this resized.hyps(2-5)] show ?case by simp
next
  case (not_resized s A p k c n c' e s')
  then obtain L where "holds full os cfg M0 s A L" by blast
  from holds_reallocate [OF this not_resized.hyps(2-5)] show ?case by simp
next
  case (rejected s A p c r s')
  then obtain L where L: "holds full os cfg M0 s A L" by blast
  then have cfg: "enableLeakTracking (config s)" using rejected.hyps(2) by (simp add: holds_def)
  show ?case
  proof (cases "p = 0")
    case True
    then show ?thesis using rejected.hyps(4) L by (auto simp: AllocatorImpl_deallocate_def)
  next
    case False
    then show ?thesis using untracked_deallocate [OF cfg rejected.hyps(3) False, of os c] rejected.hyps(4) holds_failed [OF L] by metis
  qed
next
  case (thread_exit s A t s')
  then obtain L where L: "holds full os cfg M0 s A L" by blast
  then have inv: "impl_inv full os s L" by (simp add: holds_def)
  obtain s1 where e: "AllocatorImpl_threadExit t s = Some s1" "tiers_ok os s1 (block_of ` L)" "same_rest s s1"
    "tier_step (snd ` block_of ` L) (world s) (regs_of s) (world s1) (regs_of s1)"
    using tiers_threadExit [OF impl_invD(3) [OF inv]] .
  have "s1 = s'" using e(1) thread_exit.hyps(2) by simp
  moreover have "holds full os cfg M0 s1 A L"
    by (rule holds_step [OF L impl_inv_step [OF inv e(2-4)]])
      (use L e(3) intact_step [OF L subset_refl _ e(4)] step_foreign [OF e(4) impl_invD(3) [OF inv] e(2)] in \<open>auto simp: holds_def same_rest_def\<close>)
  ultimately show ?case by blast
next
  case (user_write s A f)
  then obtain L where L: "holds full os cfg M0 s A L" by blast
  then have inv: "impl_inv full os s L" and A: "payload_of ` L = A" by (simp_all add: holds_def)
  have f: "f (mem (world s)) x = mem (world s) x" if "x \<notin> cells (payload_of ` L)" for x using user_write.hyps(2) that A by blast
  have sub: "cells (payload_of ` L) \<subseteq> cells (snd ` block_of ` L)" using payload_cells impl_invD(4) [OF inv] by blast
  have fs: "foreign_same s (on_mem f s)" by (rule write_foreign [OF impl_invD(3) [OF inv]]) (use f sub in blast)
  have "impl_inv full os (on_mem f s) L" by (rule impl_user_write [OF inv]) (use f in blast)
  moreover have "\<not> corrupted (on_mem f s) ob" if ob: "ob \<in> L" for ob
  proof -
    have "corrupted (on_mem f s) ob \<longleftrightarrow> corrupted s ob"
      by (rule corrupted_cong [OF impl_invD(4) [OF inv ob]]) (use f guards_off_payloads [OF inv ob] in auto)
    then show ?thesis using L ob by (simp add: holds_def)
  qed
  ultimately show ?case using holds_step [OF L _ A _ fs] by auto
next
  case (other_output s A es)
  then obtain L where "holds full os cfg M0 s A L" by blast
  then show ?case by (auto simp: holds_def central_of_def corrupted_def)
qed

end
