(* ===== verification/OutOfMemory.thy ===== *)
theory OutOfMemory
  imports AllocatorTiers
begin

text \<open>
  Why an allocation fails.  Each tier gives null only when the operating system refuses it a mapping
  at that moment, and then one no larger than the tier needs; an allocator that gives up while there
  is memory would break this.
\<close>

definition os_refuses :: "os \<Rightarrow> nat \<Rightarrow> machine \<Rightarrow> bool" where
  "os_refuses os bound M \<longleftrightarrow> (\<exists>sz. 0 < sz \<and> sz \<le> bound \<and> fst (os_mmap os M (roundToPages os sz)) = None)"

lemma os_refusesI:
  assumes "os_ok os" "0 < sz" "sz \<le> bound" "bound + os_page os < size_max" "\<not> MappedRegion_valid (fst (MappedRegion_make os sz M))"
  shows "os_refuses os bound M"
proof -
  have "sz + os_page os < size_max" using assms(3,4) by simp
  from roundToPages_bounds [OF assms(1) this] have "roundToPages os sz \<noteq> 0" using assms(2) by auto
  then have "fst (os_mmap os M (roundToPages os sz)) = None"
    using assms(2,5) by (auto simp: MappedRegion_make_def SystemMemory_map_def MappedRegion_valid_def Let_def split: prod.splits option.splits)
  then show ?thesis using assms(2,3) by (auto simp: os_refuses_def)
qed

lemma os_refuses_mono: "os_refuses os b M \<Longrightarrow> b \<le> b' \<Longrightarrow> os_refuses os b' M"
  unfolding os_refuses_def by (meson order_trans)

section \<open>Small blocks\<close>

lemma takeBlock_null:
  assumes "os_ok os" "machine_ok M" "takeBlock os stride M sh = (0, M', sh')"
  shows "os_refuses os kRunSize M"
proof -
  have "\<not> MappedRegion_valid (fst (MappedRegion_make os kRunSize M))"
  proof
    assume v: "MappedRegion_valid (fst (MappedRegion_make os kRunSize M))"
    then obtain p n M1 where m: "MappedRegion_make os kRunSize M = ((p, n), M1)" "n \<noteq> 0"
      by (cases "MappedRegion_make os kRunSize M") (auto simp: MappedRegion_valid_def)
    then have "0 < p" using assms(1,2)
      by (auto simp: MappedRegion_make_def SystemMemory_map_def os_ok_def Let_def split: prod.splits option.splits if_splits)
    then show False using assms(3) m
      by (auto simp: takeBlock_def refill_def bump_def MappedRegion_valid_def Let_def split: prod.splits if_splits)
  qed
  moreover have "kRunSize + os_page os < size_max" using os_page_bounds(2) [OF assms(1)] by (simp add: const_simps)
  ultimately show ?thesis using assms(1) by (intro os_refusesI [of os kRunSize]) (simp_all add: const_simps)
qed

lemma takeBatch_nonnull: "takeBatch os stride room M sh = (bs, M', sh') \<Longrightarrow> 0 \<notin> set bs"
  by (induction room arbitrary: M sh bs) (auto simp: Let_def split: prod.splits if_splits)

lemma takeBatch_null:
  assumes "os_ok os" "machine_ok M" "takeBatch os stride (Suc room) M sh = ([], M', sh')"
  shows "os_refuses os kRunSize M"
proof -
  obtain b M1 sh1 where t: "takeBlock os stride M sh = (b, M1, sh1)" by (cases "takeBlock os stride M sh")
  then have "b = 0" using assms(3) by (auto split: prod.splits if_splits)
  then show ?thesis using takeBlock_null [OF assms(1,2)] t by simp
qed

lemma smallAllocate_null:
  assumes "small_inv os M (pools, tls) R" "i < kClassCount"
    "smallAllocate os en t ok i M (pools, tls) = Some (0, M', pools', tls')"
  shows "os_refuses os kRunSize M"
proof -
  obtain r tls1 where tl: "threadCache en t ok tls = (r, tls1)" by (cases "threadCache en t ok tls")
  note same = threadCache_same [OF assms(1) tl]
  have core1: "core os M pools (cached tls1) R" using same(1) by (simp add: small_inv_def)
  note pinv = coreD(1) [OF core1]
  note P = pools_invD [OF pinv]
  show ?thesis
  proof (cases r)
    case None
    then have "\<exists>M1 sh1. takeBlock os (blockStride i) M (pools ! i) = (0, M1, sh1)"
      using assms(2,3) tl P(3) by (auto simp: smallAllocate_def PoolAllocator_allocateBlock_def Let_def bind_eq_Some_conv split: prod.splits)
    then show ?thesis using takeBlock_null [OF P(1,2)] by blast
  next
    case (Some tc)
    have tc: "tls1 t = Some tc" "\<not> expired tc" "cache_wf tc" using same(3) [OF Some] by auto
    have i: "i < length (caches tc)" "i < length pools" using tc(3) assms(2) P(3) by (simp_all add: cache_wf_def)
    obtain M2 pools2 tc2 where run: "ThreadCache_allocateBlock os i M pools tc = Some (0, M2, pools2, tc2)"
      using assms(3) tl Some by (auto simp: smallAllocate_def bind_eq_Some_conv)
    show ?thesis
    proof (cases "count (caches tc ! i) = 0")
      case True
      obtain bs M1 sh1 where b: "takeBatch os (blockStride i) kBatchSize M (pools ! i) = (bs, M1, sh1)"
        by (cases "takeBatch os (blockStride i) kBatchSize M (pools ! i)")
      have "bs = []"
      proof (rule ccontr)
        assume ne: "bs \<noteq> []"
        then have "bs ! (length bs - 1) \<in> set bs" by simp
        moreover have "bs ! (length bs - 1) = 0"
          using run True i b ne by (auto simp: ThreadCache_allocateBlock_def PoolAllocator_allocateBatch_def popSlot_def Let_def nth_append split: if_splits)
        ultimately show False using takeBatch_nonnull [OF b] by simp
      qed
      then show ?thesis using takeBatch_null [OF P(1,2), of "blockStride i" 15] b by (simp add: const_simps)
    next
      case False
      obtain tc' where pop: "popSlot i tc = (0, tc')"
        using run False i(1) by (auto simp: ThreadCache_allocateBlock_def Let_def split: prod.splits)
      have "0 \<in> set (tc_list tc i)" using popSlot_list(1) [OF tc(3) assms(2) tc(2) _ pop] False by auto
      then have "(i, 0, blockStride i) \<in> held_blocks (cached tls1)"
        using assms(2) tc(1) by (auto simp: held_blocks_iff cached_def intro!: exI [of _ t])
      then show ?thesis using outstanding_block(1) [OF pinv, of i 0 "blockStride i"] by simp
    qed
  qed
qed

section \<open>Extents and large regions\<close>

lemma addSegment_null:
  assumes "os_ok os" "\<not> fst (addSegment os M heap)"
  shows "os_refuses os kSegmentSize M"
proof (rule os_refusesI [OF assms(1), of kSegmentSize])
  show "kSegmentSize + os_page os < size_max" using os_page_bounds(2) [OF assms(1)] by (simp add: const_simps)
  show "\<not> MappedRegion_valid (fst (MappedRegion_make os kSegmentSize M))"
    using assms(2) by (auto simp: addSegment_def Let_def split: prod.splits if_splits)
qed (simp_all add: const_simps)

lemma SegmentHeap_allocate_null:
  assumes "seg_inv os M heap R" "n + 16 \<le> kSegmentSize" "SegmentHeap_allocate os n M heap = Some (0, M', heap')"
  shows "os_refuses os kSegmentSize M"
proof -
  have n: "n + 32 < size_max" using assms(2) by (simp add: const_simps)
  have ok: "os_ok os" using assms(1) by (simp add: seg_inv_def)
  from assms(1) n show ?thesis
  proof (cases rule: SegmentHeap_allocate_cases)
    case (null M1)
    then show ?thesis using needed_bounds(4) [OF n assms(2)] addSegment_null [OF ok] by auto
  next
    case (block p M1 heap1)
    then show ?thesis using assms(3) by (auto simp: handed_out_def Let_def)
  qed
qed

lemma LargeAllocator_allocate_null:
  assumes "os_ok os" "n \<le> 2 ^ 60" "LargeAllocator_allocate os n M large = (0, M', large')"
  shows "os_refuses os (n + 16) M"
proof (rule os_refusesI [OF assms(1), of "n + 16"])
  have eq: "size_add n kPayloadOffset = n + 16" using assms(2) by (simp add: const_simps)
  show "n + 16 + os_page os < size_max" using os_page_bounds(2) [OF assms(1)] assms(2) by (simp add: const_simps)
  show "\<not> MappedRegion_valid (fst (MappedRegion_make os (n + 16) M))"
    using assms(3) unfolding LargeAllocator_allocate_def eq
    by (auto simp: Let_def const_simps split: prod.splits if_splits option.splits)
qed simp_all

section \<open>The choice of a tier\<close>

lemma rawAllocate_null:
  assumes "tiers_ok os s R" "n \<le> 2 ^ 59" "rawAllocate os c n s = Returns (Inl e) s'"
  shows "os_refuses os (max kSegmentSize (n + 32)) (world s)"
proof -
  have inv: "small_inv os (world s) (poolAllocator s, tlsCaches s) (part1 R)"
    "wide_inv os (world s) (segmentHeap s, largeAllocator s) (part2 R)"
    using central.invD(1,2) [of os "world s" "(poolAllocator s, tlsCaches s)" "(segmentHeap s, largeAllocator s)" R] assms(1)
    by (simp_all add: central_inv_def central_of_def)
  have wide: "seg_inv os (world s) (segmentHeap s) (part1 (part2 R))"
    using wide.invD(1) [OF inv(2)] .
  then have ok: "os_ok os" by (simp add: seg_inv_def)
  show ?thesis
  proof (cases "n \<le> kSmallMax")
    case True
    obtain i where i: "classIndex n = Some i" "i < kClassCount"
      using classIndex_smallest [OF True] classIndex_SomeD(1) [OF True] by blast
    then obtain M1 pools1 tls1 where "smallAllocate os (enableThreadCache (config s)) (thread c) (cacheRoom c) i (world s)
        (poolAllocator s, tlsCaches s) = Some (0, M1, pools1, tls1)"
      using assms(3) True by (auto simp: rawAllocate_def Let_def split: option.splits if_splits)
    from smallAllocate_null [OF inv(1) i(2) this] show ?thesis by (rule os_refuses_mono) (simp add: const_simps)
  next
    case small: False
    show ?thesis
    proof (cases "n \<le> kMediumMax")
      case True
      then have eq: "size_add n kHeaderSize = n + 16" by (simp add: const_simps)
      obtain M1 h1 where "SegmentHeap_allocate os (n + 16) (world s) (segmentHeap s) = Some (0, M1, h1)"
        using assms(3) small True unfolding rawAllocate_def eq by (auto simp: Let_def split: option.splits if_splits)
      from SegmentHeap_allocate_null [OF wide _ this] True show ?thesis
        using os_refuses_mono [of os kSegmentSize] by (simp add: const_simps)
    next
      case False
      then have eq: "size_add n kHeaderSize = n + 16" using assms(2) by (simp add: const_simps)
      obtain M1 l1 where "LargeAllocator_allocate os (n + 16) (world s) (largeAllocator s) = (0, M1, l1)"
        using assms(3) small False unfolding rawAllocate_def eq by (auto simp: Let_def split: prod.splits if_splits)
      from LargeAllocator_allocate_null [OF ok _ this] assms(2) have "os_refuses os (n + 16 + 16) (world s)" by simp
      then show ?thesis by (rule os_refuses_mono) simp
    qed
  qed
qed

end
