(* ===== verification/AllocatorProperties.thy ===== *)
theory AllocatorProperties
  imports AllocatorReach OutOfMemory SegmentProperties
begin

text \<open>
  What a program can rely on, whatever its threads have done with the allocator before: memory that
  is its own, sizes and alignment as asked, data that no call disturbs, misuse that is reported,
  statistics and leak counts that are exact, and mappings that all go back in the end.
\<close>

section \<open>Reachable states\<close>

text \<open>The assumptions on the world an allocator is made in.\<close>

definition fair_start :: "os \<Rightarrow> tls \<Rightarrow> machine \<Rightarrow> bool" where
  "fair_start os tls0 M0 \<longleftrightarrow> os_ok os \<and> machine_ok M0 \<and> all_expired tls0"

lemma reach_holds:
  assumes "fair_start os tls0 M0" "impl_reach full os cfg tls0 M0 s A"
  obtains L where "holds full os cfg M0 s A L" "impl_inv full os s L" "payload_of ` L = A" "config s = cfg"
  using impl_reach_holds [OF assms(2)] assms(1) by (auto simp: fair_start_def holds_def)

text \<open>Where live pointers lie: in mappings of the allocator, which were not there when it was made.\<close>

lemma live_pointer:
  assumes "impl_inv full os s L" "ob \<in> L"
  shows "0 < o_user ob" "0 < o_size ob" "16 dvd o_user ob" "{o_user ob..<o_user ob + o_size ob} \<subseteq> cells (set (regs_of s))"
proof -
  note w = obj_wfD [OF impl_invD(4) [OF assms]]
  show "0 < o_user ob" "0 < o_size ob" "16 dvd o_user ob" using w by auto
  show "{o_user ob..<o_user ob + o_size ob} \<subseteq> cells (set (regs_of s))"
    using block_outstanding(1) [OF impl_invD(3) [OF assms(1)] block_mem [OF assms(2)]]
      payload_sub_block [OF impl_invD(4) [OF assms]] by blast
qed

lemma own_cells:
  assumes "holds full os cfg M0 s A L"
  shows "cells (set (regs_of s)) \<subseteq> mapped_cells (world s)" "cells (set (regs_of s)) \<inter> mapped_cells M0 = {}"
proof -
  have inv: "impl_inv full os s L" using assms by (simp add: holds_def)
  have m: "machine_ok (world s)" "set (regs_of s) \<subseteq> set (mapped (world s))"
    using tiers.inv_machine [OF impl_invD(3) [OF inv]] by simp_all
  then show "cells (set (regs_of s)) \<subseteq> mapped_cells (world s)" by (auto simp: mapped_cells_def intro: cells_mono [THEN subsetD])
  have "set (mapped M0) = set (mapped (world s)) - set (regs_of s)" using assms by (simp add: holds_def)
  then have "apart r r'" if "r \<in> set (regs_of s)" "r' \<in> set (mapped M0)" for r r'
    using machine_ok_apart [OF m(1), of r r'] m(2) that by auto
  then show "cells (set (regs_of s)) \<inter> mapped_cells M0 = {}"
    by (fastforce simp: mapped_cells_def cells_iff apart_def)
qed

text \<open>With the registry full, or off, every live pointer is one the operations accept.\<close>

lemma accepted:
  assumes "holds full os cfg M0 s A L" "ob \<in> L" "full \<or> \<not> enableLeakTracking cfg"
  shows "enableLeakTracking (config s) \<longrightarrow> isTracked (o_user ob) (debug s)"
  using assms by (auto simp: holds_def impl_inv_def registered_def)

lemma accepted': "impl_inv True os s L \<Longrightarrow> ob \<in> L \<Longrightarrow> enableLeakTracking (config s) \<longrightarrow> isTracked (o_user ob) (debug s)"
  by (auto simp: impl_inv_def registered_def)

section \<open>Allocating\<close>

text \<open>The region \<open>(p, n)\<close> is new to the program, which holds \<open>A\<close>; nothing of \<open>A\<close> has changed.\<close>

definition keeps :: "region set \<Rightarrow> AllocatorImpl \<Rightarrow> AllocatorImpl \<Rightarrow> bool" where
  "keeps A s s' \<longleftrightarrow> (\<forall>x \<in> cells A. mem (world s') x = mem (world s) x)"

definition granted :: "AllocatorImpl \<Rightarrow> region set \<Rightarrow> addr \<Rightarrow> nat \<Rightarrow> AllocatorImpl \<Rightarrow> bool" where
  "granted s A p n s' \<longleftrightarrow> 0 < p \<and> 16 dvd p \<and> {p..<p + n} \<subseteq> mapped_cells (world s') \<and> (\<forall>a \<in> A. apart (p, n) a) \<and>
     keeps A s s' \<and> events s' = events s \<and>
     (enablePoisoning (config s) \<longrightarrow> (\<forall>x \<in> {p..<p + n}. mem (world s') x = kAllocPoison))"

text \<open>An error is reported once and is the result, or ends the program; the books do not change.\<close>

definition fails :: "AllocatorImpl \<Rightarrow> region set \<Rightarrow> Error \<Rightarrow> addr \<Rightarrow> 'a result \<Rightarrow> bool" where
  "fails s A e p r \<longleftrightarrow> (\<exists>s'. r = (if abortOnError (config s) then Aborts s' else Returns (Inl e) s') \<and>
     events s' = events s @ [error_event s e p] \<and> keeps A s s' \<and> stats s' = stats s \<and> debug s' = debug s)"

lemma fails_at_once: "fails s A e p (fail_with e p s)"
  by (simp add: fails_def fail_with_eq keeps_def)

lemma step_keeps:
  assumes "holds full os cfg M0 s A L" "tier_step (snd ` block_of ` L) (world s) rs (world s') rs'"
  shows "keeps A s s'"
proof -
  have "cells A \<subseteq> cells (snd ` block_of ` L)"
    using payload_cells [of L] assms(1) by (auto simp: holds_def impl_inv_def)
  then show ?thesis using tier_step_memD [OF assms(2)] by (auto simp: keeps_def)
qed

lemma fails_refused:
  assumes "holds full os cfg M0 s A L" "refused full os L s r s1"
  shows "fails s A OutOfMemory 0 r"
proof -
  have r: "r = fail_with OutOfMemory 0 s1" "same_rest s s1" using assms(2) by (simp_all add: refused_def)
  have "keeps A s s1" using step_keeps [OF assms(1)] assms(2) by (auto simp: refused_def)
  moreover have "error_event s1 = error_event s" using r(2) by (simp add: same_rest_def error_event_def fun_eq_iff)
  ultimately show ?thesis using r by (simp add: fails_def fail_with_eq keeps_def same_rest_def)
qed

lemma granted_served:
  assumes "holds full os cfg M0 s A L" "served full os c n L s r ob s'"
  shows "granted s A (o_user ob) n s'" "r = Returns (Inr (o_user ob)) s'"
proof -
  have sv: "impl_inv full os s' (insert ob L)" "ob \<notin> L" "o_size ob = n" "events s' = events s"
    "tier_step (snd ` block_of ` L) (world s) (regs_of s) (world s') (regs_of s')"
    using assms(2) by (auto simp: served_def)
  note lp = live_pointer [OF sv(1), of ob]
  have "apart (o_user ob, n) a" if a: "a \<in> A" for a
  proof -
    obtain ob' where "ob' \<in> L" "a = payload_of ob'" using a assms(1) by (auto simp: holds_def)
    then show ?thesis using payloads_apart(1) [OF sv(1), of ob ob'] sv(2,3) by (auto simp: payload_of_def)
  qed
  then show "granted s A (o_user ob) n s'" "r = Returns (Inr (o_user ob)) s'"
    using lp own_cells(1) [OF holds_served [OF assms]] step_keeps [OF assms(1) sv(5)] assms(2)
    by (auto simp: granted_def served_def)
qed

text \<open>The allocation behind a returned pointer.\<close>

lemma allocated_object:
  assumes "impl_inv full os s L" "full \<longrightarrow> liveRoom c" "AllocatorImpl_allocate os c n s = Returns (Inr p) s1"
  obtains ob where "served full os c (asked n) L s (Returns (Inr p) s1) ob s1"
    "o_kind ob = (if enableGuardBytes (config s) then Guarded else Plain)"
  using assms(1,2)
proof (cases rule: allocate_ok [where request = n and c = c])
  case too_big
  then show thesis using assms(3) by (metis fail_not_Inr)
next
  case (oom s2)
  then show thesis using assms(3) refused_Inl by metis
next
  case (object ob s2)
  note sv = object(2) [folded asked_def, unfolded assms(3)]
  then have "s2 = s1" by (simp add: served_def)
  then show thesis using that [of ob] sv object(3) by simp
qed

lemma finish_not_fail: "finish_allocation c u n r s \<noteq> fail_with e p s'"
  by (auto simp: finish_allocation_def fail_with_eq Let_def)

lemma allocate_oom:
  assumes "tiers_ok os s R" "asked n \<le> kMaxRequest" "AllocatorImpl_allocate os c n s = fail_with OutOfMemory 0 s1"
  shows "os_refuses os (max kSegmentSize (asked n + 96)) (world s)"
proof -
  define k where "k = (if enableGuardBytes (config s) then guardedSize (asked n) else asked n)"
  have gs: "guardedSize (asked n) = asked n + 64" using assms(2) by (simp add: guardedSize_def const_simps)
  then have k: "k \<le> 2 ^ 59" "k \<le> asked n + 64" using assms(2) by (simp_all add: k_def const_simps)
  from assms(1) k(1) have "\<exists>s2. rawAllocate os c k s = Returns (Inl OutOfMemory) s2"
  proof (cases rule: rawAllocate_ok [where c = c])
    case (block key p len s2)
    then show ?thesis using assms(2,3) finish_not_fail
      by (auto simp: AllocatorImpl_allocate_def k_def asked_def Let_def split: if_splits prod.splits)
  qed blast
  then obtain s2 where "rawAllocate os c k s = Returns (Inl OutOfMemory) s2" by blast
  from rawAllocate_null [OF assms(1) k(1) this] show ?thesis by (rule os_refuses_mono) (use k(2) in simp)
qed

lemma alignedAllocate_oom:
  assumes "tiers_ok os s R" "asked n \<le> kMaxRequest" "isPowerOfTwo al" "al \<le> kMaxAlignment"
    "AllocatorImpl_alignedAllocate os c al n s = fail_with OutOfMemory 0 s1"
  shows "os_refuses os (max kSegmentSize (asked n + al + 96)) (world s)"
proof (cases "al \<le> kDefaultAlignment")
  case True
  then have "AllocatorImpl_allocate os c n s = fail_with OutOfMemory 0 s1"
    using assms(3-5) by (simp add: AllocatorImpl_alignedAllocate_def)
  from allocate_oom [OF assms(1,2) this] show ?thesis by (rule os_refuses_mono) simp
next
  case False
  have sum: "size_add (asked n) al = asked n + al" and k: "asked n + al \<le> 2 ^ 59"
    using assms(2,4) by (simp_all add: const_simps)
  note run = alignedAllocate_shifted [OF assms(3,4) False asked_def assms(2), unfolded sum]
  from assms(1) k have "\<exists>s2. rawAllocate os c (asked n + al) s = Returns (Inl OutOfMemory) s2"
  proof (cases rule: rawAllocate_ok [where c = c])
    case (block key p len s2)
    then show ?thesis using assms(5) finish_not_fail by (simp add: run)
  qed blast
  then obtain s2 where "rawAllocate os c (asked n + al) s = Returns (Inl OutOfMemory) s2" by blast
  from rawAllocate_null [OF assms(1) k this] show ?thesis by (rule os_refuses_mono) simp
qed

section \<open>A first allocation\<close>

text \<open>A concrete run for the witnesses: eight bytes from a new allocator on a blank machine.\<close>

definition caller0 :: caller where
  "caller0 = \<lparr>thread = 0, cacheRoom = False, liveRoom = True, freedRoom = True\<rparr>"

abbreviation "new_impl cfg \<equiv> AllocatorImpl_make cfg Map.empty blank_machine"

abbreviation "run_reach cfg \<equiv> impl_reach True linear_os cfg Map.empty blank_machine"

lemma caller0_simps [simp]: "thread caller0 = 0" "\<not> cacheRoom caller0" "liveRoom caller0" "freedRoom caller0"
  by (simp_all add: caller0_def)

lemma fair_linear: "fair_start linear_os Map.empty blank_machine"
  by (simp add: fair_start_def linear_os_ok blank_machine_ok all_expired_def)

lemma first_pool_block:
  assumes "i < kClassCount"
  obtains M pools where "PoolAllocator_allocateBlock linear_os i blank_machine PoolAllocator_init = Some (65536, M, pools)"
    "mapped M = [(65536, 65536)]"
proof -
  have "MappedRegion_make linear_os kRunSize blank_machine = ((65536, 65536), blank_machine\<lparr>mapped := [(65536, 65536)]\<rparr>)"
    by (subst linear_os_map) (simp_all add: blank_machine_def top_of_def const_simps Let_def)
  then show thesis using assms that
    by (simp add: PoolAllocator_allocateBlock_def PoolAllocator_init_def takeBlock_def
        refill_def bump_def Shard_init_def FreeList_empty_list_def FreeList_pop_def MappedRegion_valid_def)
qed

lemma first_raw:
  assumes "n \<le> kSmallMax"
  obtains r s' where "rawAllocate linear_os caller0 n (new_impl cfg) = Returns (Inr (65552, r)) s'"
    "mapped (world s') = [(65536, 65536)]"
proof -
  obtain i where i: "classIndex n = Some i" "i < kClassCount"
    using classIndex_smallest [OF assms] classIndex_SomeD(1) [OF assms] by blast
  obtain M pools where "PoolAllocator_allocateBlock linear_os i blank_machine PoolAllocator_init = Some (65536, M, pools)"
    and m: "mapped M = [(65536, 65536)]" using first_pool_block [OF i(2)] .
  then have "smallAllocate linear_os en 0 False i blank_machine (PoolAllocator_init, Map.empty) = Some (65536, M, pools, Map.empty)" for en
    by (simp add: smallAllocate_def threadCache_def)
  then have "\<exists>r s'. rawAllocate linear_os caller0 n (new_impl cfg) = Returns (Inr (65552, r)) s' \<and> mapped (world s') = [(65536, 65536)]"
    using assms i(1) m by (simp add: rawAllocate_def AllocatorImpl_make_def Let_def userPointerOf_def const_simps on_mem_def)
  then show thesis using that by blast
qed

lemma first_object:
  obtains s where "AllocatorImpl_allocate linear_os caller0 8 (new_impl cfg) =
      Returns (Inr (if enableGuardBytes cfg then 65584 else 65552)) s"
    "run_reach cfg s {(if enableGuardBytes cfg then 65584 else 65552, 8)}" "mapped (world s) = [(65536, 65536)]"
proof -
  obtain r s' where "mapped (world s') = [(65536, 65536)]"
    and "rawAllocate linear_os caller0 (if enableGuardBytes cfg then 72 else 8) (new_impl cfg) = Returns (Inr (65552, r)) s'"
    by (rule first_raw [of "if enableGuardBytes cfg then 72 else 8" cfg]) (auto simp: const_simps)
  then have "\<exists>s. AllocatorImpl_allocate linear_os caller0 8 (new_impl cfg) =
      Returns (Inr (if enableGuardBytes cfg then 65584 else 65552)) s \<and> mapped (world s) = [(65536, 65536)]"
    by (auto simp: AllocatorImpl_allocate_def guardedSize_def const_simps finish_allocation_def case_prod_beta Let_def on_mem_def)
  then obtain s where s: "AllocatorImpl_allocate linear_os caller0 8 (new_impl cfg) =
      Returns (Inr (if enableGuardBytes cfg then 65584 else 65552)) s" "mapped (world s) = [(65536, 65536)]" by blast
  show thesis using that [OF s(1) _ s(2)] impl_reach.allocated [OF impl_reach.make _ s(1)] by (simp add: asked_def)
qed

section \<open>Properties\<close>

lemma reachable_safe_spec:
  assumes "fair_start os tls0 M0" "impl_reach full os cfg tls0 M0 s A"
  shows "(\<forall>(p, n) \<in> A. 0 < p \<and> 0 < n \<and> 16 dvd p \<and> {p..<p + n} \<subseteq> mapped_cells (world s) - mapped_cells M0 \<and>
      (full \<or> \<not> enableLeakTracking cfg \<longrightarrow> AllocatorImpl_allocationSize p s = Returns n s)) \<and>
    (\<forall>a \<in> A. \<forall>b \<in> A. a \<noteq> b \<longrightarrow> apart a b) \<and>
    set (mapped M0) \<subseteq> set (mapped (world s)) \<and> (\<forall>x \<in> mapped_cells M0. mem (world s) x = mem M0 x)"
proof -
  obtain L where L: "holds full os cfg M0 s A L" "impl_inv full os s L" "payload_of ` L = A" "config s = cfg"
    using reach_holds [OF assms] .
  have "apart a b" if ab: "a \<in> A" "b \<in> A" "a \<noteq> b" for a b
  proof -
    obtain ob ob' where "ob \<in> L" "ob' \<in> L" "a = payload_of ob" "b = payload_of ob'" using L(3) ab by blast
    then show ?thesis using payloads_apart(1) [OF L(2)] ab(3) by blast
  qed
  moreover have "0 < p \<and> 0 < n \<and> 16 dvd p \<and> {p..<p + n} \<subseteq> mapped_cells (world s) - mapped_cells M0 \<and>
      (full \<or> \<not> enableLeakTracking cfg \<longrightarrow> AllocatorImpl_allocationSize p s = Returns n s)" if pn: "(p, n) \<in> A" for p n
  proof -
    obtain ob where ob: "ob \<in> L" "o_user ob = p" "o_size ob = n" using live_object [OF L(1) pn] .
    show ?thesis using live_pointer [OF L(2) ob(1)] own_cells [OF L(1)]
        allocationSize_live [OF L(2) ob(1) accepted [OF L(1) ob(1)]] ob(2,3) by blast
  qed
  moreover have "set (mapped M0) \<subseteq> set (mapped (world s)) \<and> (\<forall>x \<in> mapped_cells M0. mem (world s) x = mem M0 x)"
    using L(1) by (auto simp: holds_def)
  ultimately show ?thesis by blast
qed

text \<open>
  C1: in every state a program can reach, what it holds is its own: each allocation is at a
  non-null, 16-byte aligned address in mapped memory that did not belong to anybody when the
  allocator was made, no two overlap, and \<open>allocationSize\<close> tells the size that was asked for.  The
  mappings from before are all there, and every byte in them is as it was.
\<close>

theorem allocator_reachable_safe:
  assumes "fair_start os tls0 M0" "impl_reach full os cfg tls0 M0 s A"
  shows "(\<forall>(p, n) \<in> A. 0 < p \<and> 0 < n \<and> 16 dvd p \<and> {p..<p + n} \<subseteq> mapped_cells (world s) - mapped_cells M0 \<and>
      (full \<or> \<not> enableLeakTracking cfg \<longrightarrow> AllocatorImpl_allocationSize p s = Returns n s)) \<and>
    (\<forall>a \<in> A. \<forall>b \<in> A. a \<noteq> b \<longrightarrow> apart a b) \<and>
    set (mapped M0) \<subseteq> set (mapped (world s)) \<and> (\<forall>x \<in> mapped_cells M0. mem (world s) x = mem M0 x)"
  by (rule reachable_safe_spec [OF assms])

theorem allocator_reachable_safe_witness:
  "\<exists>s. run_reach AllocatorConfig_debug s {(65584, 8)} \<and> AllocatorImpl_allocationSize 65584 s = Returns 8 s"
proof -
  obtain s where s: "run_reach AllocatorConfig_debug s {(65584, 8)}"
    using first_object [of AllocatorConfig_debug] by (auto simp: AllocatorConfig_debug_def)
  show ?thesis using allocator_reachable_safe [OF fair_linear s] s by auto
qed

lemma allocate_spec:
  assumes "fair_start os tls0 M0" "impl_reach full os cfg tls0 M0 s A" "full \<longrightarrow> liveRoom c"
  shows "if kMaxRequest < asked n then fails s A SizeOverflow 0 (AllocatorImpl_allocate os c n s)
    else (\<exists>p s'. AllocatorImpl_allocate os c n s = Returns (Inr p) s' \<and> granted s A p (asked n) s' \<and>
            impl_reach full os cfg tls0 M0 s' (insert (p, asked n) A)) \<or>
         fails s A OutOfMemory 0 (AllocatorImpl_allocate os c n s) \<and>
            os_refuses os (max kSegmentSize (asked n + 96)) (world s)"
proof -
  obtain L where L: "holds full os cfg M0 s A L" "impl_inv full os s L" using reach_holds [OF assms(1,2)] by blast
  from L(2) assms(3) show ?thesis
  proof (cases rule: allocate_ok [where request = n and c = c])
    case too_big
    then show ?thesis using fails_at_once by (simp add: asked_def)
  next
    case (oom s1)
    have "os_refuses os (max kSegmentSize (asked n + 96)) (world s)"
      by (rule allocate_oom [OF impl_invD(3) [OF L(2)]]) (use oom in \<open>auto simp: asked_def refused_def\<close>)
    then show ?thesis using oom(1) fails_refused [OF L(1) oom(2)] by (simp add: asked_def)
  next
    case (object ob s')
    note g = granted_served [OF L(1) object(2)]
    then have "impl_reach full os cfg tls0 M0 s' (insert (o_user ob, asked n) A)"
      by (intro impl_reach.allocated [OF assms(2,3)]) simp
    then show ?thesis using object(1) g by (auto simp: asked_def)
  qed
qed

text \<open>
  C3: \<open>allocate\<close> always comes back, from every reachable state.  A request over the limit is
  answered with \<open>SizeOverflow\<close>; otherwise the caller gets a region of the size it asked for that
  overlaps nothing it holds, or \<open>OutOfMemory\<close>, and that only when the operating system refuses to
  map what a tier needs.  Data in live allocations stays in all cases.
\<close>

theorem allocate_correct:
  assumes "fair_start os tls0 M0" "impl_reach full os cfg tls0 M0 s A" "full \<longrightarrow> liveRoom c"
  shows "if kMaxRequest < asked n then fails s A SizeOverflow 0 (AllocatorImpl_allocate os c n s)
    else (\<exists>p s'. AllocatorImpl_allocate os c n s = Returns (Inr p) s' \<and> granted s A p (asked n) s' \<and>
            impl_reach full os cfg tls0 M0 s' (insert (p, asked n) A)) \<or>
         fails s A OutOfMemory 0 (AllocatorImpl_allocate os c n s) \<and>
            os_refuses os (max kSegmentSize (asked n + 96)) (world s)"
  by (rule allocate_spec [OF assms])

theorem allocate_correct_witness:
  "fails (new_impl AllocatorConfig_release) {} SizeOverflow 0
     (AllocatorImpl_allocate linear_os caller0 (2 ^ 50) (new_impl AllocatorConfig_release)) \<and>
   (\<exists>p s'. AllocatorImpl_allocate linear_os caller0 8 (new_impl AllocatorConfig_release) = Returns (Inr p) s' \<and>
     granted (new_impl AllocatorConfig_release) {} p 8 s')"
proof -
  let ?s = "new_impl AllocatorConfig_release"
  note c = allocate_correct [OF fair_linear impl_reach.make [where full = True and cfg = AllocatorConfig_release], of caller0]
  obtain p s' where r: "AllocatorImpl_allocate linear_os caller0 8 ?s = Returns (Inr p) s'"
    using first_object [of AllocatorConfig_release] by blast
  have "\<not> fails ?s {} OutOfMemory 0 (AllocatorImpl_allocate linear_os caller0 8 ?s)"
    by (simp add: r fails_def)
  then have "\<exists>p s'. AllocatorImpl_allocate linear_os caller0 8 ?s = Returns (Inr p) s' \<and> granted ?s {} p 8 s'"
    using c [of 8] by (auto simp: asked_def const_simps)
  moreover have "fails ?s {} SizeOverflow 0 (AllocatorImpl_allocate linear_os caller0 (2 ^ 50) ?s)"
    using c [of "2 ^ 50"] by (simp add: asked_def const_simps)
  ultimately show ?thesis by blast
qed

lemma alignedAllocate_spec:
  assumes "fair_start os tls0 M0" "impl_reach full os cfg tls0 M0 s A" "full \<longrightarrow> liveRoom c"
  shows "if \<not> (isPowerOfTwo al \<and> al \<le> kMaxAlignment) then fails s A InvalidAlignment 0 (AllocatorImpl_alignedAllocate os c al n s)
    else if kMaxRequest < asked n then fails s A SizeOverflow 0 (AllocatorImpl_alignedAllocate os c al n s)
    else (\<exists>p s'. AllocatorImpl_alignedAllocate os c al n s = Returns (Inr p) s' \<and> al dvd p \<and> granted s A p (asked n) s' \<and>
            impl_reach full os cfg tls0 M0 s' (insert (p, asked n) A)) \<or>
         fails s A OutOfMemory 0 (AllocatorImpl_alignedAllocate os c al n s) \<and>
            os_refuses os (max kSegmentSize (asked n + al + 96)) (world s)"
proof -
  obtain L where L: "holds full os cfg M0 s A L" "impl_inv full os s L" using reach_holds [OF assms(1,2)] by blast
  from L(2) assms(3) show ?thesis
  proof (cases rule: alignedAllocate_ok [where request = n and c = c and al = al])
    case bad
    then show ?thesis using fails_at_once by auto
  next
    case too_big
    then show ?thesis using fails_at_once by (simp add: asked_def)
  next
    case (oom s1)
    have "os_refuses os (max kSegmentSize (asked n + al + 96)) (world s)"
      by (rule alignedAllocate_oom [OF impl_invD(3) [OF L(2)]]) (use oom in \<open>auto simp: asked_def refused_def\<close>)
    then show ?thesis using oom(1-3) fails_refused [OF L(1) oom(4)] by (simp add: asked_def)
  next
    case (object ob s')
    note g = granted_served [OF L(1) object(4)]
    then have "impl_reach full os cfg tls0 M0 s' (insert (o_user ob, asked n) A)"
      by (intro impl_reach.aligned [OF assms(2,3)]) simp
    then show ?thesis using object(1-3,5) g by (auto simp: asked_def)
  qed
qed

text \<open>
  C4: \<open>alignedAllocate\<close> rejects an alignment that is no power of two, or over the limit, with
  \<open>InvalidAlignment\<close>, and otherwise behaves like \<open>allocate\<close> with a pointer that is a multiple of the
  alignment.
\<close>

theorem alignedAllocate_correct:
  assumes "fair_start os tls0 M0" "impl_reach full os cfg tls0 M0 s A" "full \<longrightarrow> liveRoom c"
  shows "if \<not> (isPowerOfTwo al \<and> al \<le> kMaxAlignment) then fails s A InvalidAlignment 0 (AllocatorImpl_alignedAllocate os c al n s)
    else if kMaxRequest < asked n then fails s A SizeOverflow 0 (AllocatorImpl_alignedAllocate os c al n s)
    else (\<exists>p s'. AllocatorImpl_alignedAllocate os c al n s = Returns (Inr p) s' \<and> al dvd p \<and> granted s A p (asked n) s' \<and>
            impl_reach full os cfg tls0 M0 s' (insert (p, asked n) A)) \<or>
         fails s A OutOfMemory 0 (AllocatorImpl_alignedAllocate os c al n s) \<and>
            os_refuses os (max kSegmentSize (asked n + al + 96)) (world s)"
  by (rule alignedAllocate_spec [OF assms])

theorem alignedAllocate_correct_witness:
  "fails (new_impl AllocatorConfig_debug) {} InvalidAlignment 0
     (AllocatorImpl_alignedAllocate linear_os caller0 24 8 (new_impl AllocatorConfig_debug)) \<and>
   (\<exists>p s'. AllocatorImpl_alignedAllocate linear_os caller0 64 8 (new_impl AllocatorConfig_debug) = Returns (Inr p) s' \<and>
     64 dvd p \<and> granted (new_impl AllocatorConfig_debug) {} p 8 s')"
proof -
  let ?s = "new_impl AllocatorConfig_debug"
  note c = alignedAllocate_correct [OF fair_linear impl_reach.make [where full = True and cfg = AllocatorConfig_debug], of caller0]
  have pow: "isPowerOfTwo 64" "\<not> isPowerOfTwo 24" by code_simp+
  obtain r s1 where raw: "rawAllocate linear_os caller0 72 ?s = Returns (Inr (65552, r)) s1"
    by (rule first_raw [of 72]) (simp add: const_simps)
  have "\<not> fails ?s {} OutOfMemory 0 (AllocatorImpl_alignedAllocate linear_os caller0 64 8 ?s)"
    using alignedAllocate_shifted [of 64 8 8 linear_os caller0 ?s] pow(1) raw
    by (simp add: const_simps finish_allocation_def fails_def Let_def)
  then have "\<exists>p s'. AllocatorImpl_alignedAllocate linear_os caller0 64 8 ?s = Returns (Inr p) s' \<and> 64 dvd p \<and> granted ?s {} p 8 s'"
    using c [of 64 8] pow(1) by (auto simp: asked_def const_simps)
  moreover have "fails ?s {} InvalidAlignment 0 (AllocatorImpl_alignedAllocate linear_os caller0 24 8 ?s)"
    using c [of 24 8] pow(2) by simp
  ultimately show ?thesis by blast
qed

text \<open>
  The registry after a release, beside what the property below says.
\<close>

lemma release_live:
  assumes "fair_start os tls0 M0" "impl_reach full os cfg tls0 M0 s A" "(p, n) \<in> A" "full \<or> \<not> enableLeakTracking cfg"
  shows "\<exists>s'. AllocatorImpl_deallocate os c p s = Returns (Inr ()) s' \<and> events s' = events s \<and>
    keeps (A - {(p, n)}) s s' \<and> impl_reach full os cfg tls0 M0 s' (A - {(p, n)}) \<and>
    debug s' = (if enableLeakTracking cfg then snd (untrack (freedRoom c) p (debug s)) else debug s)"
proof -
  obtain L where L: "holds full os cfg M0 s A L" "impl_inv full os s L" "config s = cfg" using reach_holds [OF assms(1,2)] by blast
  obtain ob where ob: "ob \<in> L" "o_user ob = p" "o_size ob = n" using live_object [OF L(1) assms(3)] .
  have ok: "\<not> corrupted s ob" using L(1) ob(1) by (simp add: holds_def)
  from L(2) ob(1) accepted [OF L(1) ob(1) assms(4)] show ?thesis
  proof (cases rule: deallocate_ok [where c = c])
    case (released s')
    have "cells (A - {(p, n)}) \<subseteq> cells (snd ` block_of ` (L - {ob}))"
      using payload_cells [of "L - {ob}"] impl_invD(4) [OF L(2)] payload_remove [OF L(1) ob(1)] ob(2,3)
      by (auto simp: payload_of_def)
    then have "keeps (A - {(p, n)}) s s'" using tier_step_memD [OF released(6)] by (auto simp: keeps_def)
    moreover have run: "AllocatorImpl_deallocate os c p s = Returns (Inr ()) s'" using released(2) ob(2) by simp
    ultimately show ?thesis using impl_reach.released [OF assms(2,3) run] released(5,7) ok ob(2) L(3) by simp
  qed (use ok in blast)
qed

text \<open>
  C5: releasing a live allocation succeeds, for whatever thread does it: the allocation is gone, no
  error is reported, and the data of every other allocation is as it was.
\<close>

theorem deallocate_correct:
  assumes "fair_start os tls0 M0" "impl_reach full os cfg tls0 M0 s A" "(p, n) \<in> A" "full \<or> \<not> enableLeakTracking cfg"
  shows "\<exists>s'. AllocatorImpl_deallocate os c p s = Returns (Inr ()) s' \<and> events s' = events s \<and>
    keeps (A - {(p, n)}) s s' \<and> impl_reach full os cfg tls0 M0 s' (A - {(p, n)})"
  using release_live [OF assms] by blast

theorem deallocate_correct_witness:
  "\<exists>s s'. run_reach AllocatorConfig_debug s {(65584, 8)} \<and>
     AllocatorImpl_deallocate linear_os caller0 65584 s = Returns (Inr ()) s' \<and> run_reach AllocatorConfig_debug s' {}"
proof -
  obtain s where s: "run_reach AllocatorConfig_debug s {(65584, 8)}"
    using first_object [of AllocatorConfig_debug] by (auto simp: AllocatorConfig_debug_def)
  show ?thesis using deallocate_correct [OF fair_linear s, of 65584 8 caller0] s by auto
qed

lemma reallocate_spec:
  assumes "fair_start os tls0 M0" "impl_reach full os cfg tls0 M0 s A" "(p, k) \<in> A" "full \<or> \<not> enableLeakTracking cfg"
    "full \<longrightarrow> liveRoom c"
  shows "if n = 0 then \<exists>s'. AllocatorImpl_reallocate os c c' p n s = Returns (Inr 0) s' \<and>
        impl_reach full os cfg tls0 M0 s' (A - {(p, k)}) \<and> keeps (A - {(p, k)}) s s'
    else if kMaxRequest < n then fails s A SizeOverflow 0 (AllocatorImpl_reallocate os c c' p n s)
    else (\<exists>q s'. AllocatorImpl_reallocate os c c' p n s = Returns (Inr q) s' \<and>
            impl_reach full os cfg tls0 M0 s' (insert (q, n) (A - {(p, k)})) \<and> (\<forall>a \<in> A - {(p, k)}. apart (q, n) a) \<and>
            (\<forall>i < min k n. mem (world s') (q + i) = mem (world s) (p + i)) \<and> keeps (A - {(p, k)}) s s') \<or>
         fails s A OutOfMemory 0 (AllocatorImpl_reallocate os c c' p n s)"
proof -
  obtain L where L: "holds full os cfg M0 s A L" "impl_inv full os s L" using reach_holds [OF assms(1,2)] by blast
  obtain ob where ob: "ob \<in> L" "o_user ob = p" "o_size ob = k" using live_object [OF L(1) assms(3)] .
  have ok: "\<not> corrupted s ob" "p \<noteq> 0" using L(1) ob live_pointer(1) [OF L(2) ob(1)] by (auto simp: holds_def)
  have rem: "payload_of ` (L - {ob}) = A - {(p, k)}" using payload_remove [OF L(1) ob(1)] ob(2,3) by (simp add: payload_of_def)
  show ?thesis
  proof (cases "n = 0")
    case True
    then show ?thesis using release_live [OF assms(1-4), of c'] ok(2) by (auto simp: AllocatorImpl_reallocate_def)
  next
    case False
    then have "0 < n" by simp
    with L(2) ob(1) accepted [OF L(1) ob(1) assms(4)] assms(5) show ?thesis
    proof (cases rule: reallocate_ok [where c = c and c' = c'])
      case too_big
      then show ?thesis using fails_at_once False ob(2) by simp
    next
      case (oom s1)
      then show ?thesis using fails_refused [OF L(1) oom(2)] False ob(2) by simp
    next
      case (aborted s1)
      then show ?thesis using ok by simp
    next
      case (moved ob' s')
      have run: "AllocatorImpl_reallocate os c c' p n s = Returns (Inr (o_user ob')) s'" using moved(2) ob(2) by simp
      have "impl_reach full os cfg tls0 M0 s' (insert (o_user ob', n) (A - {(p, k)}))"
        by (rule impl_reach.resized [OF assms(2,3,5) \<open>0 < n\<close> run])
      moreover have "keeps (A - {(p, k)}) s s'"
        using payload_cells [of "L - {ob}"] impl_invD(4) [OF L(2)] moved(8) rem by (auto simp: keeps_def)
      moreover have "apart (o_user ob', n) a" if a: "a \<in> A - {(p, k)}" for a
      proof -
        obtain oc where "oc \<in> L - {ob}" "a = payload_of oc" using a rem by blast
        then show ?thesis using payloads_apart(1) [OF moved(5), of ob' oc] moved(3,4) by (auto simp: payload_of_def)
      qed
      ultimately show ?thesis using run moved(1,7) ob(2,3) False by auto
    qed
  qed
qed

text \<open>
  C6: resizing a live allocation to \<open>n\<close> bytes gives a region of that size that starts with the bytes
  of the old one, as many as fit in both, or fails and leaves the old one in place; size zero
  releases it and gives null.  All other data stays.
\<close>

theorem reallocate_correct:
  assumes "fair_start os tls0 M0" "impl_reach full os cfg tls0 M0 s A" "(p, k) \<in> A" "full \<or> \<not> enableLeakTracking cfg"
    "full \<longrightarrow> liveRoom c"
  shows "if n = 0 then \<exists>s'. AllocatorImpl_reallocate os c c' p n s = Returns (Inr 0) s' \<and>
        impl_reach full os cfg tls0 M0 s' (A - {(p, k)}) \<and> keeps (A - {(p, k)}) s s'
    else if kMaxRequest < n then fails s A SizeOverflow 0 (AllocatorImpl_reallocate os c c' p n s)
    else (\<exists>q s'. AllocatorImpl_reallocate os c c' p n s = Returns (Inr q) s' \<and>
            impl_reach full os cfg tls0 M0 s' (insert (q, n) (A - {(p, k)})) \<and> (\<forall>a \<in> A - {(p, k)}. apart (q, n) a) \<and>
            (\<forall>i < min k n. mem (world s') (q + i) = mem (world s) (p + i)) \<and> keeps (A - {(p, k)}) s s') \<or>
         fails s A OutOfMemory 0 (AllocatorImpl_reallocate os c c' p n s)"
  by (rule reallocate_spec [OF assms])

theorem reallocate_correct_witness:
  "\<exists>s. run_reach AllocatorConfig_debug s {(65584, 8)} \<and>
     fails s {(65584, 8)} SizeOverflow 0 (AllocatorImpl_reallocate linear_os caller0 caller0 65584 (2 ^ 50) s) \<and>
     (\<exists>s'. AllocatorImpl_reallocate linear_os caller0 caller0 65584 0 s = Returns (Inr 0) s' \<and> run_reach AllocatorConfig_debug s' {})"
proof -
  obtain s where s: "run_reach AllocatorConfig_debug s {(65584, 8)}"
    using first_object [of AllocatorConfig_debug] by (auto simp: AllocatorConfig_debug_def)
  note c = reallocate_correct [OF fair_linear s, of 65584 8 caller0 _ caller0]
  show ?thesis using c [of "2 ^ 50"] c [of 0] s by (auto simp: const_simps)
qed

lemma misuse_spec:
  assumes "fair_start os tls0 M0" "impl_reach full os cfg tls0 M0 s A" "enableLeakTracking cfg" "p \<noteq> 0" "p \<notin> fst ` A"
  shows "AllocatorImpl_allocationSize p s = Returns 0 s \<and>
    AllocatorImpl_deallocate os c p s = fail_with (if wasFreed p (debug s) then DoubleFree else InvalidPointer) p s \<and>
    (\<forall>n > 0. AllocatorImpl_reallocate os c c' p n s = fail_with InvalidPointer p s)"
proof -
  obtain L where L: "impl_inv full os s L" "payload_of ` L = A" "config s = cfg" using reach_holds [OF assms(1,2)] by blast
  have "\<not> isTracked p (debug s)"
  proof
    assume "isTracked p (debug s)"
    then obtain n where "map_of (live (debug s)) p = Some n" by (auto simp: isTracked_map_of)
    then have "\<exists>ob \<in> L. o_user ob = p" using impl_invD(7) [OF L(1)] assms(3) L(3) unfolding registered_def by blast
    then have "p \<in> fst ` payload_of ` L" by (force simp: payload_of_def)
    then show False using assms(5) L(2) by simp
  qed
  then show ?thesis using untracked_deallocate untracked_reallocate assms(3,4) L(3)
    by (simp add: AllocatorImpl_allocationSize_def)
qed

text \<open>
  C14: with leak tracking on, a pointer the program does not hold is never taken for one: its size is
  zero, and releasing or resizing it is reported as an error and changes nothing else.
\<close>

theorem misuse_is_reported:
  assumes "fair_start os tls0 M0" "impl_reach full os cfg tls0 M0 s A" "enableLeakTracking cfg" "p \<noteq> 0" "p \<notin> fst ` A"
  shows "AllocatorImpl_allocationSize p s = Returns 0 s \<and>
    AllocatorImpl_deallocate os c p s = fail_with (if wasFreed p (debug s) then DoubleFree else InvalidPointer) p s \<and>
    (\<forall>n > 0. AllocatorImpl_reallocate os c c' p n s = fail_with InvalidPointer p s)"
  by (rule misuse_spec [OF assms])

theorem misuse_is_reported_witness:
  "\<exists>s. run_reach AllocatorConfig_debug s {(65584, 8)} \<and>
     AllocatorImpl_deallocate linear_os caller0 1000 s =
       fail_with (if wasFreed 1000 (debug s) then DoubleFree else InvalidPointer) 1000 s"
proof -
  obtain s where s: "run_reach AllocatorConfig_debug s {(65584, 8)}"
    using first_object [of AllocatorConfig_debug] by (auto simp: AllocatorConfig_debug_def)
  have "enableLeakTracking AllocatorConfig_debug" by (simp add: AllocatorConfig_debug_def)
  from misuse_is_reported [OF fair_linear s this, of 1000 caller0 caller0] s show ?thesis by auto
qed

lemma double_free_spec:
  assumes "fair_start os tls0 M0" "impl_reach True os cfg tls0 M0 s A" "(p, n) \<in> A" "enableLeakTracking cfg" "freedRoom c"
  shows "\<exists>s'. AllocatorImpl_deallocate os c p s = Returns (Inr ()) s' \<and>
    AllocatorImpl_deallocate os c' p s' = fail_with DoubleFree p s'"
proof -
  obtain L where L: "holds True os cfg M0 s A L" "impl_inv True os s L" "config s = cfg" using reach_holds [OF assms(1,2)] by blast
  obtain ob where ob: "ob \<in> L" "o_user ob = p" using live_object [OF L(1) assms(3)] by blast
  have tr: "isTracked p (debug s)" "p \<noteq> 0" using accepted [OF L(1) ob(1)] live_pointer(1) [OF L(2) ob(1)] assms(4) ob(2) L(3) by auto
  obtain s' where r: "AllocatorImpl_deallocate os c p s = Returns (Inr ()) s'" "impl_reach True os cfg tls0 M0 s' (A - {(p, n)})"
    "debug s' = snd (untrack True p (debug s))" using release_live [OF assms(1-3), of c] assms(4,5) by auto
  have cfg': "config s' = cfg" using reach_holds [OF assms(1) r(2)] by blast
  have "\<not> isTracked p (debug s')" using r(3) by (simp add: isTracked_map_of live_untrack)
  moreover have "wasFreed p (debug s')" using tr(1) r(3) by (simp add: wasFreed_def untrack_def)
  ultimately show ?thesis using untracked_deallocate [of s' p os c'] r(1) cfg' assms(4) tr(2) by auto
qed

text \<open>
  C15: with leak tracking on, a second release of an allocation, by any thread and before its address
  is handed out again, is reported as a double free, and changes nothing else.
\<close>

theorem double_free_is_reported:
  assumes "fair_start os tls0 M0" "impl_reach True os cfg tls0 M0 s A" "(p, n) \<in> A" "enableLeakTracking cfg" "freedRoom c"
  shows "\<exists>s'. AllocatorImpl_deallocate os c p s = Returns (Inr ()) s' \<and>
    AllocatorImpl_deallocate os c' p s' = fail_with DoubleFree p s'"
  by (rule double_free_spec [OF assms])

theorem double_free_is_reported_witness:
  "\<exists>s s'. run_reach AllocatorConfig_debug s {(65584, 8)} \<and> AllocatorImpl_deallocate linear_os caller0 65584 s = Returns (Inr ()) s' \<and>
     AllocatorImpl_deallocate linear_os caller0 65584 s' = fail_with DoubleFree 65584 s'"
proof -
  obtain s where s: "run_reach AllocatorConfig_debug s {(65584, 8)}"
    using first_object [of AllocatorConfig_debug] by (auto simp: AllocatorConfig_debug_def)
  have "enableLeakTracking AllocatorConfig_debug" by (simp add: AllocatorConfig_debug_def)
  from double_free_is_reported [OF fair_linear s _ this, of 65584 8 caller0 caller0] s show ?thesis by auto
qed

text \<open>
  C17: whatever bytes of the guards of a live allocation an overrun has changed, the release finds out:
  it reports \<open>HeapCorruption\<close> if and only if some guard byte has changed.  The program wrote into
  payloads and guards only.
\<close>

theorem overrun_is_reported:
  assumes "fair_start os tls0 M0" "impl_reach full os cfg tls0 M0 s A" "full \<or> \<not> enableLeakTracking cfg" "enableGuardBytes cfg"
    "AllocatorImpl_allocate os c n s = Returns (Inr p) s1" "full \<longrightarrow> liveRoom c" "\<not> abortOnError cfg"
    "\<forall>x. x \<notin> cells (insert (p, asked n) A) \<union> guard_bytes p (asked n) \<longrightarrow> f (mem (world s1)) x = mem (world s1) x"
  shows "\<exists>s2. AllocatorImpl_deallocate os c' p (on_mem f s1) = Returns (Inr ()) s2 \<and>
    events s2 = events s1 @ (if \<exists>x \<in> guard_bytes p (asked n). f (mem (world s1)) x \<noteq> mem (world s1) x
      then [error_event s1 HeapCorruption p] else [])"
proof -
  obtain L where L: "holds full os cfg M0 s A L" "impl_inv full os s L" "config s = cfg" using reach_holds [OF assms(1,2)] by blast
  obtain ob where ob: "served full os c (asked n) L s (Returns (Inr p) s1) ob s1" "o_kind ob = Guarded"
    using allocated_object [OF L(2) assms(6,5)] assms(4) L(3) by auto
  then have ob: "served full os c (asked n) L s (Returns (Inr p) s1) ob s1" "o_kind ob = Guarded" "o_user ob = p" "o_size ob = asked n"
    by (auto simp: served_def)
  have h1: "holds full os cfg M0 s1 (insert (p, asked n) A) (insert ob L)" using holds_served [OF L(1) ob(1)] ob(3) by simp
  then have inv1: "impl_inv full os s1 (insert ob L)" "config s1 = cfg" "\<not> corrupted s1 ob" "payload_of ` insert ob L = insert (p, asked n) A"
    by (auto simp: holds_def)
  let ?s = "on_mem f s1"
  have cover: "cells (insert (p, asked n) A) \<union> guard_bytes p (asked n) \<subseteq> (\<Union>ob' \<in> insert ob L. reachable_bytes ob')"
    using ob(2-4) inv1(4) [symmetric] by (auto simp: reachable_bytes_def payload_of_def cells_iff)
  have inv: "impl_inv full os ?s (insert ob L)"
    by (rule impl_scribble [OF inv1(1)]) (use assms(8) cover in blast)
  have tr: "enableLeakTracking (config ?s) \<longrightarrow> isTracked (o_user ob) (debug ?s)"
    using accepted [OF h1 _ assms(3)] by simp
  have user: "kFrontGuardSize \<le> p" using obj_wfD(12) [OF impl_invD(4) [OF inv1(1)], of ob] ob(2,3) by (simp add: const_simps)
  note v = verifyGuards_iff [OF user, of "asked n"]
  have all: "\<forall>x \<in> guard_bytes p (asked n). mem (world s1) x = kGuardPattern"
    using inv1(2,3) ob(2-4) assms(4) v by (simp add: corrupted_def)
  have cor: "corrupted ?s ob \<longleftrightarrow> (\<exists>x \<in> guard_bytes p (asked n). f (mem (world s1)) x \<noteq> mem (world s1) x)"
    using all ob(2-4) assms(4) inv1(2) v by (auto simp: corrupted_def)
  have ev: "error_event ?s = error_event s1" by (simp add: error_event_def fun_eq_iff)
  from inv insertI1 tr show ?thesis
  proof (cases rule: deallocate_ok [where c = c'])
    case aborted
    then show ?thesis using assms(7) inv1(2) by simp
  next
    case (released s2)
    then show ?thesis using ob(3) cor ev by simp
  qed
qed

theorem overrun_is_reported_witness:
  "\<exists>s1 s2. AllocatorImpl_allocate linear_os caller0 8 (new_impl AllocatorConfig_debug) = Returns (Inr 65584) s1 \<and>
     AllocatorImpl_deallocate linear_os caller0 65584 (on_mem (\<lambda>m. m(65592 := m 65592 + 1)) s1) = Returns (Inr ()) s2 \<and>
     events s2 = events s1 @ [error_event s1 HeapCorruption 65584]"
proof -
  have cfg: "enableGuardBytes AllocatorConfig_debug" "\<not> abortOnError AllocatorConfig_debug"
    by (simp_all add: AllocatorConfig_debug_def AllocatorConfig_default_def)
  obtain s1 where s1: "AllocatorImpl_allocate linear_os caller0 8 (new_impl AllocatorConfig_debug) = Returns (Inr 65584) s1"
    using first_object [of AllocatorConfig_debug] cfg(1) by auto
  let ?f = "\<lambda>m :: memory. m(65592 := m 65592 + 1)"
  have g: "65592 \<in> guard_bytes 65584 (asked 8)" by (simp add: guard_bytes_def asked_def const_simps)
  have f: "\<forall>x. x \<notin> cells (insert (65584, asked 8) {}) \<union> guard_bytes 65584 (asked 8) \<longrightarrow> ?f (mem (world s1)) x = mem (world s1) x"
    using g by auto
  have "\<exists>x \<in> guard_bytes 65584 (asked 8). ?f (mem (world s1)) x \<noteq> mem (world s1) x" using g by (intro bexI [of _ 65592]) simp_all
  then show ?thesis
    using overrun_is_reported [where f = ?f, OF fair_linear impl_reach.make [where full = True] _ cfg(1) s1 _ cfg(2) f, of caller0] s1 by auto
qed

text \<open>The bytes of all live payloads fit into the address space, so that no counter wraps.\<close>

lemma live_total:
  assumes "impl_inv full os s L"
  shows "(\<Sum>ob \<in> L. o_size ob) \<le> 2 ^ 56" "card L \<le> (\<Sum>ob \<in> L. o_size ob)"
proof -
  note d = impl_invD [OF assms]
  let ?P = "\<lambda>ob. {o_user ob..<o_user ob + o_size ob}"
  have "?P ob \<inter> ?P ob' = {}" if "ob \<in> L" "ob' \<in> L" "ob \<noteq> ob'" for ob ob'
    using payloads_apart(1) [OF assms that] by (auto simp: payload_of_def)
  then have "card (\<Union>ob \<in> L. ?P ob) = (\<Sum>ob \<in> L. card (?P ob))"
    using d(1) by (intro card_UN_disjoint) auto
  moreover have "(\<Union>ob \<in> L. ?P ob) \<subseteq> {..<2 ^ 56}"
  proof
    fix x assume "x \<in> (\<Union>ob \<in> L. ?P ob)"
    then obtain ob where ob: "ob \<in> L" "x \<in> ?P ob" by blast
    have "o_start ob + o_cap ob \<le> 2 ^ 56" using tiers.inv_bounded [OF d(3) block_mem [OF ob(1)]] .
    then show "x \<in> {..<2 ^ 56}" using ob payload_sub_block [OF d(4) [OF ob(1)]] by fastforce
  qed
  from card_mono [OF finite_lessThan this] have "card (\<Union>ob \<in> L. ?P ob) \<le> 2 ^ 56" by (simp only: card_lessThan)
  ultimately show "(\<Sum>ob \<in> L. o_size ob) \<le> 2 ^ 56" by simp
  show "card L \<le> (\<Sum>ob \<in> L. o_size ob)"
    using sum_mono [of L "\<lambda>_. 1" o_size] live_pointer(2) [OF assms] by (simp add: Suc_le_eq)
qed

lemma sum_to_size: "finite L \<Longrightarrow> (\<Sum>ob \<in> L. to_size (f ob)) = word_of_nat (\<Sum>ob \<in> L. f ob)"
  by (induction L rule: finite_induct) (simp_all add: to_size_def)

lemma unat_small: "n \<le> 2 ^ 56 \<Longrightarrow> unat (word_of_nat n :: 64 word) = n"
  by (simp add: unsigned_of_nat take_bit_nat_eq_self)

lemma statistics_spec:
  assumes "fair_start os tls0 M0" "impl_reach full os cfg tls0 M0 s A"
  shows "\<exists>t. AllocatorImpl_statistics s = Returns t s \<and> unat (activeAllocations t) = card A \<and>
    unat (currentUsage t) = (\<Sum>(p, n) \<in> A. n) \<and> allocationCount t = freeCount t + activeAllocations t \<and>
    allocatedBytes t = freedBytes t + currentUsage t"
proof -
  obtain L where "holds full os cfg M0 s A L" and L: "impl_inv full os s L" "payload_of ` L = A" and "config s = cfg"
    using reach_holds [OF assms] .
  note d = impl_invD [OF L(1)]
  have inv: "seg_inv os (world s) (segmentHeap s) (part1 (part2 (block_of ` L)))"
    using wide.invD(1) [OF central.invD(2)] d(3) by (simp add: central_inv_def central_of_def)
  then obtain B where "heap_ok (mem (world s)) (segmentHeap s) B" by (auto simp: seg_inv_def)
  from externalFragmentation_heap [OF this] obtain f where f: "externalFragmentation (mem (world s)) (segmentHeap s) = Some f" by blast
  have inj: "inj_on payload_of L"
    by (rule inj_onI) (use payloads_apart(2) [OF L(1)] in \<open>auto simp: payload_of_def\<close>)
  have A: "card A = card L" "(\<Sum>(p, n) \<in> A. n) = (\<Sum>ob \<in> L. o_size ob)"
    unfolding L(2) [symmetric] sum.reindex [OF inj] using card_image [OF inj] by (simp_all add: payload_of_def)
  note st = d(6) [unfolded counters_ok_def sum_to_size [OF d(1)]]
  have "unat (word_of_nat (card L) :: 64 word) = card L" "unat (word_of_nat (\<Sum>ob \<in> L. o_size ob) :: 64 word) = (\<Sum>ob \<in> L. o_size ob)"
    by (rule unat_small, use live_total [OF L(1)] in simp)+
  then show ?thesis using st f A by (simp add: AllocatorImpl_statistics_def snapshot_def Let_def del: of_nat_sum)
qed

text \<open>
  C18: the statistics are exact: \<open>statistics\<close> returns, without changing anything, a snapshot in which
  the active allocations are as many as the program holds, the usage is the sum of their sizes with
  no wrap-around, and the numbers of allocations and releases differ by just the active ones.
\<close>

theorem statistics_exact:
  assumes "fair_start os tls0 M0" "impl_reach full os cfg tls0 M0 s A"
  shows "\<exists>t. AllocatorImpl_statistics s = Returns t s \<and> unat (activeAllocations t) = card A \<and>
    unat (currentUsage t) = (\<Sum>(p, n) \<in> A. n) \<and> allocationCount t = freeCount t + activeAllocations t \<and>
    allocatedBytes t = freedBytes t + currentUsage t"
  by (rule statistics_spec [OF assms])

theorem statistics_exact_witness:
  "\<exists>s t. run_reach AllocatorConfig_release s {(65552, 8)} \<and> AllocatorImpl_statistics s = Returns t s \<and>
     unat (activeAllocations t) = 1 \<and> unat (currentUsage t) = 8"
proof -
  obtain s where s: "run_reach AllocatorConfig_release s {(65552, 8)}"
    using first_object [of AllocatorConfig_release] by (auto simp: AllocatorConfig_release_def AllocatorConfig_default_def)
  show ?thesis using statistics_exact [OF fair_linear s] s by auto
qed

lemma leaks_spec:
  assumes "fair_start os tls0 M0" "impl_reach True os cfg tls0 M0 s A" "enableLeakTracking cfg"
  shows "liveAllocationCount s = card A \<and>
    snd (snd (AllocatorImpl_destroy os s)) = events s @ (if A = {} then [] else [LeaksPrinted (card A)])"
proof -
  obtain L where L: "impl_inv True os s L" "payload_of ` L = A" "config s = cfg" using reach_holds [OF assms(1,2)] by blast
  note d = impl_invD [OF L(1)]
  have reg: "registry_ok (debug s)" "\<And>p n. map_of (live (debug s)) p = Some n \<Longrightarrow> \<exists>ob \<in> L. o_user ob = p"
    "\<And>ob. ob \<in> L \<Longrightarrow> isTracked (o_user ob) (debug s)"
    using d(7) assms(3) L(3) unfolding registered_def by blast+
  have "dom (map_of (live (debug s))) = o_user ` L" using reg(2,3) by (fastforce simp: isTracked_map_of)
  moreover have "inj_on o_user L" by (rule inj_onI) (use payloads_apart(2) [OF L(1)] in blast)
  ultimately have "liveCount (debug s) = card L" using liveCount_card [OF reg(1)] by (simp add: card_image)
  moreover have "inj_on payload_of L"
    by (rule inj_onI) (use payloads_apart(2) [OF L(1)] in \<open>auto simp: payload_of_def\<close>)
  then have "card A = card L" using L(2) card_image by blast
  moreover have "finite A" "A = {} \<longleftrightarrow> card A = 0" using d(1) L(2) by auto
  ultimately show ?thesis using assms(3) L(3) by (simp add: liveAllocationCount_def AllocatorImpl_destroy_def Let_def)
qed

text \<open>
  C19: with leak tracking on and room for the registry, the live count is the number of allocations the
  program holds, and destroying the allocator prints that number, or nothing when it is zero.
\<close>

theorem leaks_are_counted:
  assumes "fair_start os tls0 M0" "impl_reach True os cfg tls0 M0 s A" "enableLeakTracking cfg"
  shows "liveAllocationCount s = card A \<and>
    snd (snd (AllocatorImpl_destroy os s)) = events s @ (if A = {} then [] else [LeaksPrinted (card A)])"
  by (rule leaks_spec [OF assms])

theorem leaks_are_counted_witness:
  "\<exists>s. run_reach AllocatorConfig_debug s {(65584, 8)} \<and> liveAllocationCount s = 1 \<and>
     snd (snd (AllocatorImpl_destroy linear_os s)) = events s @ [LeaksPrinted 1]"
proof -
  obtain s where s: "run_reach AllocatorConfig_debug s {(65584, 8)}"
    using first_object [of AllocatorConfig_debug] by (auto simp: AllocatorConfig_debug_def)
  have "enableLeakTracking AllocatorConfig_debug" by (simp add: AllocatorConfig_debug_def)
  from leaks_are_counted [OF fair_linear s this] s show ?thesis by auto
qed

end
