(* ===== verification/DebugLimits.thy ===== *)
theory DebugLimits
  imports AllocatorProperties
begin

text \<open>
  Where the debug layer does not see an underrun.  Guard bytes lie before the shim header and behind
  the payload, but the sixteen bytes right in front of the pointer are the shim header, which no
  guard covers: a program that writes there is not told so.
\<close>

lemma le_digit:
  fixes a b :: nat
  assumes "a + 256 * b = 32"
  shows "a = 32 \<and> b = 0"
  using assms by (cases b) auto

text \<open>One byte of the distance to the block header, overwritten.\<close>

lemma offset_clobbered:
  assumes "load_header m h = \<lparr>payloadSize = n, tier = t, state = st, offset = 32\<rparr>"
  shows "load_header (m(h + 13 := 1)) h = \<lparr>payloadSize = n, tier = t, state = st, offset = 288\<rparr>"
proof -
  let ?m = "m(h + 13 := 1)"
  have same: "read64 ?m h = read64 m h" "read16 ?m (h + 8) = read16 m (h + 8)" "read16 ?m (h + 10) = read16 m (h + 10)"
    by (rule read_le_cong; simp)+
  have "read32 = read_le (Suc (Suc (Suc (Suc 0))))" by (simp add: numeral_eq_Suc)
  then have four: "read32 m' a = unat (m' a) + 256 * (unat (m' (Suc a)) + 256 * (unat (m' (Suc (Suc a))) + 256 * unat (m' (Suc (Suc (Suc a))))))"
    for m' :: memory and a by simp
  let ?a = "h + 12"
  have "read32 m ?a = 32" using assms by (simp add: load_header_def)
  from le_digit [OF this [unfolded four]] have d: "unat (m ?a) = 32" "unat (m (Suc (Suc ?a))) = 0" "unat (m (Suc (Suc (Suc ?a)))) = 0"
    by auto
  have "Suc ?a = h + 13" by simp
  then have "read32 ?m ?a = 288" unfolding four using d by simp
  then show ?thesis using assms same by (simp add: load_header_def)
qed

text \<open>A release that follows a header out of all mappings.\<close>

lemma release_astray:
  assumes "header_at (world s) p = Some h" "p \<noteq> 0" "enableLeakTracking (config s) \<longrightarrow> isTracked p (debug s)"
    "BlockHeader.tier h = tier_code DebugShim" "state h = kStateAllocated" "verifyGuards p (payloadSize h) (mem (world s))"
    "header_at (world s) (p - offset h) = None"
  shows "AllocatorImpl_deallocate os c p s = Undefined"
proof -
  have t: "tierValue h = Some DebugShim" "hasValidTier h" using assms(4) tierValue_code by (auto simp: hasValidTier_def)
  have none: "header_at (world (on_mem f s)) q = None" if "header_at (world s) q = None" for f q
  proof -
    have "byte_mapped (world (on_mem f s)) = byte_mapped (world s)" by (simp add: on_mem_def byte_mapped_def fun_eq_iff)
    then show ?thesis using that by (simp add: header_at_def split: if_splits)
  qed
  have raw: "rawDeallocate os c (p - offset h) (on_mem f s) = Undefined" for f
    using none [OF assms(7)] by (simp add: rawDeallocate_def)
  have comp: "on_mem f (on_mem g s) = on_mem (f \<circ> g) s" for f g by (simp add: on_mem_def)
  show ?thesis using assms(1-3,5,6) t raw
    by (auto simp: AllocatorImpl_deallocate_def release_block_def Let_def const_simps comp)
qed

text \<open>
  C21: in the debug configuration, a write of one byte three bytes before the pointer leaves all
  guards intact and sends the release to a block header outside of all memory: it is not reported as
  heap corruption but undefined.
\<close>

theorem underrun_is_not_reported:
  "\<exists>s1. AllocatorImpl_allocate linear_os caller0 8 (new_impl AllocatorConfig_debug) = Returns (Inr 65584) s1 \<and>
     verifyGuards 65584 8 ((mem (world s1))(65581 := 1)) \<and>
     AllocatorImpl_deallocate linear_os caller0 65584 (on_mem (\<lambda>m. m(65581 := 1)) s1) = Undefined"
proof -
  let ?cfg = AllocatorConfig_debug
  have cfg: "enableGuardBytes ?cfg" "enableLeakTracking ?cfg" "enablePoisoning ?cfg"
    by (simp_all add: AllocatorConfig_debug_def)
  obtain s1 where s1: "AllocatorImpl_allocate linear_os caller0 8 (new_impl ?cfg) = Returns (Inr 65584) s1"
    "run_reach ?cfg s1 {(65584, 8)}" "mapped (world s1) = [(65536, 65536)]"
    using first_object [of ?cfg] cfg(1) by auto
  have "impl_inv True linear_os (new_impl ?cfg) {}" using make_inv fair_linear by (auto simp: fair_start_def)
  then obtain ob where ob: "served True linear_os caller0 8 {} (new_impl ?cfg) (Returns (Inr 65584) s1) ob s1" "o_kind ob = Guarded"
    using allocated_object [OF _ _ s1(1)] cfg(1) by (auto simp: asked_def)
  then have inv: "impl_inv True linear_os s1 {ob}" "o_user ob = 65584" "o_size ob = 8" "config s1 = ?cfg" "\<not> corrupted s1 ob"
    by (auto simp: served_def)
  have wf: "o_start ob = 65536" using impl_invD(4) [OF inv(1), of ob] ob(2) inv(2) by (simp add: obj_wf_def)
  let ?m = "(mem (world s1))(65581 := 1)" and ?s = "on_mem (\<lambda>m. m(65581 := 1)) s1"
  have "load_header (mem (world s1)) 65568 = \<lparr>payloadSize = 8, tier = tier_code DebugShim, state = kStateAllocated, offset = 32\<rparr>"
    using impl_invD(5) [OF inv(1), of ob] ob(2) inv(2,3) wf by (simp add: obj_hdr_def user_header_def shim_header_def)
  from offset_clobbered [OF this]
  have h: "load_header ?m 65568 = \<lparr>payloadSize = 8, tier = tier_code DebugShim, state = kStateAllocated, offset = 288\<rparr>" by simp
  have v: "verifyGuards 65584 8 ?m"
    using inv(2-5) ob(2) cfg(1) verifyGuards_iff [of 65584 8] by (auto simp: corrupted_def guard_bytes_def const_simps)
  have "AllocatorImpl_deallocate linear_os caller0 65584 ?s = Undefined"
  proof (rule release_astray)
    show "header_at (world ?s) 65584 = Some (load_header ?m 65568)"
      using s1(3) by (auto simp: fun_upd_def header_at_def byte_mapped_def headerOf_def list_all_iff const_simps)
    show "enableLeakTracking (config ?s) \<longrightarrow> isTracked 65584 (debug ?s)"
      using accepted' [OF inv(1)] inv(2) by simp
    show "header_at (world ?s) (65584 - offset (load_header ?m 65568)) = None"
      using s1(3) by (auto simp: h header_at_def byte_mapped_def headerOf_def list_all_iff const_simps)
  qed (use h v in \<open>simp_all add: fun_upd_def\<close>)
  then show ?thesis using s1(1) v by blast
qed

end
