(* ===== verification/UntrackedFree.thy ===== *)
theory UntrackedFree
  imports AllocatorProperties
begin

text \<open>
  Double frees without a registry.  The links of the free lists overwrite the size in the header of a
  small block but neither its tier nor its state, whichever list the block goes to, so that a second
  release finds the mark of the first.
\<close>

section \<open>What giving a small block back writes\<close>

text \<open>A link takes the lower half of a 16-byte unit.\<close>

lemma link_low: "16 dvd b \<Longrightarrow> 8 \<le> x mod 16 \<Longrightarrow> write64 b v m x = m x"
proof -
  assume b: "16 dvd b" and x: "8 \<le> x mod 16"
  obtain k where k: "b = 16 * k" using b by blast
  have "\<not> (b \<le> x \<and> x < b + 8)"
  proof
    assume "b \<le> x \<and> x < b + 8"
    then obtain j where "x = 16 * k + j" "j < 8" using k by (metis add_less_cancel_left le_Suc_ex)
    then show False using x by simp
  qed
  then show ?thesis by (auto simp: write_le_def)
qed

lemma upper_half: "16 dvd a \<Longrightarrow> a + 8 \<le> x \<Longrightarrow> x < a + 16 \<Longrightarrow> 8 \<le> x mod (16 :: nat)"
proof -
  assume a: "16 dvd a" and x: "a + 8 \<le> x" "x < a + 16"
  obtain k where k: "a = 16 * k" using a by blast
  obtain j where "x = 16 * k + (8 + j)" "j < 8" using x k by (auto simp: le_iff_add)
  then show ?thesis by simp
qed

lemma push_low: "16 dvd b \<Longrightarrow> 8 \<le> x mod 16 \<Longrightarrow> fst (FreeList_push b (m, fl)) x = m x"
  by (simp add: FreeList_push_def link_low)

lemma fold_push_low:
  "\<forall>b \<in> set bs. 16 dvd b \<Longrightarrow> 8 \<le> x mod 16 \<Longrightarrow> fst (fold FreeList_push bs (m, fl)) x = m x"
proof (induction bs arbitrary: m fl)
  case (Cons b bs)
  obtain m1 fl1 where p: "FreeList_push b (m, fl) = (m1, fl1)" by (cases "FreeList_push b (m, fl)")
  have "m1 x = m x" using push_low [of b x m fl] Cons.prems p by simp
  then show ?case using Cons.IH [of m1 fl1] Cons.prems p by simp
qed simp

lemma smallFree_low:
  assumes "small_inv os M (pools, tls) R" "16 dvd b" "smallFree en t ok i b M (pools, tls) = Some (M', pools', tls')"
  shows "mapped M' = mapped M" "8 \<le> x mod 16 \<Longrightarrow> mem M' x = mem M x"
proof -
  obtain r tls1 where tl: "threadCache en t ok tls = (r, tls1)" by (cases "threadCache en t ok tls")
  note same = threadCache_same [OF assms(1) tl]
  have core1: "core os M pools (cached tls1) R" using same(1) by (simp add: small_inv_def)
  note pinv = coreD(1) [OF core1]
  have "mapped M' = mapped M \<and> (8 \<le> x mod 16 \<longrightarrow> mem M' x = mem M x)"
  proof (cases r)
    case None
    then have "PoolAllocator_freeBlock i b M pools = Some (M', pools')"
      using assms(3) tl by (auto simp: smallFree_def bind_eq_Some_conv)
    then show ?thesis using push_low [OF assms(2), of x "mem M" "freeList (pools ! i)"]
      by (auto simp: PoolAllocator_freeBlock_def Let_def split: if_splits prod.splits)
  next
    case (Some tc)
    have tc: "tls1 t = Some tc" "\<not> expired tc" "cache_wf tc" using same(3) [OF Some] by auto
    obtain tc' where run: "ThreadCache_freeBlock i b M pools tc = Some (M', pools', tc')"
      using assms(3) tl Some by (auto simp: smallFree_def bind_eq_Some_conv)
    then have i: "i < kClassCount" using tc(3) by (auto simp: ThreadCache_freeBlock_def cache_wf_def split: if_splits)
    show ?thesis
    proof (cases "count (caches tc ! i) = kCapacity")
      case False
      then show ?thesis using run by (auto simp: ThreadCache_freeBlock_def Let_def split: if_splits)
    next
      case True
      let ?bs = "take kBatchSize (drop (kCapacity - kBatchSize) (slots (caches tc ! i)))"
      have free: "PoolAllocator_freeBatch i ?bs M pools = Some (M', pools')"
        using run True by (auto simp: ThreadCache_freeBlock_def Let_def bind_eq_Some_conv split: if_splits)
      have "16 dvd b'" if "b' \<in> set ?bs" for b'
      proof -
        have "b' \<in> set (slots (caches tc ! i))" using that by (meson in_set_dropD in_set_takeD)
        then have "b' \<in> set (tc_list tc i)" using True cache_wf_at(1) [OF tc(3) i] i tc(2) by (simp add: tc_list_def cache_list_def)
        then have "(i, b', blockStride i) \<in> held_blocks (cached tls1)"
          using i tc(1) by (auto simp: held_blocks_iff cached_def intro!: exI [of _ t])
        then show ?thesis using outstanding_block(2) [OF pinv, of i b' "blockStride i"] by simp
      qed
      then show ?thesis using free fold_push_low [of ?bs x "mem M" "freeList (pools ! i)"]
        by (auto simp: PoolAllocator_freeBatch_def Let_def split: if_splits prod.splits)
    qed
  qed
  then show "mapped M' = mapped M" "8 \<le> x mod 16 \<Longrightarrow> mem M' x = mem M x" by auto
qed

lemma rawDeallocate_low:
  assumes "tiers_ok os s R" "(Inl i, p, len) \<in> R" "16 \<le> len" "16 dvd p" "BlockHeader.tier (load_header (mem (world s)) p) = tier_code Small"
    "rawDeallocate os c (p + 16) s = Returns (Inr r) s'"
  shows "mapped (world s') = mapped (world s)"
    "8 \<le> x mod 16 \<Longrightarrow> mem (world s') x = store_state p kStateFreed (mem (world s)) x"
proof -
  let ?s = "on_mem (store_state p kStateFreed) s"
  have blk: "{p..<p + 16} \<subseteq> {p..<p + len}" using assms(3) by auto
  have "store_state p kStateFreed (mem (world s)) x = mem (world s) x" if "x \<notin> cells (snd ` R)" for x
  proof (rule store_state_out)
    have "x \<notin> {p..<p + 16}" using that blk block_outstanding(4) [OF assms(1,2)] by blast
    then show "x < p + 10 \<or> p + 12 \<le> x" by auto
  qed
  then have "tiers_ok os ?s R" by (rule tiers_write [OF assms(1)])
  then have inv: "small_inv os (world ?s) (poolAllocator s, tlsCaches s) (part1 R)"
    by (simp add: central_inv_def pair_inv_def central_of_def)
  have hd: "header_at (world s) (p + 16) = Some (load_header (mem (world s)) p)" "headerOf (p + 16) = p"
    using block_outstanding(3) [OF assms(1,2)] blk header_at_mapped by (blast, simp add: headerOf_def const_simps)
  have "tierValue (load_header (mem (world s)) p) = Some Small" using assms(5) by (rule tierValue_code)
  then obtain j M pools tls where f: "smallFree (enableThreadCache (config s)) (thread c) (cacheRoom c) j p (world ?s)
      (poolAllocator s, tlsCaches s) = Some (M, pools, tls)" "world s' = M"
    using assms(6) hd by (auto simp: rawDeallocate_def Let_def split: option.splits)
  note low = smallFree_low [OF inv assms(4) f(1)]
  show "mapped (world s') = mapped (world s)" using low(1) f(2) by simp
  show "mem (world s') x = store_state p kStateFreed (mem (world s)) x" if "8 \<le> x mod 16" using low(2) [OF that] f(2) by simp
qed

text \<open>The state field of a header, written, in a memory that agrees on its upper half.\<close>

lemma freed_header:
  assumes "\<And>x. a + 8 \<le> x \<Longrightarrow> x < a + 16 \<Longrightarrow> m' x = store_state a kStateFreed m x"
  shows "BlockHeader.tier (load_header m' a) = BlockHeader.tier (load_header m a)" "state (load_header m' a) = kStateFreed"
proof -
  let ?m = "store_state a kStateFreed m"
  have rd: "BlockHeader.tier (load_header k a) = read16 k (a + 8)" "state (load_header k a) = read16 k (a + 10)" for k
    by (simp_all add: load_header_def)
  have same: "read16 m' (a + 8) = read16 ?m (a + 8)" "read16 m' (a + 10) = read16 ?m (a + 10)"
    by (rule read_le_cong, rule assms; simp)+
  have "load_header ?m a = (load_header m a)\<lparr>state := kStateFreed\<rparr>" by (simp add: load_store_state const_simps)
  then have "BlockHeader.tier (load_header ?m a) = BlockHeader.tier (load_header m a)" "state (load_header ?m a) = kStateFreed" by simp_all
  then show "BlockHeader.tier (load_header m' a) = BlockHeader.tier (load_header m a)" "state (load_header m' a) = kStateFreed"
    unfolding rd same by simp_all
qed

section \<open>Properties\<close>

text \<open>
  C16: without leak tracking, the header alone gives a double free away: a second release of a small
  allocation, by any thread and before the block is handed out again, is reported as such and changes
  nothing else.
\<close>

theorem untracked_double_free_is_reported:
  assumes "fair_start os tls0 M0" "impl_reach full os cfg tls0 M0 s A" "\<not> enableLeakTracking cfg" "(p, n) \<in> A"
    "BlockHeader.tier (load_header (mem (world s)) (headerOf p)) = tier_code Small"
  shows "\<exists>s'. AllocatorImpl_deallocate os c p s = Returns (Inr ()) s' \<and> AllocatorImpl_deallocate os c' p s' = fail_with DoubleFree p s'"
proof -
  obtain L where L: "holds full os cfg M0 s A L" "impl_inv full os s L" "config s = cfg" using reach_holds [OF assms(1,2)] by blast
  obtain ob where ob: "ob \<in> L" "o_user ob = p" using live_object [OF L(1) assms(4)] by blast
  note wf = impl_invD(4) [OF L(2) ob(1)] and hdr = impl_invD(5) [OF L(2) ob(1)]
  note w = obj_wfD [OF wf] and u = user_header_facts [OF wf]
  have tier: "BlockHeader.tier (user_header ob) = tier_code Small"
    using assms(5) hdr ob(2) by (simp add: obj_hdr_def headerOf_def const_simps)
  have plain: "o_kind ob = Plain" using tier by (cases "o_kind ob") (auto simp: user_header_def shim_header_def)
  have ps: "p = o_start ob + 16" using w(13) [OF plain] ob(2) by simp
  have "tier_of (o_key ob) = Small"
    using tier plain tier_code_inj [of "tier_of (o_key ob)" Small] by (simp add: user_header_def fresh_header_def)
  then obtain i where key: "o_key ob = Inl i" by (auto simp: tier_of_def split: sum.splits)
  let ?s0 = "on_mem (wipe s ob) s" and ?a = "o_start ob"
  have wout: "wipe s ob (mem (world s)) x = mem (world s) x" if "x \<notin> {?a + 16..<?a + o_cap ob}" for x
    using wipe_out [OF wf that] .
  obtain s1 where s1: "rawDeallocate os c (?a + 16) ?s0 = Returns (Inr (reserved_of (o_key ob) (o_cap ob))) s1" "same_rest s s1"
    using release_raw [where f = "wipe s ob" and c = c, OF L(2) ob(1) wout] by blast
  let ?s' = "s1\<lparr>stats := recordFree (to_size (o_size ob)) (to_size (reserved_of (o_key ob) (o_cap ob))) (stats s1)\<rparr>"
  have ok: "\<not> corrupted s ob" using plain by (simp add: corrupted_def)
  have first: "AllocatorImpl_deallocate os c p s = Returns (Inr ()) ?s'"
    using live_header [OF L(2) ob(1)] u(1,2,4) s1(1) ok assms(3) L(3) ob(2) release_block_eq [OF wf, of os c s]
    by (simp add: AllocatorImpl_deallocate_def const_simps)
  note out = block_outstanding [OF impl_invD(3) [OF L(2)] block_mem [OF ob(1)]]
  have "{?a + 16..<?a + o_cap ob} \<subseteq> {?a..<?a + o_cap ob}" by auto
  then have tiers: "tiers_ok os ?s0 (block_of ` L)"
    using out(4) wout by (intro tiers_write [OF impl_invD(3) [OF L(2)]]) blast
  have "load_header (mem (world ?s0)) ?a = load_header (mem (world s)) ?a"
    by (rule load_header_cong) (use wout in auto)
  then have h0: "load_header (mem (world ?s0)) ?a = user_header ob"
    using hdr plain by (simp add: obj_hdr_def user_header_def)
  have mem: "(Inl i, ?a, o_cap ob) \<in> block_of ` L" using block_mem [OF ob(1)] key by simp
  note low = rawDeallocate_low [OF tiers mem w(4,6) tier [folded h0] s1(1)]
  let ?h = "load_header (mem (world s1)) ?a"
  have "mem (world s1) x = store_state ?a kStateFreed (mem (world ?s0)) x" if "?a + 8 \<le> x" "x < ?a + 16" for x
    by (rule low(2)) (use upper_half [OF w(6) that] in simp)
  note h = freed_header [OF this, unfolded h0 tier]
  have "byte_mapped (world s1) = byte_mapped (world s)" using low(1) by (simp add: byte_mapped_def fun_eq_iff)
  then have "header_at (world ?s') p = Some ?h" using live_header(1) [OF L(2) ob(1)] ob(2) ps
    by (simp add: header_at_def headerOf_def const_simps split: if_splits)
  then have "AllocatorImpl_deallocate os c' p ?s' = fail_with DoubleFree p ?s'"
    using h assms(3) L(3) s1(2) ps by (simp add: AllocatorImpl_deallocate_def hasValidTier_def same_rest_def const_simps)
  then show ?thesis using first by blast
qed

theorem untracked_double_free_is_reported_witness:
  "\<exists>s s'. run_reach AllocatorConfig_release s {(65552, 8)} \<and>
     AllocatorImpl_deallocate linear_os caller0 65552 s = Returns (Inr ()) s' \<and>
     AllocatorImpl_deallocate linear_os caller0 65552 s' = fail_with DoubleFree 65552 s'"
proof -
  let ?cfg = AllocatorConfig_release
  have cfg: "\<not> enableGuardBytes ?cfg" "\<not> enableLeakTracking ?cfg" by (simp_all add: AllocatorConfig_release_def AllocatorConfig_default_def)
  obtain s where s: "AllocatorImpl_allocate linear_os caller0 8 (new_impl ?cfg) = Returns (Inr 65552) s" "run_reach ?cfg s {(65552, 8)}"
    using first_object [of ?cfg] cfg(1) by auto
  have "impl_inv True linear_os (new_impl ?cfg) {}" using make_inv fair_linear by (auto simp: fair_start_def)
  then obtain ob where "served True linear_os caller0 8 {} (new_impl ?cfg) (Returns (Inr 65552) s) ob s" "o_kind ob = Plain"
    using allocated_object [OF _ _ s(1)] cfg(1) by (auto simp: asked_def)
  then have ob: "impl_inv True linear_os s {ob}" "o_user ob = 65552" "o_size ob = 8" "o_kind ob = Plain" by (auto simp: served_def)
  note wf = impl_invD(4) [OF ob(1), of ob]
  have "key_for (o_key ob) 8" using obj_wfD(1) [OF wf] obj_wfD(13) [OF wf] ob(3,4) by simp
  then have "tier_of (o_key ob) = Small" by (auto simp: key_for_def tier_of_def const_simps split: sum.splits)
  then have "BlockHeader.tier (load_header (mem (world s)) (headerOf 65552)) = tier_code Small"
    using impl_invD(5) [OF ob(1), of ob] ob(2,4) by (simp add: obj_hdr_def user_header_def fresh_header_def headerOf_def const_simps)
  from untracked_double_free_is_reported [OF fair_linear s(2) cfg(2) _ this, of 8 caller0 caller0] s(2) show ?thesis by auto
qed

end
