(* ===== verification/LiveHeaders.thy ===== *)
theory LiveHeaders
  imports AllocatorProperties
begin

text \<open>
  The allocator has no table of its allocations: what a pointer is, it reads from the sixteen bytes in
  front of it.  In every state a program can reach, these bytes are a header of the right type, and the
  offset of a shim leads to the header of the block it lies in.
\<close>

text \<open>The tier that serves a request, and a header as \<open>rawAllocate\<close> leaves it.\<close>

definition tier_for :: "nat \<Rightarrow> Tier" where
  "tier_for n = (if n \<le> kSmallMax then Small else if n \<le> kMediumMax then Medium else Large)"

definition raw_header :: "machine \<Rightarrow> addr \<Rightarrow> nat \<Rightarrow> bool" where
  "raw_header M p n \<longleftrightarrow> (\<exists>h. header_at M p = Some h \<and> tierValue h = Some (tier_for n) \<and>
     state h = kStateAllocated \<and> payloadSize h = n \<and> offset h = 0)"

text \<open>A shim sits inside the payload of a raw block, at the distance its offset says.\<close>

definition shim_over :: "machine \<Rightarrow> addr \<Rightarrow> nat \<Rightarrow> bool" where
  "shim_over M p n \<longleftrightarrow> (\<exists>h t n'. header_at M p = Some h \<and> tierValue h = Some t \<and> t \<in> {AlignedShim, DebugShim} \<and>
     state h = kStateAllocated \<and> payloadSize h = n \<and> 16 \<le> offset h \<and> offset h < 2 ^ 32 \<and> offset h \<le> p \<and>
     raw_header M (p - offset h) n' \<and> offset h + n \<le> n')"

lemma tier_for_key: "key_for k n \<Longrightarrow> tier_of k = tier_for n"
  by (auto simp: key_for_def tier_of_def tier_for_def const_simps split: sum.splits)

lemma block_header:
  assumes "impl_inv full os s L" "ob \<in> L"
  shows "header_at (world s) (o_start ob + 16) = Some (fresh_header (o_req ob) (tier_of (o_key ob)))"
proof -
  note d = impl_invD [OF assms(1)]
  note w = obj_wfD [OF d(4) [OF assms(2)]]
  have "{o_start ob..<o_start ob + 16} \<subseteq> {o_start ob..<o_start ob + o_cap ob}" using w(4) by auto
  also have "\<dots> \<subseteq> mapped_cells (world s)" using block_outstanding(3) [OF d(3) block_mem [OF assms(2)]] .
  finally show ?thesis using header_at_mapped [of "o_start ob" "world s"] d(5) [OF assms(2)] by (simp add: obj_hdr_def)
qed

lemma raw_block:
  assumes "impl_inv full os s L" "ob \<in> L"
  shows "raw_header (world s) (o_start ob + 16) (o_req ob)"
  using block_header [OF assms] tier_for_key [OF obj_wfD(1) [OF impl_invD(4) [OF assms]]]
  by (simp add: raw_header_def fresh_header_def tierValue_code)

lemma shim_block:
  assumes "impl_inv full os s L" "ob \<in> L" "o_kind ob \<noteq> Plain"
  shows "shim_over (world s) (o_user ob) (o_size ob)"
proof -
  note wf = impl_invD(4) [OF assms(1,2)]
  note w = obj_wfD [OF wf] and u = user_header_facts [OF wf]
  have off: "offset (user_header ob) = o_user ob - (o_start ob + 16)" by (rule u(5) [OF assms(3)])
  have "o_user ob - offset (user_header ob) = o_start ob + 16" using off w(9) by simp
  then have "raw_header (world s) (o_user ob - offset (user_header ob)) (o_req ob)" using raw_block [OF assms(1,2)] by simp
  moreover have "offset (user_header ob) + o_size ob \<le> o_req ob" using wf off assms(3) by (auto simp: obj_wf_def split: kind.splits)
  moreover have "shim_tier (o_kind ob) \<in> {AlignedShim, DebugShim}" by (cases "o_kind ob") auto
  ultimately show ?thesis unfolding shim_over_def
    using live_header(1) [OF assms(1,2)] u(1-3) off w(12) [OF assms(3)] w(14) assms(3)
    by (intro exI [of _ "user_header ob"] exI [of _ "shim_tier (o_kind ob)"] exI [of _ "o_req ob"]) auto
qed

text \<open>
  C2: whatever a program has done, every allocation it holds has a well-formed header in front of it: a
  raw one, with the tier of its size and offset 0, or a shim whose offset leads to the raw header of a
  block that is large enough for the shift and the payload; marked allocated, with the size asked for,
  which is at most the limit.
\<close>

theorem live_headers_well_formed:
  assumes "fair_start os tls0 M0" "impl_reach full os cfg tls0 M0 s A"
  shows "\<forall>(p, n) \<in> A. n \<le> kMaxRequest \<and> (raw_header (world s) p n \<or> shim_over (world s) p n)"
proof -
  obtain L where L: "holds full os cfg M0 s A L" "impl_inv full os s L" using reach_holds [OF assms] .
  have "n \<le> kMaxRequest \<and> (raw_header (world s) p n \<or> shim_over (world s) p n)" if pn: "(p, n) \<in> A" for p n
  proof -
    obtain ob where ob: "ob \<in> L" "o_user ob = p" "o_size ob = n" by (rule live_object [OF L(1) pn])
    note w = obj_wfD [OF impl_invD(4) [OF L(2) ob(1)]]
    show ?thesis using w(8,13) raw_block [OF L(2) ob(1)] shim_block [OF L(2) ob(1)] ob(2,3) by (cases "o_kind ob = Plain") auto
  qed
  then show ?thesis by blast
qed

theorem live_headers_well_formed_witness:
  "\<exists>s. run_reach AllocatorConfig_debug s {(65584, 8)} \<and> (raw_header (world s) 65584 8 \<or> shim_over (world s) 65584 8)"
proof -
  have "enableGuardBytes AllocatorConfig_debug" by (simp add: AllocatorConfig_debug_def)
  then obtain s where s: "run_reach AllocatorConfig_debug s {(65584, 8)}" using first_object [of AllocatorConfig_debug] by auto
  then show ?thesis using live_headers_well_formed [OF fair_linear, of True AllocatorConfig_debug s "{(65584, 8)}"] by auto
qed

end
