(* ===== verification/AllocatorLifetime.thy ===== *)
theory AllocatorLifetime
  imports AllocatorProperties
begin

text \<open>
  The end of an allocator.  Whatever is still allocated, its destructor gives every mapping back to
  the operating system, leaves the memory of others as it was, and leaves no thread with a cache
  that could be used again: the world is as good a start for the next allocator as it was for this
  one.
\<close>

section \<open>Unmapping many regions\<close>

lemma MappedRegion_destroy_mapped:
  assumes "os_ok os" "machine_ok M" "r \<in> set (mapped M)"
  defines "M' \<equiv> MappedRegion_destroy os r M"
  shows "machine_ok M'" "set (mapped M') = set (mapped M) - {r}" "x \<in> cells (set (mapped M) - {r}) \<Longrightarrow> mem M' x = mem M x"
proof -
  obtain p n where r: "r = (p, n)" by (cases r)
  have "0 < n" using assms(2,3) r by (auto simp: machine_ok_def)
  then have M': "M' = SystemMemory_unmap os (p, n) M" by (simp add: M'_def r MappedRegion_destroy_def MappedRegion_reset_def)
  note un = SystemMemory_unmap_mapped [OF assms(1,2) assms(3) [unfolded r]]
  show "machine_ok M'" using un(2) M' by simp
  show "set (mapped M') = set (mapped M) - {r}" using un(1) M' machine_ok_distinct [OF assms(2)] r by simp
  show "mem M' x = mem M x" if x: "x \<in> cells (set (mapped M) - {r})"
  proof -
    obtain a k where ak: "(a, k) \<in> set (mapped M)" "(a, k) \<noteq> r" "a \<le> x" "x < a + k" using x by (auto simp: cells_iff)
    then have "apart (a, k) (p, n)" using machine_ok_apart [OF assms(2) ak(1) assms(3)] r by simp
    then have "x < p \<or> p + n \<le> x" using ak(3,4) by auto
    then show ?thesis using un(4) M' by blast
  qed
qed

lemma destroy_regions_mapped:
  assumes "os_ok os" "machine_ok M" "distinct rs" "set rs \<subseteq> set (mapped M)"
  shows "machine_ok (destroy_regions os rs M) \<and> set (mapped (destroy_regions os rs M)) = set (mapped M) - set rs \<and>
    (\<forall>x \<in> cells (set (mapped M) - set rs). mem (destroy_regions os rs M) x = mem M x)"
  using assms(2-4)
proof (induction rs arbitrary: M)
  case Nil
  then show ?case by (simp add: destroy_regions_def)
next
  case (Cons r rs)
  have r: "r \<in> set (mapped M)" using Cons.prems by simp
  note d = MappedRegion_destroy_mapped [OF assms(1) Cons.prems(1) r]
  have sub: "set rs \<subseteq> set (mapped (MappedRegion_destroy os r M))" using Cons.prems by (auto simp: d(2))
  have "set (mapped M) - {r} - set rs = set (mapped M) - set (r # rs)" by auto
  moreover have "cells (set (mapped M) - set (r # rs)) \<subseteq> cells (set (mapped M) - {r})" by (intro cells_mono) auto
  ultimately show ?case using Cons.IH [OF d(1) _ sub] Cons.prems(2) d(2,3)
    by (auto simp: destroy_regions_def)
qed

lemma destroy_regions_append: "destroy_regions os (rs @ rs') M = destroy_regions os rs' (destroy_regions os rs M)"
  by (simp add: destroy_regions_def)

lemma PoolAllocator_destroy_regions: "PoolAllocator_destroy os pools M = destroy_regions os (pool_regs pools) M"
  by (induction pools arbitrary: M) (simp_all add: PoolAllocator_destroy_def pool_regs_def destroy_regions_append destroy_regions_def)

lemma CentralState_destroy_regions:
  "CentralState_destroy os s =
     destroy_regions os (large_regs (largeAllocator s) @ segments (segmentHeap s) @ pool_regs (poolAllocator s)) (world s)"
  by (simp add: CentralState_destroy_def PoolAllocator_destroy_regions SegmentHeap_destroy_def LargeAllocator_destroy_def
      large_regs_def destroy_regions_append)

section \<open>No mapping has two owners\<close>

lemma pool_regs_distinct:
  assumes "pools_inv os M pools R"
  shows "distinct (pool_regs pools)"
proof -
  note P = pools_invD [OF assms]
  have run: "distinct (runs (pools ! i))" if "i < length pools" for i
    using P(5) [of i] P(3) that by (auto simp: bump_ok_def elim: shard_invE)
  have apart: "set (runs (pools ! i)) \<inter> set (runs (pools ! j)) = {}" if "i < j" "j < length pools" for i j
    using P(6) [of i j] P(3) that by simp
  have "distinct (concat (map runs ps))" if "\<And>i. i < length ps \<Longrightarrow> distinct (runs (ps ! i))"
    "\<And>i j. i < j \<Longrightarrow> j < length ps \<Longrightarrow> set (runs (ps ! i)) \<inter> set (runs (ps ! j)) = {}" for ps
    using that
  proof (induction ps)
    case (Cons p ps)
    have "distinct (runs p)" using Cons.prems(1) [of 0] by simp
    moreover have "distinct (concat (map runs ps))"
      by (rule Cons.IH) (use Cons.prems(1) [of "Suc _"] Cons.prems(2) [of "Suc _" "Suc _"] in auto)
    moreover have "set (runs p) \<inter> set (runs q) = {}" if "q \<in> set ps" for q
      using that Cons.prems(2) [of 0 "Suc _"] by (auto simp: in_set_conv_nth)
    ultimately show ?case by auto
  qed simp
  from this [of pools] show ?thesis using run apart by (simp add: pool_regs_def)
qed

lemma large_regs_distinct:
  assumes "large_inv os M large R"
  shows "distinct (large_regs large)"
proof -
  note d = large_invD [OF assms]
  have "fst e = fst (snd e) + 16" if "e \<in> set large" for e using d(5) [of "fst e" "fst (snd e)" "snd (snd e)"] that by simp
  then have "map fst large = map (\<lambda>r. fst r + 16) (large_regs large)" by (simp add: large_regs_def)
  then show ?thesis using d(3) by (simp add: distinct_map)
qed

lemma regions_distinct:
  assumes "tiers_ok os s R"
  shows "distinct (large_regs (largeAllocator s) @ segments (segmentHeap s) @ pool_regs (poolAllocator s))"
    "set (large_regs (largeAllocator s) @ segments (segmentHeap s) @ pool_regs (poolAllocator s)) = set (regs_of s)"
proof -
  have inv: "pair_inv small_regs wide_regs (small_inv os) (wide_inv os) (world s)
      ((poolAllocator s, tlsCaches s), segmentHeap s, largeAllocator s) R"
    using assms by (simp add: central_inv_def central_of_def)
  note c = central.invD [OF inv] and w = wide.invD [OF central.invD(2) [OF inv]]
  have "distinct (pool_regs (poolAllocator s))" using c(1) pool_regs_distinct by (auto simp: small_inv_def core_def)
  moreover have "distinct (segments (segmentHeap s))" using w(1) heap_okD(4) by (auto simp: seg_inv_def)
  moreover have "distinct (large_regs (largeAllocator s))" using w(2) by (rule large_regs_distinct)
  ultimately show "distinct (large_regs (largeAllocator s) @ segments (segmentHeap s) @ pool_regs (poolAllocator s))"
    using c(3) w(3) by (auto simp: small_regs_def pair_regs_def)
  show "set (large_regs (largeAllocator s) @ segments (segmentHeap s) @ pool_regs (poolAllocator s)) = set (regs_of s)"
    by (auto simp: central_of_def central_regs_def pair_regs_def small_regs_def)
qed

section \<open>Properties\<close>

lemma destruction_spec:
  assumes "fair_start os tls0 M0" "impl_reach full os cfg tls0 M0 s A" "AllocatorImpl_destroy os s = (M', tls', evs)"
  shows "set (mapped M') = set (mapped M0) \<and> (\<forall>x \<in> mapped_cells M0. mem M' x = mem M0 x) \<and> fair_start os tls' M'"
proof -
  obtain L where L: "holds full os cfg M0 s A L" "impl_inv full os s L" using reach_holds [OF assms(1,2)] by blast
  note t = impl_invD(3) [OF L(2)]
  note m = tiers.inv_machine [OF t] and r = regions_distinct [OF t]
  have ok: "os_ok os" using assms(1) by (simp add: fair_start_def)
  have M': "M' = CentralState_destroy os s" "tls' = expire (tlsCaches s)"
    using assms(3) by (auto simp: AllocatorImpl_destroy_def Let_def)
  have h: "set (mapped (world s)) - set (regs_of s) = set (mapped M0)" "\<forall>x \<in> mapped_cells M0. mem (world s) x = mem M0 x"
    using L(1) by (simp_all add: holds_def)
  have "all_expired tls'" by (auto simp: M'(2) all_expired_def expire_def)
  then show ?thesis
    using destroy_regions_mapped [OF ok, of "world s", OF _ r(1)] m h ok
    unfolding M'(1) CentralState_destroy_regions r(2) by (auto simp: fair_start_def mapped_cells_def)
qed

text \<open>
  C7: when an allocator is destroyed, with whatever allocations outstanding, the mappings of the
  process are exactly those from before it was made, with their bytes, and the caches of all threads
  have expired: another allocator can start from there.
\<close>

theorem destruction_returns_all_mappings:
  assumes "fair_start os tls0 M0" "impl_reach full os cfg tls0 M0 s A" "AllocatorImpl_destroy os s = (M', tls', evs)"
  shows "set (mapped M') = set (mapped M0) \<and> (\<forall>x \<in> mapped_cells M0. mem M' x = mem M0 x) \<and> fair_start os tls' M'"
  by (rule destruction_spec [OF assms])

theorem destruction_returns_all_mappings_witness:
  "\<exists>s M' tls' evs. run_reach AllocatorConfig_release s {(65552, 8)} \<and>
     AllocatorImpl_destroy linear_os s = (M', tls', evs) \<and> set (mapped M') = {}"
proof -
  obtain s where s: "run_reach AllocatorConfig_release s {(65552, 8)}"
    using first_object [of AllocatorConfig_release] by (auto simp: AllocatorConfig_release_def AllocatorConfig_default_def)
  obtain M' tls' evs where d: "AllocatorImpl_destroy linear_os s = (M', tls', evs)" by (cases "AllocatorImpl_destroy linear_os s")
  show ?thesis using destruction_returns_all_mappings [OF fair_linear s d] s d by (auto simp: blank_machine_def)
qed

end
