(* ===== verification/AllocatorCalls.thy ===== *)
theory AllocatorCalls
  imports AllocatorImpl
begin

text \<open>
  The calls of \<^verbatim>\<open>src/AllocatorImpl.cpp\<close> as the steps other threads can come between.  Under the locks of
  the tiers and of the registry, an allocation is taking a block and preparing it, counting it,
  registering it.  A release is asking the registry, giving the block back, counting it, and removing
  it from the registry.  The counting is here what it comes to when no other thread is at the counters;
  access by access it is \<open>allocationCall\<close> and \<open>freeCall\<close>.  Run in a row the parts are the call.
\<close>

section \<open>Allocation\<close>

text \<open>
  Taking a block from a tier and writing headers, guards and poison into it: until the pointer is
  returned, no other thread knows the block.
\<close>

definition prepare :: "addr \<Rightarrow> nat \<Rightarrow> nat \<Rightarrow> AllocatorImpl \<Rightarrow> (addr \<times> nat \<times> nat) result" where
  "prepare user n reserved s =
     Returns (Inr (user, n, reserved)) (if enablePoisoning (config s) then on_mem (poisonOnAllocate user n) s else s)"

definition allocate_begin :: "os \<Rightarrow> caller \<Rightarrow> nat \<Rightarrow> AllocatorImpl \<Rightarrow> (addr \<times> nat \<times> nat) result" where
  "allocate_begin os c request s =
     (let n = (if request = 0 then 1 else request) in
      if kMaxRequest < n then fail_with SizeOverflow 0 s
      else if enableGuardBytes (config s) then
        and_then (rawAllocate os c (guardedSize n) s) (\<lambda>raw s1. case raw of
            Inl error \<Rightarrow> fail_with error 0 s1
          | Inr (base, reserved) \<Rightarrow>
              let (user, m) = applyGuards base n (mem (world s1))
              in prepare user n reserved (on_mem (\<lambda>_. m) s1))
      else
        and_then (rawAllocate os c n s) (\<lambda>raw s1. case raw of
            Inl error \<Rightarrow> fail_with error 0 s1
          | Inr (user, reserved) \<Rightarrow> prepare user n reserved s1))"

definition alignedAllocate_begin :: "os \<Rightarrow> caller \<Rightarrow> nat \<Rightarrow> nat \<Rightarrow> AllocatorImpl \<Rightarrow> (addr \<times> nat \<times> nat) result" where
  "alignedAllocate_begin os c alignment request s =
     (if \<not> isPowerOfTwo alignment \<or> kMaxAlignment < alignment then fail_with InvalidAlignment 0 s
      else if alignment \<le> kDefaultAlignment then allocate_begin os c request s
      else let n = (if request = 0 then 1 else request) in
        if kMaxRequest < n then fail_with SizeOverflow 0 s
        else and_then (rawAllocate os c (size_add n alignment) s) (\<lambda>raw s1. case raw of
            Inl error \<Rightarrow> fail_with error 0 s1
          | Inr (address, reserved) \<Rightarrow>
              let up = alignUp address alignment;
                  user = (if up = address then up + alignment else up);
                  shim = \<lparr>payloadSize = n, tier = tier_code AlignedShim, state = kStateAllocated,
                          offset = (user - address) mod 2 ^ 32\<rparr>
              in prepare user n reserved (on_mem (store_header (headerOf user) shim) s1)))"

definition count_step :: "nat \<Rightarrow> nat \<Rightarrow> AllocatorImpl \<Rightarrow> AllocatorImpl" where
  "count_step n reserved s = s\<lparr>stats := recordAllocation (to_size n) (to_size reserved) (stats s)\<rparr>"

definition register_step :: "caller \<Rightarrow> addr \<Rightarrow> nat \<Rightarrow> AllocatorImpl \<Rightarrow> AllocatorImpl" where
  "register_step c user n s = (if enableLeakTracking (config s) then s\<lparr>debug := track (liveRoom c) user n (debug s)\<rparr> else s)"

section \<open>Release\<close>

definition check_step :: "addr \<Rightarrow> AllocatorImpl \<Rightarrow> unit result" where
  "check_step p s =
     (if enableLeakTracking (config s) \<and> \<not> isTracked p (debug s) then
        fail_with (if wasFreed p (debug s) then DoubleFree else InvalidPointer) p s
      else Returns (Inr ()) s)"

definition release_step :: "os \<Rightarrow> caller \<Rightarrow> addr \<Rightarrow> AllocatorImpl \<Rightarrow> (nat \<times> nat) result" where
  "release_step os c p s =
     (case header_at (world s) p of None \<Rightarrow> Undefined | Some header \<Rightarrow>
        if \<not> hasValidTier header \<or> state header \<noteq> kStateAllocated \<and> state header \<noteq> kStateFreed then
          fail_with InvalidPointer p s
        else if state header = kStateFreed then fail_with DoubleFree p s
        else and_then (release_block os c p header s) (\<lambda>reserved s1. case reserved of
            Inl error \<Rightarrow> fail_with error p s1
          | Inr r \<Rightarrow> Returns (Inr (payloadSize header, r)) s1))"

definition uncount_step :: "nat \<Rightarrow> nat \<Rightarrow> AllocatorImpl \<Rightarrow> AllocatorImpl" where
  "uncount_step n reserved s = s\<lparr>stats := recordFree (to_size n) (to_size reserved) (stats s)\<rparr>"

definition unregister_step :: "caller \<Rightarrow> addr \<Rightarrow> AllocatorImpl \<Rightarrow> AllocatorImpl" where
  "unregister_step c p s = (if enableLeakTracking (config s) then s\<lparr>debug := snd (untrack (freedRoom c) p (debug s))\<rparr> else s)"

section \<open>What the steps do not look at\<close>

text \<open>
  Counters, registry and the switch for leak tracking are no concern of the steps that move blocks:
  they do the same whatever is there.
\<close>

definition dress :: "bool \<Rightarrow> StatisticsCollector \<Rightarrow> DebugLayer \<Rightarrow> AllocatorImpl \<Rightarrow> AllocatorImpl" where
  "dress b st d s = s\<lparr>config := (config s)\<lparr>enableLeakTracking := b\<rparr>, stats := st, debug := d\<rparr>"

fun map_state :: "('s \<Rightarrow> 's) \<Rightarrow> ('a, 's) outcome \<Rightarrow> ('a, 's) outcome" where
  "map_state f (Returns x s) = Returns x (f s)"
| "map_state f (Aborts s) = Aborts (f s)"
| "map_state f Undefined = Undefined"
| "map_state f Diverges = Diverges"

lemma and_then_cong: "(\<And>x s'. r = Returns x s' \<Longrightarrow> f x s' = g x s') \<Longrightarrow> and_then r f = and_then r g"
  by (cases r) auto

lemma map_state_and_then:
  assumes "\<And>x t. r = Returns x t \<Longrightarrow> g x (f t) = map_state f (g x t)"
  shows "and_then (map_state f r) g = map_state f (and_then r g)"
  using assms by (cases r) auto

lemma dress_simps [simp]:
  "world (dress b st d s) = world s" "poolAllocator (dress b st d s) = poolAllocator s" "segmentHeap (dress b st d s) = segmentHeap s"
  "largeAllocator (dress b st d s) = largeAllocator s" "tlsCaches (dress b st d s) = tlsCaches s" "events (dress b st d s) = events s"
  "config (dress b st d s) = (config s)\<lparr>enableLeakTracking := b\<rparr>" "stats (dress b st d s) = st" "debug (dress b st d s) = d"
  "on_mem f (dress b st d s) = dress b st d (on_mem f s)"
  "(dress b st d s)\<lparr>world := w\<rparr> = dress b st d (s\<lparr>world := w\<rparr>)"
  "(dress b st d s)\<lparr>poolAllocator := pa\<rparr> = dress b st d (s\<lparr>poolAllocator := pa\<rparr>)"
  "(dress b st d s)\<lparr>segmentHeap := sh\<rparr> = dress b st d (s\<lparr>segmentHeap := sh\<rparr>)"
  "(dress b st d s)\<lparr>largeAllocator := la\<rparr> = dress b st d (s\<lparr>largeAllocator := la\<rparr>)"
  "(dress b st d s)\<lparr>tlsCaches := tls\<rparr> = dress b st d (s\<lparr>tlsCaches := tls\<rparr>)"
  "(dress b st d s)\<lparr>events := ev\<rparr> = dress b st d (s\<lparr>events := ev\<rparr>)"
  by (simp_all add: dress_def on_mem_def)

lemma dress_same: "dress (enableLeakTracking (config s)) (stats s) (debug s) s = s"
  by (simp add: dress_def)

lemma report_dress: "report e p (dress b st d s) = map_state (dress b st d) (report e p s)"
  by (simp add: report_def Let_def)

lemma fail_with_dress: "fail_with e p (dress b st d s) = map_state (dress b st d) (fail_with e p s)"
  by (simp add: fail_with_def report_def Let_def)

lemma rawAllocate_dress: "rawAllocate os c n (dress b st d s) = map_state (dress b st d) (rawAllocate os c n s)"
  by (simp add: rawAllocate_def Let_def split: option.split prod.split)

lemma rawDeallocate_dress: "rawDeallocate os c p (dress b st d s) = map_state (dress b st d) (rawDeallocate os c p s)"
  by (simp add: rawDeallocate_def Let_def split: option.split prod.split Tier.split)

lemma prepare_dress: "prepare u n r (dress b st d s) = map_state (dress b st d) (prepare u n r s)"
  by (simp add: prepare_def)

lemma allocate_begin_dress: "allocate_begin os c n (dress b st d s) = map_state (dress b st d) (allocate_begin os c n s)"
  unfolding allocate_begin_def rawAllocate_dress Let_def
  by (auto simp: fail_with_dress prepare_dress intro!: map_state_and_then split: sum.split prod.split)

lemma alignedAllocate_begin_dress:
  "alignedAllocate_begin os c al n (dress b st d s) = map_state (dress b st d) (alignedAllocate_begin os c al n s)"
  unfolding alignedAllocate_begin_def rawAllocate_dress Let_def
  by (auto simp: fail_with_dress prepare_dress allocate_begin_dress intro!: map_state_and_then split: sum.split prod.split)

lemma release_block_dress:
  "release_block os c p h (dress b st d s) = map_state (dress b st d) (release_block os c p h s)"
proof -
  have check: "(if x then report e q (dress b st d s) else Returns () (dress b st d s)) =
      map_state (dress b st d) (if x then report e q s else Returns () s)" for x e q s
    by (simp add: report_dress)
  show ?thesis unfolding release_block_def Let_def dress_simps AllocatorConfig.simps check
    by (auto simp: rawDeallocate_dress intro!: map_state_and_then split: option.split Tier.split)
qed

lemma release_step_dress: "release_step os c p (dress b st d s) = map_state (dress b st d) (release_step os c p s)"
  unfolding release_step_def release_block_dress
  by (auto simp: fail_with_dress intro!: map_state_and_then split: option.split sum.split)

text \<open>So they leave all that as it is.\<close>

lemma dressed_same:
  assumes "f (dress (enableLeakTracking (config s)) (stats s) (debug s) s) = map_state (dress (enableLeakTracking (config s)) (stats s) (debug s)) (f s)"
    "f s = Returns x s'"
  shows "stats s' = stats s" "debug s' = debug s" "enableLeakTracking (config s') = enableLeakTracking (config s)"
proof -
  have "s' = dress (enableLeakTracking (config s)) (stats s) (debug s) s'" using assms by (simp add: dress_same)
  then show "stats s' = stats s" "debug s' = debug s" "enableLeakTracking (config s') = enableLeakTracking (config s)"
    by (metis dress_simps(8), metis dress_simps(9), metis dress_simps(7) AllocatorConfig.select_convs(3) AllocatorConfig.surjective AllocatorConfig.update_convs(3))
qed

section \<open>A call is its steps\<close>

lemma finish_steps:
  "finish_allocation c user n reserved s =
     and_then (prepare user n reserved s) (\<lambda>r s1. case r of
         Inl e \<Rightarrow> Returns (Inl e) s1
       | Inr (p, k, v) \<Rightarrow> Returns (Inr p) (register_step c p k (count_step k v s1)))"
  by (simp add: finish_allocation_def prepare_def register_step_def count_step_def Let_def on_mem_def)

lemma fail_through:
  "and_then (fail_with e p s) (\<lambda>r s1. case r of Inl e \<Rightarrow> Returns (Inl e) s1 | Inr x \<Rightarrow> f x s1) = fail_with e p s"
  by (simp add: fail_with_def report_def Let_def)

lemma and_then_nest: "and_then (and_then r f) g = and_then r (\<lambda>x s. and_then (f x s) g)"
  by (cases r) auto

definition then_finish :: "caller \<Rightarrow> (addr \<times> nat \<times> nat) result \<Rightarrow> addr result" where
  "then_finish c r = and_then r (\<lambda>x s1. case x of
       Inl e \<Rightarrow> Returns (Inl e) s1
     | Inr (p, k, v) \<Rightarrow> Returns (Inr p) (register_step c p k (count_step k v s1)))"

lemma then_finish_simps:
  "then_finish c (fail_with e p s) = fail_with e p s"
  "then_finish c (prepare user n reserved s) = finish_allocation c user n reserved s"
  "then_finish c (and_then r f) = and_then r (\<lambda>x s. then_finish c (f x s))"
  by (simp_all add: then_finish_def fail_through finish_steps and_then_nest)

lemma allocate_steps: "AllocatorImpl_allocate os c n s = then_finish c (allocate_begin os c n s)"
  unfolding AllocatorImpl_allocate_def allocate_begin_def Let_def
  by (auto simp: then_finish_simps intro!: and_then_cong split: sum.split prod.split)

lemma alignedAllocate_steps: "AllocatorImpl_alignedAllocate os c al n s = then_finish c (alignedAllocate_begin os c al n s)"
  unfolding AllocatorImpl_alignedAllocate_def alignedAllocate_begin_def Let_def
  by (auto simp: then_finish_simps allocate_steps intro!: and_then_cong split: sum.split prod.split)

definition then_forget :: "caller \<Rightarrow> addr \<Rightarrow> (nat \<times> nat) result \<Rightarrow> unit result" where
  "then_forget c p r = and_then r (\<lambda>x s2. case x of
       Inl e \<Rightarrow> Returns (Inl e) s2 | Inr (n, v) \<Rightarrow> Returns (Inr ()) (unregister_step c p (uncount_step n v s2)))"

lemma then_forget_simps:
  "then_forget c p (fail_with e q s) = fail_with e q s" "then_forget c p Undefined = Undefined"
  "then_forget c p (and_then r f) = and_then r (\<lambda>x s. then_forget c p (f x s))"
  by (simp_all add: then_forget_def fail_through and_then_nest)

lemma then_forget_Inr: "then_forget c p (Returns (Inr (n, v)) s) = Returns (Inr ()) (unregister_step c p (uncount_step n v s))"
  by (simp add: then_forget_def)

lemmas release_block_same = dressed_same [where f = "release_block os c p h" for os c p h, OF release_block_dress]

lemma deallocate_steps:
  assumes "p \<noteq> 0"
  shows "AllocatorImpl_deallocate os c p s =
    and_then (check_step p s) (\<lambda>r s1. case r of Inl e \<Rightarrow> Returns (Inl e) s1 | Inr _ \<Rightarrow> then_forget c p (release_step os c p s1))"
proof (cases "enableLeakTracking (config s) \<and> \<not> isTracked p (debug s)")
  case True
  then show ?thesis using assms by (simp add: AllocatorImpl_deallocate_def check_step_def fail_through)
next
  case False
  then have "check_step p s = Returns (Inr ()) s" by (auto simp: check_step_def)
  then show ?thesis using assms False unfolding AllocatorImpl_deallocate_def release_step_def Let_def
    by (auto simp: then_forget_simps then_forget_Inr unregister_step_def uncount_step_def
        dest: release_block_same(3) intro!: and_then_cong split: option.split sum.split)
qed

lemma after_finish:
  "and_then (then_finish c r) (\<lambda>x s. case x of Inl e \<Rightarrow> Returns (Inl e) s | Inr q \<Rightarrow> f q s) =
   and_then r (\<lambda>x s. case x of Inl e \<Rightarrow> Returns (Inl e) s | Inr (q, k, v) \<Rightarrow> f q (register_step c q k (count_step k v s)))"
  by (cases r) (auto simp: then_finish_def split: sum.split)

lemma after_forget:
  "and_then (then_forget c p r) (\<lambda>x s. case x of Inl e \<Rightarrow> Returns (Inl e) s | Inr _ \<Rightarrow> f s) =
   and_then r (\<lambda>x s. case x of Inl e \<Rightarrow> Returns (Inl e) s | Inr (k, v) \<Rightarrow> f (unregister_step c p (uncount_step k v s)))"
  by (cases r) (auto simp: then_forget_def split: sum.split)

lemma after_check:
  "and_then (and_then (r :: unit result) (\<lambda>x s. case x of Inl e \<Rightarrow> Returns (Inl e) s | Inr _ \<Rightarrow> g s))
     (\<lambda>x s. case x of Inl e \<Rightarrow> Returns (Inl e) s | Inr y \<Rightarrow> f y s) =
   and_then r (\<lambda>x s. case x of Inl e \<Rightarrow> Returns (Inl e) s
     | Inr _ \<Rightarrow> and_then (g s) (\<lambda>x s. case x of Inl e \<Rightarrow> Returns (Inl e) s | Inr y \<Rightarrow> f y s))"
  by (cases r) (auto split: sum.split)

lemma reallocate_cases:
  "AllocatorImpl_reallocate os c c' p n s =
     (if p = 0 then AllocatorImpl_allocate os c n s
      else if n = 0 then
        and_then (AllocatorImpl_deallocate os c' p s) (\<lambda>r s1. case r of Inl e \<Rightarrow> Returns (Inl e) s1 | Inr _ \<Rightarrow> Returns (Inr 0) s1)
      else and_then (AllocatorImpl_allocationSize p s) (\<lambda>old s1. if old = 0 then fail_with InvalidPointer p s1
       else and_then (allocate_begin os c n s1) (\<lambda>r s2. case r of Inl e \<Rightarrow> Returns (Inl e) s2
         | Inr (q, k, v) \<Rightarrow> and_then (check_step p (on_mem (memcpy q p (min old n)) (register_step c q k (count_step k v s2))))
           (\<lambda>r s3. case r of Inl e \<Rightarrow> Returns (Inl e) s3
           | Inr _ \<Rightarrow> and_then (release_step os c' p s3) (\<lambda>r s4. case r of Inl e \<Rightarrow> Returns (Inl e) s4
             | Inr (k, v) \<Rightarrow> Returns (Inr q) (unregister_step c' p (uncount_step k v s4)))))))"
proof (cases "p = 0 \<or> n = 0")
  case True
  then show ?thesis by (auto simp: AllocatorImpl_reallocate_def)
next
  case False
  then have p: "p \<noteq> 0" by simp
  show ?thesis unfolding AllocatorImpl_reallocate_def allocate_steps deallocate_steps [OF p] after_finish after_check after_forget
    using False by simp
qed

end
