(* ===== verification/Concurrent.thy ===== *)
theory Concurrent
  imports AllocatorCalls AllocatorProperties
begin

text \<open>
  Threads inside their calls.  Each thread has a phase, the step of its call it will take next; any
  thread may move at any time.  A step is one critical section (a tier under its mutex, the registry
  under its mutex) or one access to an atomic counter, the failed exchanges of \<open>updatePeak\<close> included.
  No critical section contains another, and a thread that waits for a mutex takes no step.  Every such
  run is matched by a run of whole calls: a call takes effect when its block is taken or given back, the
  steps after that are bookkeeping the others cannot see, but for the registry.
\<close>

section \<open>Phases and steps\<close>

text \<open>
  A moving \<open>reallocate\<close> is an allocation and a release with a copy between them.  While it allocates it
  keeps its source, the old region with the size read from its header; while it releases the old region
  it keeps its destination, the new one.  Plain calls have neither.  A thread that counts has the list of
  the accesses to the counters it has still to make; the registry's turn comes when the list is empty.
\<close>

type_synonym source = "region \<times> nat"

datatype phase =
    Idle
  | Sized source nat
  | Counting "source option" addr nat "access list"
  | Copying source addr nat
  | Checking region addr nat
  | Releasing "region option" addr nat
  | Uncounting "region option" addr "access list"

type_synonym phases = "nat \<Rightarrow> phase"

text \<open>
  \<open>conc_step os t\<close>: thread \<open>t\<close> moves, in a program that holds \<open>A\<close>.  A region passed to \<open>deallocate\<close> or
  \<open>reallocate\<close> is no longer the program's, and comes back when the call refuses it.  When the release
  inside a \<open>reallocate\<close> fails, both regions stay allocated.  With a null pointer or size 0
  \<open>reallocate\<close> is the other call.
\<close>

inductive conc_step ::
    "os \<Rightarrow> nat \<Rightarrow> AllocatorImpl \<Rightarrow> phases \<Rightarrow> region set \<Rightarrow> AllocatorImpl \<Rightarrow> phases \<Rightarrow> region set \<Rightarrow> bool" for os t where
  begin_allocate: "ph t = Idle \<Longrightarrow> thread c = t \<Longrightarrow> allocate_begin os c n s = Returns (Inr (p, k, v)) s' \<Longrightarrow>
    conc_step os t s ph A s' (ph(t := Counting None p k (allocationCall (to_size k) (to_size v)))) A"
| fail_allocate: "ph t = Idle \<Longrightarrow> thread c = t \<Longrightarrow> allocate_begin os c n s = Returns (Inl e) s' \<Longrightarrow> conc_step os t s ph A s' ph A"
| begin_aligned: "ph t = Idle \<Longrightarrow> thread c = t \<Longrightarrow> alignedAllocate_begin os c al n s = Returns (Inr (p, k, v)) s' \<Longrightarrow>
    conc_step os t s ph A s' (ph(t := Counting None p k (allocationCall (to_size k) (to_size v)))) A"
| fail_aligned: "ph t = Idle \<Longrightarrow> thread c = t \<Longrightarrow> alignedAllocate_begin os c al n s = Returns (Inl e) s' \<Longrightarrow> conc_step os t s ph A s' ph A"
| begin_resize: "ph t = Idle \<Longrightarrow> (p, k) \<in> A \<Longrightarrow> 0 < n \<Longrightarrow> AllocatorImpl_allocationSize p s = Returns old s' \<Longrightarrow> old \<noteq> 0 \<Longrightarrow>
    conc_step os t s ph A s' (ph(t := Sized ((p, k), old) n)) (A - {(p, k)})"
| fail_resize: "ph t = Idle \<Longrightarrow> (p, k) \<in> A \<Longrightarrow> 0 < (n :: nat) \<Longrightarrow> AllocatorImpl_allocationSize p s = Returns 0 s1 \<Longrightarrow>
    (fail_with InvalidPointer p s1 :: addr result) = Returns (Inl e) s' \<Longrightarrow> conc_step os t s ph A s' ph A"
| resize_allocate: "ph t = Sized src n \<Longrightarrow> thread c = t \<Longrightarrow> allocate_begin os c n s = Returns (Inr (p, k, v)) s' \<Longrightarrow>
    conc_step os t s ph A s' (ph(t := Counting (Some src) p k (allocationCall (to_size k) (to_size v)))) A"
| resize_refused: "ph t = Sized src n \<Longrightarrow> thread c = t \<Longrightarrow> allocate_begin os c n s = Returns (Inl e) s' \<Longrightarrow>
    conc_step os t s ph A s' (ph(t := Idle)) (insert (fst src) A)"
| count: "ph t = Counting src p k ks \<Longrightarrow> access_step (stats s) ks st ks' \<Longrightarrow>
    conc_step os t s ph A (s\<lparr>stats := st\<rparr>) (ph(t := Counting src p k ks')) A"
| register: "ph t = Counting None p k [] \<Longrightarrow> conc_step os t s ph A (register_step c p k s) (ph(t := Idle)) (insert (p, k) A)"
| register_fresh: "ph t = Counting (Some src) p k [] \<Longrightarrow> conc_step os t s ph A (register_step c p k s) (ph(t := Copying src p k)) A"
| copy: "ph t = Copying ((p, k), old) q m \<Longrightarrow>
    conc_step os t s ph A (on_mem (memcpy q p (min old m)) s) (ph(t := Checking (q, m) p k)) A"
| check: "ph t = Idle \<Longrightarrow> (p, k) \<in> A \<Longrightarrow> check_step p s = Returns (Inr ()) s' \<Longrightarrow>
    conc_step os t s ph A s' (ph(t := Releasing None p k)) (A - {(p, k)})"
| fail_check: "ph t = Idle \<Longrightarrow> (p, k) \<in> A \<Longrightarrow> check_step p s = Returns (Inl e) s' \<Longrightarrow> conc_step os t s ph A s' ph A"
| check_old: "ph t = Checking dst p k \<Longrightarrow> check_step p s = Returns (Inr ()) s' \<Longrightarrow>
    conc_step os t s ph A s' (ph(t := Releasing (Some dst) p k)) A"
| fail_check_old: "ph t = Checking dst p k \<Longrightarrow> check_step p s = Returns (Inl e) s' \<Longrightarrow>
    conc_step os t s ph A s' (ph(t := Idle)) (A \<union> {dst, (p, k)})"
| release: "ph t = Releasing dst p k \<Longrightarrow> thread c = t \<Longrightarrow> release_step os c p s = Returns (Inr (n, v)) s' \<Longrightarrow>
    conc_step os t s ph A s' (ph(t := Uncounting dst p (freeCall (to_size n) (to_size v)))) A"
| uncount: "ph t = Uncounting dst p ks \<Longrightarrow> access_step (stats s) ks st ks' \<Longrightarrow>
    conc_step os t s ph A (s\<lparr>stats := st\<rparr>) (ph(t := Uncounting dst p ks')) A"
| unregister: "ph t = Uncounting dst p [] \<Longrightarrow>
    conc_step os t s ph A (unregister_step c p s) (ph(t := Idle)) (A \<union> set_option dst)"
| thread_exit: "ph t = Idle \<Longrightarrow> AllocatorImpl_threadExit t s = Some s' \<Longrightarrow> conc_step os t s ph A s' ph A"

inductive conc_reach ::
    "os \<Rightarrow> AllocatorConfig \<Rightarrow> tls \<Rightarrow> machine \<Rightarrow> AllocatorImpl \<Rightarrow> phases \<Rightarrow> region set \<Rightarrow> bool" for os cfg tls0 M0 where
  start: "conc_reach os cfg tls0 M0 (AllocatorImpl_make cfg tls0 M0) (\<lambda>_. Idle) {}"
| move: "conc_reach os cfg tls0 M0 s ph A \<Longrightarrow> conc_step os t s ph A s' ph' A' \<Longrightarrow> conc_reach os cfg tls0 M0 s' ph' A'"
| user_write: "conc_reach os cfg tls0 M0 s ph A \<Longrightarrow> (\<forall>x. x \<notin> cells A \<longrightarrow> f (mem (world s)) x = mem (world s) x) \<Longrightarrow>
    conc_reach os cfg tls0 M0 (on_mem f s) ph A"

section \<open>What is still to be counted\<close>

text \<open>What a phase will still add to a counter, and the regions it alone knows.\<close>

fun delta :: "phase \<Rightarrow> counter \<Rightarrow> 64 word" where
  "delta (Counting src p n ks) c = pending c ks"
| "delta (Uncounting dst p ks) c = pending c ks"
| "delta _ c = 0"

text \<open>
  The accesses left to make, an exchange weighted with a retry; the weight only falls, but for an
  exchange that fails.
\<close>

fun access_weight :: "access list \<Rightarrow> nat" where
  "access_weight [] = 0"
| "access_weight (LoadLive # ks) = 4 + access_weight ks"
| "access_weight (LoadPeak c # ks) = 3 + access_weight ks"
| "access_weight (Exchange c pk # ks) = 2 + access_weight ks"
| "access_weight (Add c v # ks) = 1 + access_weight ks"
| "access_weight (Sub c v # ks) = 1 + access_weight ks"

text \<open>An exchange is never far ahead: only the next access may be one.\<close>

definition exchange_next :: "access list \<Rightarrow> bool" where
  "exchange_next ks \<longleftrightarrow> (\<forall>c pk. Exchange c pk \<notin> set (drop 1 ks))"

fun held :: "phase \<Rightarrow> region set" where
  "held Idle = {}"
| "held (Sized src n) = {fst src}"
| "held (Counting src p n ks) = insert (p, n) (fst ` set_option src)"
| "held (Copying src p n) = {fst src, (p, n)}"
| "held (Checking dst p n) = {dst, (p, n)}"
| "held (Releasing dst p n) = insert (p, n) (set_option dst)"
| "held (Uncounting dst p ks) = set_option dst"

text \<open>The source and the destination of a \<open>reallocate\<close> are two regions, its size is the one read, and what
  is left to count is the rest of a call.\<close>

fun proper :: "phase \<Rightarrow> bool" where
  "proper (Sized src n) \<longleftrightarrow> snd src = snd (fst src) \<and> 0 < n"
| "proper (Counting src p n ks) \<longleftrightarrow> (\<forall>f \<in> set_option src. snd f = snd (fst f) \<and> fst f \<noteq> (p, n)) \<and>
     exchange_next ks \<and> access_weight ks \<le> 9"
| "proper (Copying src p n) \<longleftrightarrow> snd src = snd (fst src) \<and> fst src \<noteq> (p, n)"
| "proper (Checking dst p n) \<longleftrightarrow> dst \<noteq> (p, n)"
| "proper (Releasing dst p n) \<longleftrightarrow> dst \<noteq> Some (p, n)"
| "proper (Uncounting dst p ks) \<longleftrightarrow> exchange_next ks \<and> access_weight ks \<le> 5"
| "proper _ \<longleftrightarrow> True"

definition busy :: "phases \<Rightarrow> nat set" where
  "busy ph = {t. ph t \<noteq> Idle}"

definition owed :: "phases \<Rightarrow> counter \<Rightarrow> 64 word" where
  "owed ph c = (\<Sum>t \<in> busy ph. delta (ph t) c)"

definition in_flight :: "phases \<Rightarrow> region set" where
  "in_flight ph = (\<Union>t. held (ph t))"

lemma busy_upd: "busy (ph(t := x)) = (if x = Idle then busy ph - {t} else insert t (busy ph))"
  by (auto simp: busy_def)

lemma owed_upd:
  assumes "finite (busy ph)"
  shows "owed (ph(t := x)) c = owed ph c - delta (ph t) c + delta x c"
proof -
  let ?B = "insert t (busy ph)"
  have all: "owed f c = (\<Sum>u \<in> ?B. delta (f u) c)" if "busy f \<subseteq> ?B" for f
    unfolding owed_def using assms that by (intro sum.mono_neutral_left) (auto simp: busy_def)
  have rest: "(\<Sum>u \<in> ?B - {t}. delta ((ph(t := x)) u) c) = (\<Sum>u \<in> ?B - {t}. delta (ph u) c)"
    by (rule sum.cong) auto
  have split: "owed f c = delta (f t) c + (\<Sum>u \<in> ?B - {t}. delta (f u) c)" if "busy f \<subseteq> ?B" for f
    using all [OF that] assms sum.remove [of ?B t "\<lambda>u. delta (f u) c"] by simp
  have "busy (ph(t := x)) \<subseteq> ?B" "busy ph \<subseteq> ?B" by (auto simp: busy_upd)
  from split [OF this(1)] split [OF this(2)] rest show ?thesis by simp
qed

lemma record_delta:
  "c \<noteq> PeakUsage \<Longrightarrow> recordAllocation a r st c = st c + pending c (allocationCall a r)"
  "c \<noteq> PeakUsage \<Longrightarrow> recordFree a r st c = st c + pending c (freeCall a r)"
  by (cases c; simp add: recordAllocation_def recordFree_def allocationCall_def freeCall_def counter_simps Let_def)+

lemma delta_quiet [simp]:
  "delta Idle = (\<lambda>_. 0)" "delta (Sized f n) = (\<lambda>_. 0)" "delta (Counting src p n []) = (\<lambda>_. 0)" "delta (Copying f p n) = (\<lambda>_. 0)"
  "delta (Checking r p n) = (\<lambda>_. 0)" "delta (Releasing dst p n) = (\<lambda>_. 0)" "delta (Uncounting dst p []) = (\<lambda>_. 0)"
  by (simp_all add: fun_eq_iff)

lemma delta_counting: "delta (Counting src p n ks) = (\<lambda>c. pending c ks)" "delta (Uncounting dst p ks) = (\<lambda>c. pending c ks)"
  by (simp_all add: fun_eq_iff)

lemma access_step_weight: "access_step st ks st' ks' \<Longrightarrow> access_weight ks' \<le> access_weight ks"
  by (erule access_stepE) auto

lemma call_weights: "access_weight (allocationCall a r) = 9" "access_weight (freeCall a r) = 5"
  by (simp_all add: allocationCall_def freeCall_def)

lemma access_step_exchange: "access_step st ks st' ks' \<Longrightarrow> exchange_next ks \<Longrightarrow> exchange_next ks'"
  by (erule access_stepE) (auto simp: exchange_next_def dest: in_set_dropD)

lemma calls_exchange: "exchange_next (allocationCall a r)" "exchange_next (freeCall a r)"
  by (simp_all add: exchange_next_def allocationCall_def freeCall_def)

lemmas call_shape = calls_exchange call_weights

section \<open>The run of whole calls behind a run of steps\<close>

text \<open>The state in which everything under way has been counted, without the registry.\<close>

definition settled :: "64 word \<Rightarrow> phases \<Rightarrow> StatisticsCollector \<Rightarrow> StatisticsCollector" where
  "settled pk ph st c = (if c = PeakUsage then pk else st c + owed ph c)"

definition whole :: "64 word \<Rightarrow> AllocatorImpl \<Rightarrow> phases \<Rightarrow> AllocatorImpl" where
  "whole pk s ph = dress False (settled pk ph (stats s)) DebugLayer_init s"

abbreviation "untracked cfg \<equiv> cfg\<lparr>enableLeakTracking := False\<rparr>"

definition sim :: "os \<Rightarrow> AllocatorConfig \<Rightarrow> tls \<Rightarrow> machine \<Rightarrow> AllocatorImpl \<Rightarrow> phases \<Rightarrow> region set \<Rightarrow> bool" where
  "sim os cfg tls0 M0 s ph A \<longleftrightarrow> finite (busy ph) \<and> (\<forall>t. proper (ph t)) \<and> (\<forall>t t'. t \<noteq> t' \<longrightarrow> held (ph t) \<inter> held (ph t') = {}) \<and> A \<inter> in_flight ph = {} \<and>
     (\<exists>pk. impl_reach False os (untracked cfg) tls0 M0 (whole pk s ph) (A \<union> in_flight ph))"

lemma in_flight_upd:
  assumes "\<forall>t t'. t \<noteq> t' \<longrightarrow> held (ph t) \<inter> held (ph t') = {}"
  shows "in_flight (ph(t := x)) = held x \<union> (in_flight ph - held (ph t))"
proof -
  have "held (ph u) \<inter> held (ph t) = {}" if "u \<noteq> t" for u using assms that by blast
  then show ?thesis by (auto simp: in_flight_def split: if_splits) blast+
qed

lemma pointwise_upd:
  assumes "\<forall>t t'. t \<noteq> t' \<longrightarrow> held (ph t) \<inter> held (ph t') = {}" "held x \<inter> (in_flight ph - held (ph t)) = {}"
  shows "\<forall>u u'. u \<noteq> u' \<longrightarrow> held ((ph(t := x)) u) \<inter> held ((ph(t := x)) u') = {}"
proof -
  have "held x \<inter> held (ph u) = {}" if u: "u \<noteq> t" for u
  proof -
    have "held (ph u) \<subseteq> in_flight ph - held (ph t)" using assms(1) u unfolding in_flight_def by blast
    then show ?thesis using assms(2) by blast
  qed
  then show ?thesis using assms(1) by (auto split: if_splits)
qed


subsection \<open>Steps that move blocks\<close>

lemma whole_simps [simp]:
  "world (whole pk s ph) = world s" "config (whole pk s ph) = untracked (config s)" "events (whole pk s ph) = events s"
  by (simp_all add: whole_def)

lemma settled_stats: "stats (whole pk s ph) = settled pk ph (stats s)"
  by (simp add: whole_def)

text \<open>A step that does not look at the books, taken behind them.\<close>

lemma step_whole:
  assumes "\<And>b st d s. f (dress b st d s) = map_state (dress b st d) (f s)" "f s = Returns x s'"
  shows "f (whole pk s ph) = Returns x (whole pk s' ph)" "stats s' = stats s"
proof -
  show "stats s' = stats s" using dressed_same(1) [of f s x s'] assms by blast
  then show "f (whole pk s ph) = Returns x (whole pk s' ph)" using assms by (simp add: whole_def)
qed

lemma settled_record:
  assumes "finite (busy ph)" "delta (ph t) = (\<lambda>_. 0)"
  shows "recordAllocation (to_size n) (to_size v) (settled pk ph st) =
      settled (recordAllocation (to_size n) (to_size v) (settled pk ph st) PeakUsage) (ph(t := Counting src p k (allocationCall (to_size n) (to_size v)))) st"
    "recordFree (to_size n) (to_size v) (settled pk ph st) =
      settled (recordFree (to_size n) (to_size v) (settled pk ph st) PeakUsage) (ph(t := Uncounting dst p (freeCall (to_size n) (to_size v)))) st"
  using owed_upd [OF assms(1), of t] assms(2) record_delta [of _ "to_size n" "to_size v" "settled pk ph st"]
  by (auto simp: fun_eq_iff settled_def)

lemma count_dress:
  "count_step n v (dress b st d s) = dress b (recordAllocation (to_size n) (to_size v) st) d s"
  "uncount_step n v (dress b st d s) = dress b (recordFree (to_size n) (to_size v) st) d s"
  by (simp_all add: count_step_def uncount_step_def dress_def)

lemma begin_whole:
  assumes "\<And>b st d s. f (dress b st d s) = map_state (dress b st d) (f s)" "f s = Returns (Inr (p, k, v)) s'"
    "finite (busy ph)" "delta (ph t) = (\<lambda>_. 0)"
  shows "\<exists>pk'. then_finish c (f (whole pk s ph)) = Returns (Inr p) (whole pk' s' (ph(t := Counting src p k (allocationCall (to_size k) (to_size v)))))"
proof -
  note st = step_whole [where f = f, OF assms(1,2)]
  have "then_finish c (f (whole pk s ph)) = Returns (Inr p) (count_step k v (whole pk s' ph))"
    using st(1) by (simp add: then_finish_def register_step_def count_step_def)
  moreover have "count_step k v (whole pk s' ph) =
      whole (recordAllocation (to_size k) (to_size v) (settled pk ph (stats s')) PeakUsage) s' (ph(t := Counting src p k (allocationCall (to_size k) (to_size v))))"
    unfolding whole_def count_dress
    by (rule arg_cong [where f = "\<lambda>st. dress False st DebugLayer_init s'"], rule settled_record(1)) (use assms(3,4) in simp_all)
  ultimately show ?thesis by metis
qed

lemma begin_fails:
  assumes "\<And>b st d s. f (dress b st d s) = map_state (dress b st d) (f s)" "f s = Returns (Inl e) s'"
  shows "then_finish c (f (whole pk s ph)) = Returns (Inl e) (whole pk s' ph)"
  using step_whole(1) [where f = f, OF assms] by (simp add: then_finish_def)

lemma release_whole:
  assumes "release_step os c p s = Returns (Inr (n, v)) s'" "finite (busy ph)" "ph t = Releasing dst p k" "p \<noteq> 0"
  shows "\<exists>pk'. AllocatorImpl_deallocate os c p (whole pk s ph) = Returns (Inr ()) (whole pk' s' (ph(t := Uncounting dst p (freeCall (to_size n) (to_size v)))))"
proof -
  note st = step_whole [where f = "release_step os c p", OF release_step_dress assms(1)]
  have "AllocatorImpl_deallocate os c p (whole pk s ph) = Returns (Inr ()) (uncount_step n v (whole pk s' ph))"
    using st(1) assms(4) by (simp add: deallocate_steps check_step_def then_forget_def unregister_step_def uncount_step_def)
  moreover have "uncount_step n v (whole pk s' ph) =
      whole (recordFree (to_size n) (to_size v) (settled pk ph (stats s')) PeakUsage) s' (ph(t := Uncounting dst p (freeCall (to_size n) (to_size v))))"
    unfolding whole_def count_dress
    by (rule arg_cong [where f = "\<lambda>st. dress False st DebugLayer_init s'"], rule settled_record(2)) (use assms(2,3) in simp_all)
  ultimately show ?thesis by metis
qed

subsection \<open>Steps that keep the books\<close>

lemma access_whole:
  assumes "finite (busy ph)" "access_step (stats s) ks st ks'" "delta (ph t) = (\<lambda>c. pending c ks)" "delta x = (\<lambda>c. pending c ks')"
  shows "whole pk (s\<lparr>stats := st\<rparr>) (ph(t := x)) = whole pk s ph"
proof -
  have "st c + owed (ph(t := x)) c = stats s c + owed ph c" if "c \<noteq> PeakUsage" for c
  proof -
    have "st c = stats s c + pending c ks - pending c ks'"
      unfolding eq_diff_eq by (rule access_step_pending [OF assms(2) that])
    then show ?thesis using owed_upd [OF assms(1), of t x c] assms(3,4) by simp
  qed
  then show ?thesis by (auto simp: whole_def dress_def settled_def fun_eq_iff)
qed

lemma quiet_whole:
  assumes "finite (busy ph)" "delta (ph t) = (\<lambda>_. 0)" "delta x = (\<lambda>_. 0)" "s' = s\<lparr>debug := debug s'\<rparr>"
  shows "whole pk s' (ph(t := x)) = whole pk s ph"
proof -
  have "settled pk (ph(t := x)) st = settled pk ph st" for st
    using owed_upd [OF assms(1), of t x] assms(2,3) by (simp add: settled_def fun_eq_iff)
  then show ?thesis by (subst assms(4)) (simp add: whole_def dress_def)
qed


section \<open>Every step is matched\<close>

lemma through_size:
  assumes "and_then r f = Returns (Inr (p, k, v)) s'" "\<And>x t. f x t = Returns (Inr (p, k, v)) s' \<Longrightarrow> k = n"
  shows "k = n"
  using assms by (cases r) auto

lemma begin_size:
  "allocate_begin os c n s = Returns (Inr (p, k, v)) s' \<Longrightarrow> k = asked n"
  "alignedAllocate_begin os c al n s = Returns (Inr (p, k, v)) s' \<Longrightarrow> k = asked n"
proof -
  show one: "k = asked n" if "allocate_begin os c n s = Returns (Inr (p, k, v)) s'"
    using that unfolding allocate_begin_def Let_def asked_def prepare_def
    by (auto elim!: through_size split: if_splits sum.splits prod.splits)
  show "k = asked n" if "alignedAllocate_begin os c al n s = Returns (Inr (p, k, v)) s'"
    using that one unfolding alignedAllocate_begin_def Let_def asked_def prepare_def
    by (auto elim!: through_size split: if_splits sum.splits prod.splits)
qed

text \<open>The regions a thread gains are new to everybody.\<close>

lemma gained_new:
  assumes "fair_start os tls0 M0" "impl_reach False os cfg tls0 M0 s A"
    "AllocatorImpl_allocate os c n s = Returns (Inr p) s' \<or> AllocatorImpl_alignedAllocate os c al n s = Returns (Inr p) s'"
  shows "(p, asked n) \<notin> A"
proof
  assume p: "(p, asked n) \<in> A"
  have "\<not> fails s A e q (Returns (Inr p) s')" for e q by (simp add: fails_def)
  then have "granted s A p (asked n) s'"
    using assms(3) allocate_spec [OF assms(1,2), of c n] alignedAllocate_spec [OF assms(1,2), of c al n] by (auto split: if_splits)
  then have "apart (p, asked n) (p, asked n)" using p by (auto simp: granted_def)
  then show False by (simp add: asked_def split: if_splits)
qed

lemma simD:
  assumes "sim os cfg tls0 M0 s ph A"
  obtains pk where "finite (busy ph)" "\<forall>t t'. t \<noteq> t' \<longrightarrow> held (ph t) \<inter> held (ph t') = {}" "A \<inter> in_flight ph = {}"
    "impl_reach False os (untracked cfg) tls0 M0 (whole pk s ph) (A \<union> in_flight ph)" "\<forall>t. proper (ph t)"
  using assms by (auto simp: sim_def)

lemma simI:
  assumes "finite (busy ph)" "\<forall>t t'. t \<noteq> t' \<longrightarrow> held (ph t) \<inter> held (ph t') = {}" "A \<inter> in_flight ph = {}"
    "impl_reach False os (untracked cfg) tls0 M0 (whole pk s ph) (A \<union> in_flight ph)" "\<forall>t. proper (ph t)"
  shows "sim os cfg tls0 M0 s ph A"
  using assms by (auto simp: sim_def)

lemma held_in_flight: "held (ph t) \<subseteq> in_flight ph"
  by (auto simp: in_flight_def)

lemma sim_begin:
  assumes "fair_start os tls0 M0" "sim os cfg tls0 M0 s ph A"
    "ph t = Idle \<and> src = None \<or> (\<exists>f m. ph t = Sized f m \<and> src = Some f)"
    "(f = allocate_begin os c n \<and> g = AllocatorImpl_allocate os c n) \<or>
     (f = alignedAllocate_begin os c al n \<and> g = AllocatorImpl_alignedAllocate os c al n)"
    "f s = Returns (Inr (p, k, v)) s'"
  shows "sim os cfg tls0 M0 s' (ph(t := Counting src p k (allocationCall (to_size k) (to_size v)))) A"
proof -
  let ?ph = "ph(t := Counting src p k (allocationCall (to_size k) (to_size v)))"
  obtain pk where d: "finite (busy ph)" "\<forall>t t'. t \<noteq> t' \<longrightarrow> held (ph t) \<inter> held (ph t') = {}" "A \<inter> in_flight ph = {}"
    "impl_reach False os (untracked cfg) tls0 M0 (whole pk s ph) (A \<union> in_flight ph)" "\<forall>t. proper (ph t)" by (rule simD [OF assms(2)])
  have dr: "f (dress b st dl r) = map_state (dress b st dl) (f r)" for b st dl r
    using assms(4) allocate_begin_dress alignedAllocate_begin_dress by auto
  have k: "k = asked n" using assms(4,5) begin_size by blast
  have g: "g r = then_finish c (f r)" for r using assms(4) allocate_steps alignedAllocate_steps by auto
  have src: "fst ` set_option src = held (ph t)" "delta (ph t) = (\<lambda>_. 0)" using assms(3) by auto
  obtain pk' where run: "g (whole pk s ph) = Returns (Inr p) (whole pk' s' ?ph)"
    using begin_whole [where f = f, OF dr assms(5) d(1) src(2)] g by metis
  have held: "held (Counting src p k (allocationCall (to_size k) (to_size v))) = insert (p, k) (held (ph t))" using src(1) by simp
  then have fl: "in_flight ?ph = insert (p, k) (in_flight ph)"
    using in_flight_upd [OF d(2), of t] held_in_flight [of ph t] by (simp del: held.simps) blast
  have "impl_reach False os (untracked cfg) tls0 M0 (whole pk' s' ?ph) (insert (p, k) (A \<union> in_flight ph))"
    using assms(4) run impl_reach.allocated [OF d(4), of c n] impl_reach.aligned [OF d(4), of c al n] k by auto
  moreover have new: "(p, k) \<notin> A \<union> in_flight ph" using gained_new [OF assms(1) d(4)] assms(4) run k by metis
  then have "proper (Counting src p k (allocationCall (to_size k) (to_size v)))" using assms(3) d(5) [rule_format, of t] held_in_flight [of ph t] by (auto simp: call_shape)
  moreover have "held (Counting src p k (allocationCall (to_size k) (to_size v))) \<inter> (in_flight ph - held (ph t)) = {}" using held new by auto
  ultimately show ?thesis using new pointwise_upd [OF d(2), of "Counting src p k (allocationCall (to_size k) (to_size v))" t]
    by (intro simI [where pk = pk']) (use d fl in \<open>auto simp: busy_upd simp del: held.simps proper.simps\<close>)
qed

lemma sim_begin_fails:
  assumes "sim os cfg tls0 M0 s ph A"
    "(f = allocate_begin os c n \<and> g = AllocatorImpl_allocate os c n) \<or>
     (f = alignedAllocate_begin os c al n \<and> g = AllocatorImpl_alignedAllocate os c al n)"
    "f s = Returns (Inl e) s'"
  shows "sim os cfg tls0 M0 s' ph A"
proof -
  obtain pk where d: "finite (busy ph)" "\<forall>t t'. t \<noteq> t' \<longrightarrow> held (ph t) \<inter> held (ph t') = {}" "A \<inter> in_flight ph = {}"
    "impl_reach False os (untracked cfg) tls0 M0 (whole pk s ph) (A \<union> in_flight ph)" "\<forall>t. proper (ph t)" by (rule simD [OF assms(1)])
  have dr: "f (dress b st dl r) = map_state (dress b st dl) (f r)" for b st dl r
    using assms(2) allocate_begin_dress alignedAllocate_begin_dress by auto
  have "g (whole pk s ph) = Returns (Inl e) (whole pk s' ph)"
    using begin_fails [where f = f, OF dr assms(3)] assms(2) allocate_steps alignedAllocate_steps by metis
  then have "impl_reach False os (untracked cfg) tls0 M0 (whole pk s' ph) (A \<union> in_flight ph)"
    using assms(2) impl_reach.not_allocated [OF d(4), of c n] impl_reach.not_aligned [OF d(4), of c al n] by auto
  then show ?thesis using d by (intro simI)
qed

text \<open>A step that only moves a region from one hand to another, or only keeps the books.\<close>

lemma sim_quiet:
  assumes "sim os cfg tls0 M0 s ph A" "\<And>pk. finite (busy ph) \<Longrightarrow> whole pk s' (ph(t := x)) = whole pk s ph"
    "held x \<subseteq> held (ph t) \<union> A" "proper (ph t) \<Longrightarrow> proper x" "A \<inter> held (ph t) = {} \<Longrightarrow> A' = A \<union> held (ph t) - held x"
  shows "sim os cfg tls0 M0 s' (ph(t := x)) A'"
proof -
  obtain pk where d: "finite (busy ph)" "\<forall>t t'. t \<noteq> t' \<longrightarrow> held (ph t) \<inter> held (ph t') = {}" "A \<inter> in_flight ph = {}"
    "impl_reach False os (untracked cfg) tls0 M0 (whole pk s ph) (A \<union> in_flight ph)" "\<forall>t. proper (ph t)" by (rule simD [OF assms(1)])
  note own = held_in_flight [of ph t] and fl = in_flight_upd [OF d(2), of t x]
  have A': "A' = A \<union> held (ph t) - held x" using own d(3) assms(5) by blast
  have "held x \<inter> (in_flight ph - held (ph t)) = {}" using assms(3) d(3) by blast
  note pw = pointwise_upd [OF d(2) this]
  have "A' \<union> in_flight (ph(t := x)) = A \<union> in_flight ph" using fl own assms(3) A' by blast
  moreover have "A' \<inter> in_flight (ph(t := x)) = {}" using fl d(3) A' by blast
  ultimately show ?thesis using d pw assms(2,4) by (intro simI [where pk = pk]) (auto simp: busy_upd)
qed

lemma sim_release:
  assumes "fair_start os tls0 M0" "sim os cfg tls0 M0 s ph A" "ph t = Releasing dst p k" "release_step os c p s = Returns (Inr (n, v)) s'"
  shows "sim os cfg tls0 M0 s' (ph(t := Uncounting dst p (freeCall (to_size n) (to_size v)))) A"
proof -
  let ?ph = "ph(t := Uncounting dst p (freeCall (to_size n) (to_size v)))"
  obtain pk where d: "finite (busy ph)" "\<forall>t t'. t \<noteq> t' \<longrightarrow> held (ph t) \<inter> held (ph t') = {}" "A \<inter> in_flight ph = {}"
    "impl_reach False os (untracked cfg) tls0 M0 (whole pk s ph) (A \<union> in_flight ph)" "\<forall>t. proper (ph t)" by (rule simD [OF assms(2)])
  have held: "held (ph t) = insert (p, k) (set_option dst)" "(p, k) \<notin> set_option dst"
    using assms(3) d(5) [rule_format, of t] by auto
  then have own: "(p, k) \<in> A \<union> in_flight ph" "(p, k) \<notin> A" using d(3) held_in_flight [of ph t] by blast+
  then have "p \<noteq> 0" using reachable_safe_spec [OF assms(1) d(4)] by auto
  then obtain pk' where run: "AllocatorImpl_deallocate os c p (whole pk s ph) = Returns (Inr ()) (whole pk' s' ?ph)"
    using release_whole [OF assms(4) d(1) assms(3)] by blast
  have fl: "in_flight ?ph = in_flight ph - {(p, k)}"
    using in_flight_upd [OF d(2), of t "Uncounting dst p (freeCall (to_size n) (to_size v))"] held held_in_flight [of ph t] by auto
  have "A \<union> in_flight ph - {(p, k)} = A \<union> in_flight ?ph" using fl own(2) by blast
  then have "impl_reach False os (untracked cfg) tls0 M0 (whole pk' s' ?ph) (A \<union> in_flight ?ph)"
    using impl_reach.released [OF d(4) own(1) run] by simp
  moreover have "held (Uncounting dst p (freeCall (to_size n) (to_size v))) \<inter> (in_flight ph - held (ph t)) = {}" using held(1) by auto
  note pointwise_upd [OF d(2) this]
  ultimately show ?thesis using d fl by (intro simI [where pk = pk']) (auto simp: busy_upd call_shape)
qed

text \<open>A step outside every call, taken behind the books.\<close>

lemma sim_outside:
  assumes "sim os cfg tls0 M0 s ph A"
    "\<And>pk. impl_reach False os (untracked cfg) tls0 M0 (whole pk s ph) (A \<union> in_flight ph) \<Longrightarrow>
      impl_reach False os (untracked cfg) tls0 M0 (whole pk s' ph) (A \<union> in_flight ph)"
  shows "sim os cfg tls0 M0 s' ph A"
  using assms unfolding sim_def by blast

lemma check_failed: "check_step p s = Returns (Inl e) s' \<Longrightarrow> s' = s\<lparr>events := events s @ [error_event s e p]\<rparr>"
  by (auto simp: check_step_def fail_with_eq split: if_splits)

lemma check_passed: "check_step p s = Returns (Inr ()) s' \<Longrightarrow> s' = s"
  by (auto simp: check_step_def split: if_splits)

lemma threadExit_dress: "AllocatorImpl_threadExit t s = Some s' \<Longrightarrow> AllocatorImpl_threadExit t (dress b st d s) = Some (dress b st d s')"
  by (auto simp: AllocatorImpl_threadExit_def split: option.splits Option.bind_splits)

lemma threadExit_stats: "AllocatorImpl_threadExit t s = Some s' \<Longrightarrow> stats s' = stats s"
  by (auto simp: AllocatorImpl_threadExit_def split: Option.bind_splits)

lemma sim_write:
  assumes "sim os cfg tls0 M0 s ph A" "\<forall>x. x \<notin> cells (A \<union> in_flight ph) \<longrightarrow> f (mem (world s)) x = mem (world s) x"
  shows "sim os cfg tls0 M0 (on_mem f s) ph A"
proof (rule sim_outside [OF assms(1)])
  fix pk assume "impl_reach False os (untracked cfg) tls0 M0 (whole pk s ph) (A \<union> in_flight ph)"
  moreover have "whole pk (on_mem f s) ph = on_mem f (whole pk s ph)" by (simp add: whole_def on_mem_def)
  ultimately show "impl_reach False os (untracked cfg) tls0 M0 (whole pk (on_mem f s) ph) (A \<union> in_flight ph)"
    using impl_reach.user_write assms(2) by simp
qed

lemma sim_event:
  assumes "sim os cfg tls0 M0 s ph A"
  shows "sim os cfg tls0 M0 (s\<lparr>events := events s @ es\<rparr>) ph A"
proof (rule sim_outside [OF assms])
  fix pk assume "impl_reach False os (untracked cfg) tls0 M0 (whole pk s ph) (A \<union> in_flight ph)"
  from impl_reach.other_output [OF this, of es]
  show "impl_reach False os (untracked cfg) tls0 M0 (whole pk (s\<lparr>events := events s @ es\<rparr>) ph) (A \<union> in_flight ph)"
    by (simp add: whole_def)
qed

subsection \<open>The steps of a moving reallocation\<close>

lemma size_known:
  assumes "AllocatorImpl_allocationSize p s = Returns old s'"
  shows "s' = s" "old \<noteq> 0 \<Longrightarrow> AllocatorImpl_allocationSize p (whole pk s ph) = Returns old (whole pk s ph)"
  using assms by (auto simp: AllocatorImpl_allocationSize_def whole_def split: if_splits option.splits)

lemma sim_sized:
  assumes "fair_start os tls0 M0" "sim os cfg tls0 M0 s ph A" "ph t = Idle" "(p, k) \<in> A" "0 < n"
    "AllocatorImpl_allocationSize p s = Returns old s'" "old \<noteq> 0"
  shows "sim os cfg tls0 M0 s' (ph(t := Sized ((p, k), old) n)) (A - {(p, k)})"
proof -
  obtain pk where "impl_reach False os (untracked cfg) tls0 M0 (whole pk s ph) (A \<union> in_flight ph)" by (rule simD [OF assms(2)])
  from reachable_safe_spec [OF assms(1) this] have "AllocatorImpl_allocationSize p (whole pk s ph) = Returns k (whole pk s ph)"
    using assms(4) by auto
  then have "old = k" using size_known(2) [OF assms(6,7), of pk ph] by simp
  then show ?thesis using size_known(1) [OF assms(6)] assms(3-5)
    by (auto intro!: sim_quiet [OF assms(2)] quiet_whole)
qed

lemma memcpy_out: "x \<notin> {q..<q + m} \<Longrightarrow> j \<le> m \<Longrightarrow> memcpy q p j f x = f x"
  by (auto simp: memcpy_def)

lemma sim_copy:
  assumes "sim os cfg tls0 M0 s ph A" "ph t = Copying ((p, k), old) q m"
  shows "sim os cfg tls0 M0 (on_mem (memcpy q p (min old m)) s) (ph(t := Checking (q, m) p k)) A"
proof -
  have "(q, m) \<in> in_flight ph" using held_in_flight [of ph t] assms(2) by auto
  then have "{q..<q + m} \<subseteq> cells (A \<union> in_flight ph)" by (auto simp: cells_iff)
  then have "sim os cfg tls0 M0 (on_mem (memcpy q p (min old m)) s) ph A"
    by (intro sim_write [OF assms(1)]) (auto intro!: memcpy_out [where m = m])
  note q = sim_quiet [OF this]
  show ?thesis using assms(2) by (auto intro!: q quiet_whole)
qed

lemma sim_step:
  assumes "fair_start os tls0 M0" "sim os cfg tls0 M0 s ph A" "conc_step os t s ph A s' ph' A'"
  shows "sim os cfg tls0 M0 s' ph' A'"
  using assms(3,2)
proof cases
  case (begin_allocate c n p k v)
  then show ?thesis using sim_begin [OF assms(1,2), where f = "allocate_begin os c n"] by blast
next
  case (begin_aligned c al n p k v)
  then show ?thesis using sim_begin [OF assms(1,2), where f = "alignedAllocate_begin os c al n"] by blast
next
  case (fail_allocate c n e)
  then show ?thesis using sim_begin_fails [OF assms(2), where f = "allocate_begin os c n"] by blast
next
  case (fail_aligned c al n e)
  then show ?thesis using sim_begin_fails [OF assms(2), where f = "alignedAllocate_begin os c al n"] by blast
next
  case (begin_resize p k n old)
  then show ?thesis using sim_sized [OF assms(1,2)] by blast
next
  case (fail_resize p k n s1 e)
  then have "s1 = s" "s' = s1\<lparr>events := events s1 @ [error_event s1 InvalidPointer p]\<rparr>"
    using size_known(1) by (auto simp: fail_with_eq split: if_splits)
  then show ?thesis using sim_event [OF assms(2)] fail_resize(1,2) by simp
next
  case (resize_allocate src n c p k v)
  then show ?thesis using sim_begin [OF assms(1,2), where f = "allocate_begin os c n"] by blast
next
  case (resize_refused src n c e)
  then have "sim os cfg tls0 M0 s' ph A" using sim_begin_fails [OF assms(2), where f = "allocate_begin os c n"] by blast
  note q = sim_quiet [OF this]
  show ?thesis using resize_refused by (auto intro!: q quiet_whole)
next
  case (count src p k ks st ks')
  then show ?thesis
    using access_step_weight [OF count(5)] access_step_exchange [OF count(5)]
    by (auto intro!: sim_quiet [OF assms(2)] access_whole [OF _ count(5)] simp: delta_counting)
next
  case (register p k c)
  then show ?thesis by (auto intro!: sim_quiet [OF assms(2)] quiet_whole simp: register_step_def)
next
  case (register_fresh src p k c)
  then show ?thesis by (auto intro!: sim_quiet [OF assms(2)] quiet_whole simp: register_step_def)
next
  case (copy p k old q m)
  then show ?thesis using sim_copy [OF assms(2)] by blast
next
  case (check p k)
  then show ?thesis by (auto dest!: check_passed intro!: sim_quiet [OF assms(2)] quiet_whole)
next
  case (fail_check p k e)
  then show ?thesis using sim_event [OF assms(2)] check_failed by metis
next
  case (check_old dst p k)
  then show ?thesis by (auto dest!: check_passed intro!: sim_quiet [OF assms(2)] quiet_whole)
next
  case (fail_check_old dst p k e)
  then have "sim os cfg tls0 M0 s' ph A" using sim_event [OF assms(2)] check_failed by metis
  note q = sim_quiet [OF this]
  show ?thesis using fail_check_old by (auto intro!: q quiet_whole)
next
  case (release dst p k c n v)
  then show ?thesis using sim_release [OF assms(1,2)] by blast
next
  case (uncount dst p ks st ks')
  then show ?thesis
    using access_step_weight [OF uncount(5)] access_step_exchange [OF uncount(5)]
    by (auto intro!: sim_quiet [OF assms(2)] access_whole [OF _ uncount(5)] simp: delta_counting)
next
  case (unregister dst p c)
  then show ?thesis by (auto intro!: sim_quiet [OF assms(2)] quiet_whole simp: unregister_step_def)
next
  case thread_exit
  have "AllocatorImpl_threadExit t (whole pk s ph) = Some (whole pk s' ph)" for pk
    using threadExit_dress [OF thread_exit(4)] threadExit_stats [OF thread_exit(4)] by (simp add: whole_def)
  then show ?thesis using sim_outside [OF assms(2)] impl_reach.thread_exit thread_exit by metis
qed

lemma conc_reach_sim:
  assumes "fair_start os tls0 M0" "conc_reach os cfg tls0 M0 s ph A"
  shows "sim os cfg tls0 M0 s ph A"
  using assms(2)
proof induction
  case start
  have "whole 0 (AllocatorImpl_make cfg tls0 M0) (\<lambda>_. Idle) = AllocatorImpl_make (untracked cfg) tls0 M0"
    by (simp add: whole_def dress_def settled_def owed_def busy_def StatisticsCollector_init_def fun_eq_iff AllocatorImpl_make_def)
  then show ?case using impl_reach.make [of False os "untracked cfg" tls0 M0]
    by (intro simI [where pk = 0]) (simp_all add: busy_def in_flight_def)
next
  case (move s ph A t s' ph' A')
  then show ?case using sim_step [OF assms(1)] by blast
next
  case (user_write s ph A f)
  then show ?case by (intro sim_write) (auto simp: cells_iff)
qed

end
