(* ===== verification/ConcurrentProperties.thy ===== *)
theory ConcurrentProperties
  imports Concurrent
begin

text \<open>
  What holds however the calls of several threads are interleaved, and the one thing that does not: the
  entry of a block in the registry may be removed after the block has been handed out again.
\<close>

section \<open>Steps that always succeed\<close>

lemma sim_Releasing:
  assumes "sim os cfg tls0 M0 s ph A" "ph t = Releasing dst p k"
  obtains pk where "impl_reach False os (untracked cfg) tls0 M0 (whole pk s ph) (A \<union> in_flight ph)" "(p, k) \<in> A \<union> in_flight ph"
proof -
  obtain pk where "impl_reach False os (untracked cfg) tls0 M0 (whole pk s ph) (A \<union> in_flight ph)"
    by (rule simD [OF assms(1)])
  moreover have "(p, k) \<in> in_flight ph" using held_in_flight [of ph t] assms(2) by auto
  ultimately show thesis using that by blast
qed

lemma map_state_Returns: "map_state f r = Returns x s' \<longleftrightarrow> (\<exists>s. r = Returns x s \<and> s' = f s)"
  by (cases r) auto

lemma whole_Returns:
  assumes "\<And>b st d s. f (dress b st d s) = map_state (dress b st d) (f s)" "f (whole pk s ph) = Returns x s1"
  obtains s' where "f s = Returns x s'" "s1 = dress False (settled pk ph (stats s)) DebugLayer_init s'"
  using assms by (auto simp: whole_def map_state_Returns)

lemma then_forget_Returns:
  "then_forget c p r = Returns (Inr ()) s' \<Longrightarrow> \<exists>n v s1. r = Returns (Inr (n, v)) s1 \<and> s' = unregister_step c p (uncount_step n v s1)"
  by (cases r) (auto simp: then_forget_def split: sum.splits)

lemma release_ready:
  assumes "fair_start os tls0 M0" "sim os cfg tls0 M0 s ph A" "ph t = Releasing dst p k"
  obtains n v s' where "release_step os c p s = Returns (Inr (n, v)) s'"
    "\<forall>x \<in> cells (A \<union> in_flight ph - {(p, k)}). mem (world s') x = mem (world s) x"
proof -
  obtain pk where r: "impl_reach False os (untracked cfg) tls0 M0 (whole pk s ph) (A \<union> in_flight ph)" "(p, k) \<in> A \<union> in_flight ph"
    by (rule sim_Releasing [OF assms(2,3)])
  obtain s2 where d: "AllocatorImpl_deallocate os c p (whole pk s ph) = Returns (Inr ()) s2"
    "keeps (A \<union> in_flight ph - {(p, k)}) (whole pk s ph) s2"
    using release_live [OF assms(1) r, of c] by auto
  have "p \<noteq> 0" using reachable_safe_spec [OF assms(1) r(1)] r(2) by auto
  then have "then_forget c p (release_step os c p (whole pk s ph)) = Returns (Inr ()) s2"
    using d(1) by (simp add: deallocate_steps check_step_def)
  then obtain n v s1 where s1: "release_step os c p (whole pk s ph) = Returns (Inr (n, v)) s1" "s2 = unregister_step c p (uncount_step n v s1)"
    using then_forget_Returns by blast
  then obtain s' where s': "release_step os c p s = Returns (Inr (n, v)) s'" "s1 = dress False (settled pk ph (stats s)) DebugLayer_init s'"
    using whole_Returns [where f = "release_step os c p", OF release_step_dress] by blast
  have "world s2 = world s'" using s1(2) s'(2) by (simp add: unregister_step_def uncount_step_def)
  then show thesis using that [OF s'(1)] d(2) by (simp add: keeps_def)
qed

section \<open>A thread by itself\<close>

definition moves :: "os \<Rightarrow> nat \<Rightarrow> AllocatorImpl \<times> phases \<times> region set \<Rightarrow> AllocatorImpl \<times> phases \<times> region set \<Rightarrow> bool" where
  "moves os t = (\<lambda>(s, ph, A) (s', ph', A'). conc_step os t s ph A s' ph' A')"

definition accesses_made :: "StatisticsCollector \<times> access list \<Rightarrow> StatisticsCollector \<times> access list \<Rightarrow> bool" where
  "accesses_made = (\<lambda>(st, ks) (st', ks'). access_step st ks st' ks')"

lemma moves_iff [simp]: "moves os t (s, ph, A) (s', ph', A') \<longleftrightarrow> conc_step os t s ph A s' ph' A'"
  by (simp add: moves_def)

lemma accesses_made_iff [simp]: "accesses_made (st, ks) (st', ks') \<longleftrightarrow> access_step st ks st' ks'"
  by (simp add: accesses_made_def)

lemma moves_reach:
  assumes "(moves os t ^^ k) (s, ph, A) (s', ph', A')" "conc_reach os cfg tls0 M0 s ph A"
  shows "conc_reach os cfg tls0 M0 s' ph' A'"
  using assms
proof (induction k arbitrary: s' ph' A')
  case (Suc k)
  then obtain s1 ph1 A1 where "(moves os t ^^ k) (s, ph, A) (s1, ph1, A1)" "moves os t (s1, ph1, A1) (s', ph', A')" by auto
  then show ?case using Suc conc_reach.move by fastforce
qed simp

text \<open>Accesses to the counters are steps of the thread that makes them.\<close>

lemma accesses_moves:
  assumes "(accesses_made ^^ k) (stats s, ks) (st, ks')"
    "\<And>s ph ks st ks'. ph t = x ks \<Longrightarrow> access_step (stats s) ks st ks' \<Longrightarrow> conc_step os t s ph A (s\<lparr>stats := st\<rparr>) (ph(t := x ks')) A"
  shows "(moves os t ^^ k) (s, ph(t := x ks), A) (s\<lparr>stats := st\<rparr>, ph(t := x ks'), A)"
  using assms(1)
proof (induction k arbitrary: st ks')
  case (Suc k)
  then obtain st1 ks1 where k: "(accesses_made ^^ k) (stats s, ks) (st1, ks1)" "access_step st1 ks1 st ks'" by auto
  have m: "moves os t (s\<lparr>stats := st1\<rparr>, ph(t := x ks1), A) (s\<lparr>stats := st\<rparr>, ph(t := x ks'), A)"
    using assms(2) [of "ph(t := x ks1)" ks1 "s\<lparr>stats := st1\<rparr>" st ks'] k(2) by simp
  show ?case by (rule relpowp_Suc_I [OF Suc.IH [OF k(1)] m])
qed simp

lemmas count_moves = accesses_moves [where x = "Counting src p n" for src p n, OF _ conc_step.count]
lemmas uncount_moves = accesses_moves [where x = "Uncounting dst p" for dst p, OF _ conc_step.uncount]

text \<open>Undisturbed, the accesses of a call come to what \<open>recordAllocation\<close> and \<open>recordFree\<close> do.\<close>

lemma access_first: "access_step st (x # ks) st1 ks1 \<Longrightarrow> (accesses_made ^^ k) (st1, ks1) z \<Longrightarrow> (accesses_made ^^ Suc k) (st, x # ks) z"
  by (rule relpowp_Suc_I2) auto

lemma peak_alone: "\<exists>k. (accesses_made ^^ k) (st, [LoadLive]) (updatePeak (st LiveRequested) st, [])"
proof -
  let ?c = "st LiveRequested"
  have "access_step st [Exchange ?c (st PeakUsage)] (updatePeak ?c st) []"
    using access_step.enough [of "st PeakUsage" ?c st "[]"] access_step.exchanged [of "st PeakUsage" ?c st "[]"]
    by (cases "st PeakUsage < ?c") (simp_all add: updatePeak_def)
  then have "(accesses_made ^^ Suc 0) (st, [Exchange ?c (st PeakUsage)]) (updatePeak ?c st, [])" by auto
  from access_first [OF access_step.load_live access_first [OF access_step.load_peak this]] show ?thesis by blast
qed

lemma calls_alone:
  "\<exists>k. (accesses_made ^^ k) (st, allocationCall a r) (recordAllocation a r st, [])"
  "\<exists>k. (accesses_made ^^ k) (st, freeCall a r) (recordFree a r st, [])"
proof -
  let ?st = "fetch_add ActiveAllocations 1 (fetch_add LiveReserved r (fetch_add LiveRequested a
    (fetch_add AllocatedBytes a (fetch_add AllocationCount 1 st))))"
  obtain k where "(accesses_made ^^ k) (?st, [LoadLive]) (updatePeak (?st LiveRequested) ?st, [])" using peak_alone by blast
  from access_first [OF access_step.add access_first [OF access_step.add access_first [OF access_step.add
      access_first [OF access_step.add access_first [OF access_step.add this]]]]]
  show "\<exists>k. (accesses_made ^^ k) (st, allocationCall a r) (recordAllocation a r st, [])"
    unfolding allocationCall_def recordAllocation_def Let_def by blast
  have "(accesses_made ^^ 0) (fetch_sub ActiveAllocations 1 (fetch_sub LiveReserved r (fetch_sub LiveRequested a
    (fetch_add FreedBytes a (fetch_add FreeCount 1 st)))), []) (recordFree a r st, [])"
    by (simp add: recordFree_def Let_def)
  from access_first [OF access_step.add access_first [OF access_step.add access_first [OF access_step.sub
      access_first [OF access_step.sub access_first [OF access_step.sub this]]]]]
  show "\<exists>k. (accesses_made ^^ k) (st, freeCall a r) (recordFree a r st, [])" unfolding freeCall_def by blast
qed

lemma counted_reach:
  assumes "conc_reach os cfg tls0 M0 s (ph(t := Counting src p k (allocationCall (to_size n) (to_size v)))) A"
  shows "conc_reach os cfg tls0 M0 (count_step n v s) (ph(t := Counting src p k [])) A"
proof -
  obtain j where "(accesses_made ^^ j) (stats s, allocationCall (to_size n) (to_size v)) (recordAllocation (to_size n) (to_size v) (stats s), [])"
    using calls_alone(1) by blast
  from moves_reach [OF count_moves [OF this] assms] show ?thesis by (simp add: count_step_def)
qed

lemma uncounted_reach:
  assumes "conc_reach os cfg tls0 M0 s (ph(t := Uncounting dst p (freeCall (to_size n) (to_size v)))) A"
  shows "conc_reach os cfg tls0 M0 (uncount_step n v s) (ph(t := Uncounting dst p [])) A"
proof -
  obtain j where "(accesses_made ^^ j) (stats s, freeCall (to_size n) (to_size v)) (recordFree (to_size n) (to_size v) (stats s), [])"
    using calls_alone(2) by blast
  from moves_reach [OF uncount_moves [OF this] assms] show ?thesis by (simp add: uncount_step_def)
qed

section \<open>A first call, step by step\<close>

abbreviation "first_pointer cfg \<equiv> if enableGuardBytes cfg then 65584 else 65552"

lemma all_idle [simp]: "(\<lambda>_. Idle)(t := Idle) = (\<lambda>_. Idle)"
  by (simp add: fun_eq_iff)

lemma then_finish_Returns:
  "then_finish c r = Returns (Inr p) s' \<Longrightarrow> \<exists>k v s1. r = Returns (Inr (p, k, v)) s1 \<and> s' = register_step c p k (count_step k v s1)"
  by (cases r) (auto simp: then_finish_def split: sum.splits)

lemma first_steps:
  obtains s1 v s where "conc_reach linear_os cfg Map.empty blank_machine s1 ((\<lambda>_. Idle)(0 := Counting None (first_pointer cfg) 8 (allocationCall 8 (to_size v)))) {}"
    "conc_reach linear_os cfg Map.empty blank_machine s (\<lambda>_. Idle) {(first_pointer cfg, 8)}"
    "AllocatorImpl_allocate linear_os caller0 8 (new_impl cfg) = Returns (Inr (first_pointer cfg)) s"
proof -
  obtain s where s: "AllocatorImpl_allocate linear_os caller0 8 (new_impl cfg) = Returns (Inr (first_pointer cfg)) s"
    by (rule first_object [of cfg])
  then have "then_finish caller0 (allocate_begin linear_os caller0 8 (new_impl cfg)) = Returns (Inr (first_pointer cfg)) s"
    by (simp only: allocate_steps)
  from then_finish_Returns [OF this] obtain k v s1 where
    b: "allocate_begin linear_os caller0 8 (new_impl cfg) = Returns (Inr (first_pointer cfg, k, v)) s1"
      "s = register_step caller0 (first_pointer cfg) k (count_step k v s1)" by blast
  have k: "k = 8" using begin_size(1) [OF b(1)] by (simp add: asked_def)
  let ?ph = "(\<lambda>_. Idle)(0 := Counting None (first_pointer cfg) k (allocationCall (to_size k) (to_size v)))"
  let ?ph' = "(\<lambda>_. Idle)(0 := Counting None (first_pointer cfg) k [])"
  have r1: "conc_reach linear_os cfg Map.empty blank_machine s1 ?ph {}"
    by (rule conc_reach.move [OF conc_reach.start conc_step.begin_allocate [OF refl caller0_simps(1) b(1)]])
  have r2: "conc_reach linear_os cfg Map.empty blank_machine (count_step k v s1) ?ph' {}"
    by (rule counted_reach [OF r1])
  have "conc_reach linear_os cfg Map.empty blank_machine s (?ph'(0 := Idle)) (insert (first_pointer cfg, k) {})"
    unfolding b(2) by (rule conc_reach.move [OF r2 conc_step.register]) simp
  moreover have "to_size 8 = 8" by (simp add: to_size_def)
  ultimately show thesis using that [of s1 v s] r1 s k by simp
qed

section \<open>Interleavings are safe\<close>

text \<open>
  C8: every interleaving of the steps of calls is a run of whole calls.  Whatever state the threads have
  reached, counting what their calls under way still have to count, and leaving the registry aside,
  gives a state that whole calls reach, with the regions the program holds and those in flight as its
  allocations.
\<close>

theorem interleaved_calls_refine_whole_calls:
  assumes "fair_start os tls0 M0" "conc_reach os cfg tls0 M0 s ph A"
  shows "\<exists>pk. impl_reach False os (untracked cfg) tls0 M0
    (dress False (\<lambda>k. if k = PeakUsage then pk else stats s k + owed ph k) DebugLayer_init s) (A \<union> in_flight ph)"
proof -
  obtain pk where "impl_reach False os (untracked cfg) tls0 M0 (whole pk s ph) (A \<union> in_flight ph)"
    by (rule simD [OF conc_reach_sim [OF assms]])
  moreover have "settled pk ph (stats s) = (\<lambda>k. if k = PeakUsage then pk else stats s k + owed ph k)"
    by (simp add: settled_def fun_eq_iff)
  ultimately show ?thesis by (auto simp: whole_def)
qed

theorem interleaved_calls_refine_whole_calls_witness:
  "\<exists>s v pk. conc_reach linear_os AllocatorConfig_release Map.empty blank_machine s ((\<lambda>_. Idle)(0 := Counting None 65552 8 (allocationCall 8 (to_size v)))) {} \<and>
     impl_reach False linear_os (untracked AllocatorConfig_release) Map.empty blank_machine
       (dress False (\<lambda>k. if k = PeakUsage then pk else stats s k + owed ((\<lambda>_. Idle)(0 := Counting None 65552 8 (allocationCall 8 (to_size v)))) k) DebugLayer_init s)
       ({} \<union> in_flight ((\<lambda>_. Idle)(0 := Counting None 65552 8 (allocationCall 8 (to_size v)))))"
proof -
  have cfg: "first_pointer AllocatorConfig_release = 65552" by (simp add: AllocatorConfig_release_def AllocatorConfig_default_def)
  obtain s v where s: "conc_reach linear_os AllocatorConfig_release Map.empty blank_machine s ((\<lambda>_. Idle)(0 := Counting None 65552 8 (allocationCall 8 (to_size v)))) {}"
    using first_steps [of AllocatorConfig_release] unfolding cfg by metis
  show ?thesis using interleaved_calls_refine_whole_calls [OF fair_linear s] s by blast
qed

text \<open>
  C9: however the threads are interleaved, the regions the program holds and those that calls under way
  are handing out or taking back are nonnull, aligned, inside memory the allocator mapped itself, and
  pairwise apart; no two threads have the same one, and memory mapped before is never touched.
\<close>

theorem interleaved_calls_are_safe:
  assumes "fair_start os tls0 M0" "conc_reach os cfg tls0 M0 s ph A"
  shows "(\<forall>(p, n) \<in> A \<union> in_flight ph. 0 < p \<and> 0 < n \<and> 16 dvd p \<and> {p..<p + n} \<subseteq> mapped_cells (world s) - mapped_cells M0) \<and>
    (\<forall>a \<in> A \<union> in_flight ph. \<forall>b \<in> A \<union> in_flight ph. a \<noteq> b \<longrightarrow> apart a b) \<and>
    A \<inter> in_flight ph = {} \<and> (\<forall>t t'. t \<noteq> t' \<longrightarrow> held (ph t) \<inter> held (ph t') = {}) \<and>
    set (mapped M0) \<subseteq> set (mapped (world s)) \<and> (\<forall>x \<in> mapped_cells M0. mem (world s) x = mem M0 x)"
proof -
  obtain pk where d: "\<forall>t t'. t \<noteq> t' \<longrightarrow> held (ph t) \<inter> held (ph t') = {}" "A \<inter> in_flight ph = {}"
    "impl_reach False os (untracked cfg) tls0 M0 (whole pk s ph) (A \<union> in_flight ph)"
    by (rule simD [OF conc_reach_sim [OF assms]])
  show ?thesis using reachable_safe_spec [OF assms(1) d(3)] d(1,2) by (simp add: case_prod_beta)
qed

theorem interleaved_calls_are_safe_witness:
  "\<exists>s v. conc_reach linear_os AllocatorConfig_release Map.empty blank_machine s ((\<lambda>_. Idle)(0 := Counting None 65552 8 (allocationCall 8 (to_size v)))) {} \<and>
     {65552..<65552 + 8} \<subseteq> mapped_cells (world s) - mapped_cells blank_machine"
proof -
  have cfg: "first_pointer AllocatorConfig_release = 65552" by (simp add: AllocatorConfig_release_def AllocatorConfig_default_def)
  obtain s v where s: "conc_reach linear_os AllocatorConfig_release Map.empty blank_machine s ((\<lambda>_. Idle)(0 := Counting None 65552 8 (allocationCall 8 (to_size v)))) {}"
    using first_steps [of AllocatorConfig_release] unfolding cfg by metis
  have "(65552, 8) \<in> held (((\<lambda>_. Idle)(0 := Counting None 65552 8 (allocationCall 8 (to_size v)))) 0)" by simp
  then have "(65552, 8) \<in> {} \<union> in_flight ((\<lambda>_. Idle)(0 := Counting None 65552 8 (allocationCall 8 (to_size v))))" unfolding in_flight_def by blast
  with conjunct1 [OF interleaved_calls_are_safe [OF fair_linear s]] s show ?thesis by fastforce
qed

text \<open>
  C12: while no thread is inside a call, the statistics are exact, whatever the interleaving was.
\<close>

theorem interleaved_statistics_exact:
  assumes "fair_start os tls0 M0" "conc_reach os cfg tls0 M0 s (\<lambda>_. Idle) A"
  shows "\<exists>t. AllocatorImpl_statistics s = Returns t s \<and> unat (activeAllocations t) = card A \<and>
    unat (currentUsage t) = (\<Sum>(p, n) \<in> A. n) \<and> allocationCount t = freeCount t + activeAllocations t \<and>
    allocatedBytes t = freedBytes t + currentUsage t"
proof -
  have fl: "in_flight (\<lambda>_. Idle) = {}" "owed (\<lambda>_. Idle) = (\<lambda>_. 0)" by (simp_all add: in_flight_def owed_def fun_eq_iff)
  obtain pk where "impl_reach False os (untracked cfg) tls0 M0 (whole pk s (\<lambda>_. Idle)) A"
    by (rule simD [OF conc_reach_sim [OF assms]]) (simp add: fl)
  from statistics_spec [OF assms(1) this] show ?thesis
    by (auto simp: AllocatorImpl_statistics_def whole_def snapshot_def settled_def fl Let_def split: option.splits)
qed

theorem interleaved_statistics_exact_witness:
  "\<exists>s t. conc_reach linear_os AllocatorConfig_release Map.empty blank_machine s (\<lambda>_. Idle) {(65552, 8)} \<and>
     AllocatorImpl_statistics s = Returns t s \<and> unat (activeAllocations t) = 1 \<and> unat (currentUsage t) = 8"
proof -
  have cfg: "first_pointer AllocatorConfig_release = 65552" by (simp add: AllocatorConfig_release_def AllocatorConfig_default_def)
  obtain s where s: "conc_reach linear_os AllocatorConfig_release Map.empty blank_machine s (\<lambda>_. Idle) {(65552, 8)}"
    using first_steps [of AllocatorConfig_release] unfolding cfg by metis
  show ?thesis using interleaved_statistics_exact [OF fair_linear s] s by auto
qed

section \<open>Calls finish\<close>

text \<open>
  The steps a thread still has to take when it is alone, a retry of the exchange in \<open>updatePeak\<close>
  included.
\<close>

fun steps_left :: "phase \<Rightarrow> nat" where
  "steps_left Idle = 0"
| "steps_left (Sized src n) = 20"
| "steps_left (Counting src p n ks) = access_weight ks + (if src = None then 1 else 10)"
| "steps_left (Copying src p n) = 9"
| "steps_left (Checking dst p n) = 8"
| "steps_left (Releasing dst p n) = 7"
| "steps_left (Uncounting dst p ks) = access_weight ks + 1"

text \<open>A \<open>reallocate\<close> that has still to allocate, or to ask the registry for the old block, may fail.\<close>

fun may_fail :: "phase \<Rightarrow> bool" where
  "may_fail (Sized src n) \<longleftrightarrow> True"
| "may_fail (Counting src p n ks) \<longleftrightarrow> src \<noteq> None"
| "may_fail (Copying src p n) \<longleftrightarrow> True"
| "may_fail (Checking dst p n) \<longleftrightarrow> True"
| "may_fail _ \<longleftrightarrow> False"

fun accesses :: "phase \<Rightarrow> access list" where
  "accesses (Counting src p n ks) = ks"
| "accesses (Uncounting dst p ks) = ks"
| "accesses _ = []"

text \<open>An exchange of \<open>updatePeak\<close> that failed: the same exchange is next, with the peak read again.\<close>

definition retried :: "phase \<Rightarrow> phase \<Rightarrow> bool" where
  "retried x y \<longleftrightarrow> (\<exists>c pk pk' ks. accesses x = Exchange c pk # ks \<and> accesses y = Exchange c pk' # ks)"

text \<open>
  Runs of the program while thread \<open>t\<close> is inside its call, from the state \<open>z\<close>: \<open>n\<close> counts the steps of
  \<open>t\<close> but for failed exchanges, \<open>f\<close> its failed exchanges that found another peak than the one they
  expected, and \<open>r\<close> the steps of others that changed the peak.
\<close>

inductive call_run ::
    "os \<Rightarrow> nat \<Rightarrow> AllocatorImpl \<times> phases \<times> region set \<Rightarrow> AllocatorImpl \<times> phases \<times> region set \<Rightarrow> nat \<Rightarrow> nat \<Rightarrow> nat \<Rightarrow> bool"
  for os t z where
  start: "call_run os t z z 0 0 0"
| own: "call_run os t z (s, ph, A) n f r \<Longrightarrow> ph t \<noteq> Idle \<Longrightarrow> conc_step os t s ph A s' ph' A' \<Longrightarrow> \<not> retried (ph t) (ph' t) \<Longrightarrow>
    call_run os t z (s', ph', A') (Suc n) f r"
| own_retry: "call_run os t z (s, ph, A) n f r \<Longrightarrow> conc_step os t s ph A s' ph' A' \<Longrightarrow> retried (ph t) (ph' t) \<Longrightarrow>
    call_run os t z (s', ph', A') n (if ph' t = ph t then f else Suc f) r"
| other: "call_run os t z (s, ph, A) n f r \<Longrightarrow> u \<noteq> t \<Longrightarrow> conc_step os u s ph A s' ph' A' \<Longrightarrow>
    call_run os t z (s', ph', A') n f (if stats s' PeakUsage = stats s PeakUsage then r else Suc r)"
| user_write: "call_run os t z (s, ph, A) n f r \<Longrightarrow> (\<forall>x. x \<notin> cells A \<longrightarrow> g (mem (world s)) x = mem (world s) x) \<Longrightarrow>
    call_run os t z (on_mem g s, ph, A) n f r"

lemma sim_config:
  assumes "fair_start os tls0 M0" "sim os cfg tls0 M0 s ph A"
  shows "abortOnError (config s) = abortOnError cfg"
proof -
  obtain pk where "impl_reach False os (untracked cfg) tls0 M0 (whole pk s ph) (A \<union> in_flight ph)" by (rule simD [OF assms(2)])
  then have "config (whole pk s ph) = untracked cfg" using reach_holds [OF assms(1)] by metis
  then show ?thesis by (metis whole_simps(2) AllocatorConfig.select_convs AllocatorConfig.surjective AllocatorConfig.update_convs)
qed

text \<open>A call that does not end the program returns.\<close>

lemma spec_Returns:
  assumes "fair_start os tls0 M0" "impl_reach False os cfg tls0 M0 s A" "\<not> abortOnError (config s)"
  obtains r s' where "AllocatorImpl_allocate os c n s = Returns r s'"
  using allocate_spec [OF assms(1,2), of c n] assms(3) by (fastforce simp: fails_def split: if_splits)

lemma begin_ready:
  assumes "fair_start os tls0 M0" "sim os cfg tls0 M0 s ph A" "\<not> abortOnError cfg"
  obtains r s' where "allocate_begin os c n s = Returns r s'"
proof -
  obtain pk where r: "impl_reach False os (untracked cfg) tls0 M0 (whole pk s ph) (A \<union> in_flight ph)" by (rule simD [OF assms(2)])
  have "\<not> abortOnError (config (whole pk s ph))" using sim_config [OF assms(1,2)] assms(3) by simp
  then obtain x s2 where "then_finish c (allocate_begin os c n (whole pk s ph)) = Returns x s2"
    using spec_Returns [OF assms(1) r] by (metis allocate_steps)
  then obtain y s1 where "allocate_begin os c n (whole pk s ph) = Returns y s1"
    by (cases "allocate_begin os c n (whole pk s ph)") (auto simp: then_finish_def)
  then show thesis using that whole_Returns [where f = "allocate_begin os c n", OF allocate_begin_dress] by metis
qed

lemma check_ready:
  assumes "\<not> abortOnError (config s)"
  obtains r s' where "check_step p s = Returns r s'"
  using assms by (cases "check_step p s") (auto simp: check_step_def fail_with_eq split: if_splits)

text \<open>Alone, a thread gets through its accesses, an exchange with an outdated peak in two steps.\<close>

lemma access_progress:
  assumes "ks \<noteq> []"
  shows "\<exists>k st' ks'. (accesses_made ^^ k) (st, ks) (st', ks') \<and> 0 < k \<and> k + access_weight ks' \<le> access_weight ks"
proof -
  have one: ?thesis if "access_step st ks st' ks'" "access_weight ks' < access_weight ks" for st' ks'
  proof -
    have "(accesses_made ^^ 1) (st, ks) (st', ks')" using that(1) by auto
    then show ?thesis using that(2) by (intro exI [of _ 1] exI [of _ st'] exI [of _ ks']) auto
  qed
  obtain x rest where ks: "ks = x # rest" using assms by (cases ks) auto
  have alone: "\<exists>st'. access_step st (Exchange c (st PeakUsage) # rest) st' rest" for c
    using access_step.enough [of "st PeakUsage" c st rest] access_step.exchanged [of "st PeakUsage" c st rest] by blast
  show ?thesis
  proof (cases x)
    case (Exchange c pk)
    show ?thesis
    proof (cases "pk < c \<and> st PeakUsage \<noteq> pk")
      case False
      then show ?thesis using one Exchange ks access_step.enough [of pk c st rest] access_step.exchanged [of pk c st rest] by fastforce
    next
      case True
      obtain st' where "access_step st (Exchange c (st PeakUsage) # rest) st' rest" using alone by blast
      then have "(accesses_made ^^ 1) (st, Exchange c (st PeakUsage) # rest) (st', rest)" by auto
      from access_first [OF access_step.failed this] True have "(accesses_made ^^ 2) (st, ks) (st', rest)"
        using ks Exchange by (simp add: numeral_2_eq_2)
      then show ?thesis using ks Exchange by (intro exI [of _ 2] exI [of _ st'] exI [of _ rest]) simp
    qed
  qed (use one ks access_step.intros(1-4) in fastforce)+
qed

lemma one_step:
  assumes "fair_start os tls0 M0" "sim os cfg tls0 M0 s ph A" "ph t \<noteq> Idle" "accesses (ph t) = []" "thread (c :: caller) = t"
    "abortOnError cfg \<Longrightarrow> \<not> may_fail (ph t)"
  shows "\<exists>s' x A'. conc_step os t s ph A s' (ph(t := x)) A' \<and> steps_left x < steps_left (ph t) \<and> (may_fail x \<longrightarrow> may_fail (ph t))"
proof (cases "ph t")
  case (Sized src n)
  obtain r s' where b: "allocate_begin os c n s = Returns r s'" by (rule begin_ready [OF assms(1,2)]) (use assms(6) Sized in auto)
  show ?thesis
  proof (cases r)
    case (Inl e)
    then show ?thesis using b conc_step.resize_refused [where ph = ph and t = t, OF Sized assms(5)] Sized by fastforce
  next
    case (Inr a)
    then obtain p k v where "allocate_begin os c n s = Returns (Inr (p, k, v)) s'" using b by (cases a) auto
    from conc_step.resize_allocate [where ph = ph and t = t, OF Sized assms(5) this] show ?thesis using Sized
      by (intro exI conjI) (auto simp: call_weights)
  qed
next
  case (Counting src p k ks)
  then have "ks = []" using assms(4) by simp
  then show ?thesis
    using Counting conc_step.register [where os = os and ph = ph and t = t and p = p and k = k]
      conc_step.register_fresh [where os = os and ph = ph and t = t and p = p and k = k and src = "the src"]
    by (cases src) fastforce+
next
  case (Copying src q m)
  then obtain p k old where "ph t = Copying ((p, k), old) q m" by (cases src) auto
  from conc_step.copy [where os = os and ph = ph and t = t, OF this] show ?thesis using Copying by fastforce
next
  case (Checking dst p k)
  obtain r s' where "check_step p s = Returns r s'" by (rule check_ready) (use assms(6) Checking sim_config [OF assms(1,2)] in auto)
  then show ?thesis using conc_step.check_old [where os = os and ph = ph and t = t, OF Checking]
      conc_step.fail_check_old [where os = os and ph = ph and t = t, OF Checking] Checking by (cases r) fastforce+
next
  case (Releasing dst p k)
  obtain n v s' where "release_step os c p s = Returns (Inr (n, v)) s'" using release_ready [OF assms(1,2) Releasing] .
  from conc_step.release [where ph = ph and t = t, OF Releasing assms(5) this] show ?thesis using Releasing
    by (intro exI conjI) (auto simp: call_weights)
next
  case (Uncounting dst p ks)
  then have "ph t = Uncounting dst p []" using assms(4) by simp
  from conc_step.unregister [where os = os and ph = ph and t = t, OF this] show ?thesis using Uncounting by fastforce
qed (use assms(3) in blast)

lemma some_steps:
  assumes "fair_start os tls0 M0" "sim os cfg tls0 M0 s ph A" "ph t \<noteq> Idle" "abortOnError cfg \<Longrightarrow> \<not> may_fail (ph t)"
  shows "\<exists>k s' x A'. (moves os t ^^ k) (s, ph, A) (s', ph(t := x), A') \<and> 0 < k \<and> k + steps_left x \<le> steps_left (ph t) \<and>
    (may_fail x \<longrightarrow> may_fail (ph t))"
proof (cases "accesses (ph t) = []")
  case True
  have "thread (caller0\<lparr>thread := t\<rparr>) = t" by simp
  from one_step [OF assms(1-3) True this assms(4)] obtain s' x A' where
    "conc_step os t s ph A s' (ph(t := x)) A'" "steps_left x < steps_left (ph t)" "may_fail x \<longrightarrow> may_fail (ph t)" by blast
  moreover from this(1) have "(moves os t ^^ 1) (s, ph, A) (s', ph(t := x), A')" by auto
  ultimately show ?thesis by (intro exI [of _ 1] exI [of _ s'] exI [of _ x] exI [of _ A']) auto
next
  case False
  from access_progress [OF this, of "stats s"] obtain k st ks where
    k: "(accesses_made ^^ k) (stats s, accesses (ph t)) (st, ks)" "0 < k" "k + access_weight ks \<le> access_weight (accesses (ph t))" by blast
  show ?thesis
  proof (cases "ph t")
    case (Counting src p n js)
    then have "(moves os t ^^ k) (s, ph, A) (s\<lparr>stats := st\<rparr>, ph(t := Counting src p n ks), A)"
      using count_moves [OF k(1), where os = os and t = t and A = A and ph = ph and src = src and p = p and n = n] by (simp add: fun_upd_idem)
    then show ?thesis using k(2,3) Counting
      by (intro exI [of _ k] exI [of _ "s\<lparr>stats := st\<rparr>"] exI [of _ "Counting src p n ks"] exI [of _ A]) auto
  next
    case (Uncounting dst p js)
    then have "(moves os t ^^ k) (s, ph, A) (s\<lparr>stats := st\<rparr>, ph(t := Uncounting dst p ks), A)"
      using uncount_moves [OF k(1), where os = os and t = t and A = A and ph = ph and dst = dst and p = p] by (simp add: fun_upd_idem)
    then show ?thesis using k(2,3) Uncounting
      by (intro exI [of _ k] exI [of _ "s\<lparr>stats := st\<rparr>"] exI [of _ "Uncounting dst p ks"] exI [of _ A]) auto
  qed (use False in auto)
qed

lemma moves_sim:
  assumes "(moves os t ^^ k) (s, ph, A) (s', ph', A')" "fair_start os tls0 M0" "sim os cfg tls0 M0 s ph A"
  shows "sim os cfg tls0 M0 s' ph' A'"
  using assms
proof (induction k arbitrary: s' ph' A')
  case (Suc k)
  then obtain s1 ph1 A1 where "(moves os t ^^ k) (s, ph, A) (s1, ph1, A1)" "conc_step os t s1 ph1 A1 s' ph' A'" by auto
  then show ?case using Suc sim_step by blast
qed simp

lemma steps_to_idle:
  assumes "fair_start os tls0 M0" "sim os cfg tls0 M0 s ph A" "abortOnError cfg \<Longrightarrow> \<not> may_fail (ph t)"
  shows "\<exists>k \<le> steps_left (ph t). \<exists>s' A'. (moves os t ^^ k) (s, ph, A) (s', ph(t := Idle), A')"
  using assms(2,3)
proof (induction "steps_left (ph t)" arbitrary: s ph A rule: less_induct)
  case less
  show ?case
  proof (cases "ph t = Idle")
    case True
    then have "(moves os t ^^ 0) (s, ph, A) (s, ph(t := Idle), A)" by (simp add: fun_upd_idem)
    then show ?thesis by blast
  next
    case False
    from some_steps [OF assms(1) less.prems(1) False less.prems(2)] obtain j s1 x A1 where
      j: "(moves os t ^^ j) (s, ph, A) (s1, ph(t := x), A1)" "0 < j" "j + steps_left x \<le> steps_left (ph t)"
        "may_fail x \<longrightarrow> may_fail (ph t)" by blast
    have "\<exists>k \<le> steps_left ((ph(t := x)) t). \<exists>s' A'. (moves os t ^^ k) (s1, ph(t := x), A1) (s', ph(t := x, t := Idle), A')"
      using less.hyps [where ph = "ph(t := x)", OF _ moves_sim [OF j(1) assms(1) less.prems(1)]] j(2-4) less.prems(2) by auto
    then obtain k s' A' where k: "k \<le> steps_left x" "(moves os t ^^ k) (s1, ph(t := x), A1) (s', ph(t := Idle), A')" by auto
    from j(1) k(2) have "(moves os t ^^ (j + k)) (s, ph, A) (s', ph(t := Idle), A')" by (auto simp: relpowp_add)
    then show ?thesis using k(1) j(3) by (intro exI [of _ "j + k"]) auto
  qed
qed

lemma others_wait: "conc_step os u s ph A s' ph' A' \<Longrightarrow> u \<noteq> t \<Longrightarrow> ph' t = ph t"
  by (induction rule: conc_step.induct) auto

text \<open>In company, only an exchange that fails leaves a thread where it was.\<close>

lemma access_falls:
  assumes "access_step st ks st' ks'" "\<not> (\<exists>c pk pk' r. ks = Exchange c pk # r \<and> ks' = Exchange c pk' # r)"
  shows "access_weight ks' < access_weight ks"
  using assms by (cases rule: access_step.cases) auto

lemma step_falls:
  assumes "conc_step os t s ph A s' ph' A'" "ph t \<noteq> Idle" "\<not> retried (ph t) (ph' t)"
  shows "steps_left (ph' t) < steps_left (ph t)"
  using assms(1)
proof cases
  case (count src p k ks st ks')
  then show ?thesis using access_falls [OF count(5)] assms(3) by (auto simp: retried_def)
next
  case (uncount dst p ks st ks')
  then show ?thesis using access_falls [OF uncount(5)] assms(3) by (auto simp: retried_def)
qed (use assms(2) in \<open>auto simp: call_weights\<close>)

lemma retry_shape:
  assumes "conc_step os t s ph A s' ph' A'" "retried (ph t) (ph' t)"
  shows "s' = s" "A' = A" "steps_left (ph' t) = steps_left (ph t)"
    "\<exists>c pk ks. accesses (ph t) = Exchange c pk # ks \<and> accesses (ph' t) = Exchange c (stats s PeakUsage) # ks \<and>
       (ph' t = ph t \<longleftrightarrow> stats s PeakUsage = pk)"
proof -
  have no: "x # xs \<noteq> xs" for x :: access and xs by (metis not_Cons_self)
  have "s' = s \<and> A' = A \<and> steps_left (ph' t) = steps_left (ph t) \<and>
    (\<exists>c pk ks. accesses (ph t) = Exchange c pk # ks \<and> accesses (ph' t) = Exchange c (stats s PeakUsage) # ks \<and>
       (ph' t = ph t \<longleftrightarrow> stats s PeakUsage = pk))"
    using assms(1)
  proof cases
    case (count src p k ks st ks')
    from count(5) assms(2) show ?thesis
      by (cases rule: access_step.cases) (use count no in \<open>auto simp: retried_def\<close>)
  next
    case (uncount dst p ks st ks')
    from uncount(5) assms(2) show ?thesis
      by (cases rule: access_step.cases) (use uncount no in \<open>auto simp: retried_def\<close>)
  qed (use assms(2) in \<open>auto simp: retried_def\<close>)
  then show "s' = s" "A' = A" "steps_left (ph' t) = steps_left (ph t)"
    "\<exists>c pk ks. accesses (ph t) = Exchange c pk # ks \<and> accesses (ph' t) = Exchange c (stats s PeakUsage) # ks \<and>
       (ph' t = ph t \<longleftrightarrow> stats s PeakUsage = pk)" by blast+
qed

text \<open>The peak a thread expects is outdated, as 0 or 1.\<close>

definition outdated :: "AllocatorImpl \<Rightarrow> phase \<Rightarrow> nat" where
  "outdated s x = (if \<exists>c pk ks. accesses x = Exchange c pk # ks \<and> pk \<noteq> stats s PeakUsage then 1 else 0)"

lemma outdated_le: "outdated s x \<le> 1"
  by (simp add: outdated_def)

lemma access_up_to_date:
  assumes "access_step (stats s) ks (stats s') ks'" "exchange_next ks" "accesses x = ks'"
    "\<not> (\<exists>c pk pk' r. ks = Exchange c pk # r \<and> ks' = Exchange c pk' # r)"
  shows "outdated s' x = 0"
  using assms by (cases rule: access_step.cases) (fastforce simp: outdated_def exchange_next_def)+

lemma own_up_to_date:
  assumes "conc_step os t s ph A s' ph' A'" "\<not> retried (ph t) (ph' t)" "proper (ph t)"
  shows "outdated s' (ph' t) \<le> outdated s (ph t)"
  using assms(1)
proof cases
  case (count src p k ks st ks')
  then have "outdated s' (ph' t) = 0" using access_up_to_date [of s ks s' ks' "ph' t"] assms(2,3) by (simp add: retried_def)
  then show ?thesis by simp
next
  case (uncount dst p ks st ks')
  then have "outdated s' (ph' t) = 0" using access_up_to_date [of s ks s' ks' "ph' t"] assms(2,3) by (simp add: retried_def)
  then show ?thesis by simp
qed (auto simp: outdated_def allocationCall_def freeCall_def)

lemma call_run_bound:
  assumes "call_run os t (s0, ph0, A0) y n f r" "fair_start os tls0 M0" "conc_reach os cfg tls0 M0 s0 ph0 A0"
  shows "case y of (s, ph, A) \<Rightarrow> conc_reach os cfg tls0 M0 s ph A \<and> n + steps_left (ph t) \<le> steps_left (ph0 t) \<and>
    f + outdated s (ph t) \<le> r + outdated s0 (ph0 t)"
  using assms(1)
proof (induction rule: call_run.induct)
  case start
  then show ?case using assms(3) by simp
next
  case (own s ph A n f r s' ph' A')
  then have "conc_reach os cfg tls0 M0 s ph A" by simp
  then have "proper (ph t)" using simD [OF conc_reach_sim [OF assms(2)]] by metis
  then show ?case using own step_falls [OF own.hyps(3,2,4)] own_up_to_date [OF own.hyps(3,4)] conc_reach.move by fastforce
next
  case (own_retry s ph A n f r s' ph' A')
  note sh = retry_shape [OF own_retry.hyps(2,3)]
  have "(if ph' t = ph t then f else Suc f) + outdated s' (ph' t) \<le> f + outdated s (ph t)"
    using sh(4) by (auto simp: outdated_def sh(1))
  then show ?case using own_retry sh(3) conc_reach.move by fastforce
next
  case (other s ph A n f r u s' ph' A')
  have "ph' t = ph t" by (rule others_wait [OF other.hyps(3,2)])
  moreover have "outdated s' (ph t) = outdated s (ph t)" if "stats s' PeakUsage = stats s PeakUsage" using that by (simp add: outdated_def)
  ultimately show ?case using other conc_reach.move outdated_le [of s' "ph t"] by fastforce
next
  case (user_write s ph A n f r g)
  then have "conc_reach os cfg tls0 M0 (on_mem g s) ph A" using conc_reach.user_write by simp
  then show ?case using user_write by (simp add: outdated_def)
qed

lemma steps_bound: "proper x \<Longrightarrow> steps_left x \<le> (if may_fail x then 20 else 10)"
  by (cases x) auto

text \<open>
  C11: a thread inside a call is never stuck and never sent back.  From every state the program can reach
  it can finish alone, within ten of its own steps, or twenty in a moving \<open>reallocate\<close>.  In company, in
  every run, it takes no more than that many steps and failed exchanges of \<open>updatePeak\<close>; and of these,
  those that do not fail spuriously are at most one more than the changes other threads have made to the
  peak meanwhile.  No step of another thread moves it.  The only calls that may end the program instead
  are those of \<open>reallocate\<close> under \<open>abortOnError\<close>, when their allocation or their release is refused.
\<close>

theorem calls_finish:
  assumes "fair_start os tls0 M0" "conc_reach os cfg tls0 M0 s ph A" "abortOnError cfg \<Longrightarrow> \<not> may_fail (ph t)"
  shows "(\<exists>k \<le> (if may_fail (ph t) then 20 else 10). \<exists>s' A'. (moves os t ^^ k) (s, ph, A) (s', ph(t := Idle), A')) \<and>
    (\<forall>y n f r. call_run os t (s, ph, A) y n f r \<longrightarrow> n \<le> (if may_fail (ph t) then 20 else 10) \<and> f \<le> r + 1) \<and>
    (\<forall>u s' ph' A'. u \<noteq> t \<longrightarrow> conc_step os u s ph A s' ph' A' \<longrightarrow> ph' t = ph t)"
proof -
  note sim = conc_reach_sim [OF assms(1,2)]
  obtain "\<forall>t. proper (ph t)" by (rule simD [OF sim])
  then have b: "steps_left (ph t) \<le> (if may_fail (ph t) then 20 else 10)" using steps_bound by blast
  have "n \<le> steps_left (ph t) \<and> f \<le> r + 1" if "call_run os t (s, ph, A) y n f r" for y n f r
    using call_run_bound [OF that assms(1,2)] outdated_le [of s "ph t"] by (cases y) auto
  with b steps_to_idle [OF assms(1) sim assms(3)] others_wait show ?thesis by (meson order_trans)
qed

theorem calls_finish_witness:
  "\<exists>s v k s' A'. conc_reach linear_os AllocatorConfig_release Map.empty blank_machine s ((\<lambda>_. Idle)(0 := Counting None 65552 8 (allocationCall 8 (to_size v)))) {} \<and>
     k \<le> 10 \<and> (moves linear_os 0 ^^ k) (s, (\<lambda>_. Idle)(0 := Counting None 65552 8 (allocationCall 8 (to_size v))), {}) (s', \<lambda>_. Idle, A')"
proof -
  have cfg: "first_pointer AllocatorConfig_release = 65552" by (simp add: AllocatorConfig_release_def AllocatorConfig_default_def)
  obtain s v where s: "conc_reach linear_os AllocatorConfig_release Map.empty blank_machine s ((\<lambda>_. Idle)(0 := Counting None 65552 8 (allocationCall 8 (to_size v)))) {}"
    using first_steps [of AllocatorConfig_release] unfolding cfg by metis
  let ?ph = "(\<lambda>_ :: nat. Idle)(0 := Counting None 65552 8 (allocationCall 8 (to_size v)))"
  have "\<not> may_fail (?ph 0)" by simp
  from conjunct1 [OF calls_finish [OF fair_linear s this]] obtain k s' A' where
    "k \<le> 10" "(moves linear_os 0 ^^ k) (s, ?ph, {}) (s', \<lambda>_. Idle, A')"
    by (simp only: fun_upd_same fun_upd_upd all_idle may_fail.simps if_False simp_thms) blast
  with s show ?thesis by blast
qed

section \<open>Data survives\<close>

lemma spec_keeps:
  assumes "fair_start os tls0 M0" "impl_reach False os cfg tls0 M0 s A"
    "AllocatorImpl_allocate os c n s = Returns r s' \<or> AllocatorImpl_alignedAllocate os c al n s = Returns r s'"
  shows "keeps A s s'"
proof -
  have "fails s A e p (Returns r s') \<Longrightarrow> keeps A s s'" for e p by (auto simp: fails_def split: if_splits)
  moreover have "granted s A p k s' \<Longrightarrow> keeps A s s'" for p k by (simp add: granted_def)
  ultimately show ?thesis
    using assms(3) allocate_spec [OF assms(1,2), of c n] alignedAllocate_spec [OF assms(1,2), of c al n]
    by (auto split: if_splits)
qed

lemma begin_keeps:
  assumes "fair_start os tls0 M0" "sim os cfg tls0 M0 s ph A"
    "(f = allocate_begin os c n \<and> g = AllocatorImpl_allocate os c n) \<or>
     (f = alignedAllocate_begin os c al n \<and> g = AllocatorImpl_alignedAllocate os c al n)"
    "f s = Returns r s'"
  shows "\<forall>x \<in> cells (A \<union> in_flight ph). mem (world s') x = mem (world s) x"
proof -
  obtain pk where w: "impl_reach False os (untracked cfg) tls0 M0 (whole pk s ph) (A \<union> in_flight ph)" by (rule simD [OF assms(2)])
  have dr: "f (dress b st dl r) = map_state (dress b st dl) (f r)" for b st dl r
    using assms(3) allocate_begin_dress alignedAllocate_begin_dress by auto
  have "g (whole pk s ph) = then_finish c (f (whole pk s ph))" using assms(3) allocate_steps alignedAllocate_steps by auto
  also have "\<dots> = then_finish c (Returns r (whole pk s' ph))" using step_whole(1) [where f = f, OF dr assms(4)] by simp
  finally obtain r' s2 where "g (whole pk s ph) = Returns r' s2" "world s2 = world s'"
    by (cases r) (auto simp: then_finish_def register_step_def count_step_def split: prod.splits)
  moreover have "AllocatorImpl_allocate os c n (whole pk s ph) = Returns r' s2 \<or> AllocatorImpl_alignedAllocate os c al n (whole pk s ph) = Returns r' s2"
    using assms(3) calculation(1) by auto
  ultimately show ?thesis using spec_keeps [OF assms(1) w] by (metis keeps_def whole_simps(1))
qed

lemma exit_keeps:
  assumes "fair_start os tls0 M0" "sim os cfg tls0 M0 s ph A" "AllocatorImpl_threadExit t s = Some s'"
  shows "\<forall>x \<in> cells (A \<union> in_flight ph). mem (world s') x = mem (world s) x"
proof -
  obtain pk where w: "impl_reach False os (untracked cfg) tls0 M0 (whole pk s ph) (A \<union> in_flight ph)" by (rule simD [OF assms(2)])
  obtain L where L: "impl_inv False os (whole pk s ph) L" "payload_of ` L = A \<union> in_flight ph"
    using reach_holds [OF assms(1) w] by blast
  have "tiers_ok os s (block_of ` L)" using impl_invD(3) [OF L(1)] by (simp add: central_of_def whole_def)
  then obtain s2 where "AllocatorImpl_threadExit t s = Some s2" "tier_step (snd ` block_of ` L) (world s) (regs_of s) (world s2) (regs_of s2)"
    using tiers_threadExit by blast
  then have "tier_step (snd ` block_of ` L) (world s) (regs_of s) (world s') (regs_of s')" using assms(3) by simp
  moreover have "cells (A \<union> in_flight ph) \<subseteq> cells (snd ` block_of ` L)" using payload_cells [of L] impl_invD(4) [OF L(1)] L(2) by auto
  ultimately show ?thesis using tier_step_memD by blast
qed

text \<open>The region a step of a phase copies into.\<close>

fun copied_to :: "phase \<Rightarrow> region set" where
  "copied_to (Copying src q m) = {(q, m)}"
| "copied_to _ = {}"

lemma copy_brings:
  assumes "fair_start os tls0 M0" "sim os cfg tls0 M0 s ph A" "ph t = Copying ((p, k), old) q m" "i < min k m"
  shows "mem (world (on_mem (memcpy q p (min old m)) s)) (q + i) = mem (world s) (p + i)"
proof -
  obtain "\<forall>t. proper (ph t)" by (rule simD [OF assms(2)])
  then have "old = k" using assms(3) by (metis fst_conv proper.simps(3) snd_conv)
  then show ?thesis using assms(4) by (simp add: on_mem_def memcpy_def)
qed

lemma copy_keeps:
  assumes "fair_start os tls0 M0" "sim os cfg tls0 M0 s ph A" "ph t = Copying ((p, k), old) q m"
  shows "\<forall>x \<in> cells (A \<union> in_flight ph - {(q, m)}). mem (world (on_mem (memcpy q p (min old m)) s)) x = mem (world s) x"
proof
  obtain pk where w: "impl_reach False os (untracked cfg) tls0 M0 (whole pk s ph) (A \<union> in_flight ph)" by (rule simD [OF assms(2)])
  fix x assume "x \<in> cells (A \<union> in_flight ph - {(q, m)})"
  then obtain a n where a: "(a, n) \<in> A \<union> in_flight ph" "(a, n) \<noteq> (q, m)" "a \<le> x" "x < a + n" by (auto simp: cells_iff)
  have "(q, m) \<in> A \<union> in_flight ph" using held_in_flight [of ph t] assms(3) by auto
  then have "apart (a, n) (q, m)" using reachable_safe_spec [OF assms(1) w] a(1,2) by blast
  then have "x \<notin> {q..<q + m}" using a(3,4) by auto
  then show "mem (world (on_mem (memcpy q p (min old m)) s)) x = mem (world s) x" by (simp add: on_mem_def memcpy_out [where m = m])
qed

lemma release_keeps:
  assumes "fair_start os tls0 M0" "sim os cfg tls0 M0 s ph A" "ph t = Releasing dst p k" "release_step os c p s = Returns (Inr (n, v)) s'"
  shows "\<forall>x \<in> cells ((A \<union> in_flight ph) \<inter> (A \<union> in_flight (ph(t := Uncounting dst p (freeCall (to_size n) (to_size v)))))). mem (world s') x = mem (world s) x"
proof -
  obtain d: "\<forall>t t'. t \<noteq> t' \<longrightarrow> held (ph t) \<inter> held (ph t') = {}" "A \<inter> in_flight ph = {}" "\<forall>t. proper (ph t)" by (rule simD [OF assms(2)])
  have held: "held (ph t) = insert (p, k) (set_option dst)" "(p, k) \<notin> set_option dst" using assms(3) d(3) [rule_format, of t] by auto
  then have "(p, k) \<notin> A \<union> in_flight (ph(t := Uncounting dst p (freeCall (to_size n) (to_size v))))"
    using d(2) held_in_flight [of ph t] in_flight_upd [OF d(1), of t "Uncounting dst p (freeCall (to_size n) (to_size v))"] by auto
  then have "cells ((A \<union> in_flight ph) \<inter> (A \<union> in_flight (ph(t := Uncounting dst p (freeCall (to_size n) (to_size v)))))) \<subseteq> cells (A \<union> in_flight ph - {(p, k)})"
    by (intro cells_mono) blast
  moreover obtain n' v' s2 where "release_step os c p s = Returns (Inr (n', v')) s2"
    "\<forall>x \<in> cells (A \<union> in_flight ph - {(p, k)}). mem (world s2) x = mem (world s) x" by (rule release_ready [OF assms(1-3), of c])
  ultimately show ?thesis using assms(4) by auto
qed

text \<open>
  C10: no step of a call, of whatever thread, and no end of a thread changes a byte of a region that is
  held, by the program or by a call under way, before and after it; but for the copy of a moving
  \<open>reallocate\<close>, which fills its new block with the contents of the old one, as far as both reach.
\<close>

theorem interleaved_calls_keep_data:
  assumes "fair_start os tls0 M0" "conc_reach os cfg tls0 M0 s ph A" "conc_step os t s ph A s' ph' A'"
  shows "(\<forall>x \<in> cells ((A \<union> in_flight ph) \<inter> (A' \<union> in_flight ph') - copied_to (ph t)). mem (world s') x = mem (world s) x) \<and>
    (\<forall>p k old q m i. ph t = Copying ((p, k), old) q m \<longrightarrow> i < min k m \<longrightarrow> mem (world s') (q + i) = mem (world s) (p + i))"
proof -
  note sim = conc_reach_sim [OF assms(1,2)]
  have sub: "cells ((A \<union> in_flight ph) \<inter> (A' \<union> in_flight ph') - copied_to (ph t)) \<subseteq> cells (A \<union> in_flight ph - copied_to (ph t))"
    by (rule cells_mono) blast
  moreover have "cells (A \<union> in_flight ph - copied_to (ph t)) \<subseteq> cells (A \<union> in_flight ph)" by (rule cells_mono) blast
  ultimately have ok: ?thesis if "\<And>src q m. ph t \<noteq> Copying src q m" "\<forall>x \<in> cells (A \<union> in_flight ph). mem (world s') x = mem (world s) x"
    using that by blast
  have begin1: "allocate_begin os c n s = Returns r s' \<Longrightarrow> \<forall>x \<in> cells (A \<union> in_flight ph). mem (world s') x = mem (world s) x" for c n r
    by (rule begin_keeps [OF assms(1) sim, where f = "allocate_begin os c n" and n = n and c = c]) auto
  have begin2: "alignedAllocate_begin os c al n s = Returns r s' \<Longrightarrow> \<forall>x \<in> cells (A \<union> in_flight ph). mem (world s') x = mem (world s) x" for c al n r
    by (rule begin_keeps [OF assms(1) sim, where f = "alignedAllocate_begin os c al n" and n = n and c = c and al = al]) auto
  from assms(3) show ?thesis
  proof cases
    case (release dst p k c n v)
    then show ?thesis using release_keeps [OF assms(1) sim release(3,5)] by simp
  next
    case thread_exit
    show ?thesis by (rule ok [OF _ exit_keeps [OF assms(1) sim thread_exit(4)]]) (simp add: thread_exit(3))
  next
    case (copy p k old q m)
    then show ?thesis using copy_keeps [OF assms(1) sim copy(4)] copy_brings [OF assms(1) sim copy(4)] sub by simp blast
  next
    case (begin_allocate c n p k v)
    show ?thesis by (rule ok [OF _ begin1 [OF begin_allocate(5)]]) (simp_all add: begin_allocate(3))
  next
    case (fail_allocate c n e)
    show ?thesis by (rule ok [OF _ begin1 [OF fail_allocate(5)]]) (simp_all add: fail_allocate(3))
  next
    case (begin_aligned c al n p k v)
    show ?thesis by (rule ok [OF _ begin2 [OF begin_aligned(5)]]) (simp_all add: begin_aligned(3))
  next
    case (fail_aligned c al n e)
    show ?thesis by (rule ok [OF _ begin2 [OF fail_aligned(5)]]) (simp_all add: fail_aligned(3))
  next
    case (resize_allocate src n c p k v)
    show ?thesis by (rule ok [OF _ begin1 [OF resize_allocate(5)]]) (simp_all add: resize_allocate(3))
  next
    case (resize_refused src n c e)
    show ?thesis by (rule ok [OF _ begin1 [OF resize_refused(5)]]) (simp_all add: resize_refused(3))
  next
    case (count src p k ks st ks')
    show ?thesis by (rule ok) (simp_all add: count(1,4))
  next
    case (uncount dst p ks st ks')
    show ?thesis by (rule ok) (simp_all add: uncount(1,4))
  qed (auto simp: register_step_def unregister_step_def fail_with_eq
      dest!: check_passed check_failed size_known(1) split: if_splits)
qed

theorem interleaved_calls_keep_data_witness:
  "\<exists>s s'. conc_reach linear_os AllocatorConfig_release Map.empty blank_machine s (\<lambda>_. Idle) {(65552, 8)} \<and>
     conc_step linear_os 0 s (\<lambda>_. Idle) {(65552, 8)} s' ((\<lambda>_. Idle)(0 := Releasing None 65552 8)) {} \<and>
     (\<forall>x \<in> {65552..<65552 + 8}. mem (world s') x = mem (world s) x)"
proof -
  have cfg: "first_pointer AllocatorConfig_release = 65552" "\<not> enableLeakTracking AllocatorConfig_release"
    by (simp_all add: AllocatorConfig_release_def AllocatorConfig_default_def)
  obtain s where s: "conc_reach linear_os AllocatorConfig_release Map.empty blank_machine s (\<lambda>_. Idle) {(65552, 8)}"
    "AllocatorImpl_allocate linear_os caller0 8 (new_impl AllocatorConfig_release) = Returns (Inr 65552) s"
    using first_steps [of AllocatorConfig_release] unfolding cfg(1) by metis
  have "config s = AllocatorConfig_release"
    using reach_holds [OF fair_linear impl_reach.allocated [OF impl_reach.make _ s(2), where full = True]] by auto
  then have "check_step 65552 s = Returns (Inr ()) s" using cfg(2) by (simp add: check_step_def)
  from conc_step.check [where ph = "\<lambda>_. Idle" and t = 0 and A = "{(65552, 8)}", OF refl singletonI this]
  have st: "conc_step linear_os 0 s (\<lambda>_. Idle) {(65552, 8)} s ((\<lambda>_. Idle)(0 := Releasing None 65552 8)) {}" by simp
  show ?thesis using interleaved_calls_keep_data [OF fair_linear s(1) st] s(1) st by blast
qed

end
