(* ===== verification/RegistryRace.thy ===== *)
theory RegistryRace
  imports ConcurrentProperties
begin

text \<open>
  A release removes the pointer from the registry only after the block has gone back to its tier.  Between
  the two another thread can be given the same block, and register it; the late removal then takes the
  entry of the new owner.
\<close>

section \<open>A block given back is the next one handed out\<close>

lemma freed_first:
  assumes "smallFree False t ok i b M (pools, tls) = Some (M', pools', tls')" "b \<noteq> 0"
  shows "\<exists>pools''. smallAllocate os False t' ok' i M' (pools', tls') = Some (b, M', pools'', tls')"
  using assms
  by (auto simp: smallFree_def smallAllocate_def threadCache_def PoolAllocator_freeBlock_def PoolAllocator_allocateBlock_def
      takeBlock_def FreeList_push_def FreeList_pop_def Let_def split: if_splits prod.splits)

lemma small_again:
  assumes "impl_inv full os s L" "ob \<in> L" "o_key ob = Inl i" "\<not> enableThreadCache (config s)"
    "\<And>x. x \<notin> {o_start ob + 16..<o_start ob + o_cap ob} \<Longrightarrow> f (mem (world s)) x = mem (world s) x"
    "rawDeallocate os c (o_start ob + 16) (on_mem f s) = Returns (Inr r) s'" "config s' = config s"
  shows "\<exists>s''. rawAllocate os c' (o_req ob) s' = Returns (Inr (o_start ob + 16, classSize i)) s''"
proof -
  note d = impl_invD [OF assms(1)] and w = obj_wfD [OF impl_invD(4) [OF assms(1,2)]]
  note out = block_outstanding [OF d(3) block_mem [OF assms(2)]]
  have blk: "{o_start ob..<o_start ob + 16} \<subseteq> {o_start ob..<o_start ob + o_cap ob}" using w(4) by auto
  have key: "o_req ob \<le> kSmallMax" "classIndex (o_req ob) = Some i" using w(1) assms(3) by (simp_all add: key_for_def)
  have "load_header (f (mem (world s))) (o_start ob) = load_header (mem (world s)) (o_start ob)"
    by (rule load_header_cong) (use assms(5) in auto)
  then have "load_header (f (mem (world s))) (o_start ob) = fresh_header (o_req ob) Small"
    using d(5) [OF assms(2)] assms(3) by (simp add: obj_hdr_def tier_of_def)
  moreover have "{o_start ob..<o_start ob + 16} \<subseteq> mapped_cells (world (on_mem f s))" using blk out(3) by (auto simp: mapped_cells_def)
  ultimately have hd: "header_at (world (on_mem f s)) (o_start ob + 16) = Some (fresh_header (o_req ob) Small)"
    using header_at_mapped by fastforce
  let ?s = "on_mem (store_state (o_start ob) kStateFreed) (on_mem f s)"
  have "headerOf (o_start ob + 16) = o_start ob" by (simp add: headerOf_def const_simps)
  moreover have "tierValue (fresh_header (o_req ob) Small) = Some Small" by (rule tierValue_code) (simp add: fresh_header_def)
  ultimately obtain M pools tls where free: "smallFree False (thread c) (cacheRoom c) i (o_start ob) (world ?s)
      (poolAllocator s, tlsCaches s) = Some (M, pools, tls)" "world s' = M" "poolAllocator s' = pools" "tlsCaches s' = tls"
    using assms(4,6) hd key(2) by (auto simp: rawDeallocate_def fresh_header_def Let_def split: option.splits)
  have "o_start ob \<noteq> 0" using w(5) by simp
  from freed_first [OF free(1) this, of os "thread c'" "cacheRoom c'"] obtain pools'' where
    "smallAllocate os False (thread c') (cacheRoom c') i M (pools, tls) = Some (o_start ob, M, pools'', tls)" by blast
  then show ?thesis using free(2-4) key assms(4,7) w(5)
    by (simp add: rawAllocate_def Let_def userPointerOf_def const_simps)
qed

lemma guarded_again:
  assumes "impl_inv full os s L" "ob \<in> L" "o_kind ob = Guarded" "o_key ob = Inl i" "\<not> corrupted s ob"
    "\<not> enableThreadCache (config s)" "enableGuardBytes (config s)"
  obtains v s1 v' s2 where "release_step os c (o_user ob) s = Returns (Inr (o_size ob, v)) s1"
    "allocate_begin os c' (o_size ob) s1 = Returns (Inr (o_user ob, o_size ob, v')) s2"
proof -
  note wf = impl_invD(4) [OF assms(1,2)]
  note w = obj_wfD [OF wf] and u = user_header_facts [OF wf]
  have wout: "wipe s ob (mem (world s)) x = mem (world s) x" if "x \<notin> {o_start ob + 16..<o_start ob + o_cap ob}" for x
    using wipe_out [OF wf that] .
  obtain s1 where s1: "rawDeallocate os c (o_start ob + 16) (on_mem (wipe s ob) s) = Returns (Inr (reserved_of (o_key ob) (o_cap ob))) s1" "same_rest s s1"
    using release_raw [where f = "wipe s ob" and c = c, OF assms(1,2) wout] by blast
  have cfg: "config s1 = config s" using s1(2) by (simp add: same_rest_def)
  have rel: "release_step os c (o_user ob) s = Returns (Inr (o_size ob, reserved_of (o_key ob) (o_cap ob))) s1"
    using live_header [OF assms(1,2)] u(1,2,4) s1(1) assms(5) release_block_eq [OF wf, of os c s]
    by (simp add: release_step_def const_simps)
  have at: "o_user ob = o_start ob + 48" "o_req ob = o_size ob + 64" using wf assms(3) by (simp_all add: obj_wf_def)
  obtain s2 where s2: "rawAllocate os c' (o_req ob) s1 = Returns (Inr (o_start ob + 16, classSize i)) s2"
    using small_again [where f = "wipe s ob", OF assms(1,2,4,6) wout s1(1) cfg] by blast
  have "guardedSize (o_size ob) = o_req ob" using at(2) w(8) by (simp add: guardedSize_def const_simps size_add_def)
  then have "\<exists>s3. allocate_begin os c' (o_size ob) s1 = Returns (Inr (o_user ob, o_size ob, classSize i)) s3"
    using s2 assms(7) cfg w(7,8) at(1) by (auto simp: allocate_begin_def prepare_def case_prod_beta Let_def)
  then show thesis using that rel by blast
qed

section \<open>The race\<close>

text \<open>The run: thread 0 releases, thread 1 allocates and registers the same block, thread 0 finishes.\<close>

lemma race_run:
  assumes "conc_reach os cfg tls0 M0 s (\<lambda>_. Idle) {(p, 8)}" "check_step p s = Returns (Inr ()) s" "thread c = 0" "thread c' = 1"
    "release_step os c p s = Returns (Inr (8, v)) s1" "allocate_begin os c' 8 s1 = Returns (Inr (p, 8, v')) s2"
  shows "conc_reach os cfg tls0 M0 (unregister_step c p (uncount_step 8 v (register_step c' p 8 (count_step 8 v' s2)))) (\<lambda>_. Idle) {(p, 8)}"
proof -
  let ?R = "conc_reach os cfg tls0 M0"
  let ?a = "(\<lambda>_ :: nat. Idle)(0 := Releasing None p 8)" and ?b = "(\<lambda>_ :: nat. Idle)(0 := Uncounting None p (freeCall (to_size 8) (to_size v)))"
  have "?R s ?a ({(p, 8)} - {(p, 8)})"
    by (rule conc_reach.move [OF assms(1) conc_step.check]) (use assms(2) in simp_all)
  then have "?R s ?a {}" by simp
  from conc_reach.move [OF this conc_step.release [OF _ assms(3,5)]] have "?R s1 ?b {}" by simp
  from conc_reach.move [OF this conc_step.begin_allocate [OF _ assms(4,6)]]
  have "?R s2 (?b(1 := Counting None p 8 (allocationCall (to_size 8) (to_size v')))) {}" by simp
  from counted_reach [OF this] have "?R (count_step 8 v' s2) (?b(1 := Counting None p 8 [])) {}" .
  from conc_reach.move [OF this conc_step.register [where t = 1 and p = p and k = 8 and c = c']]
  have "?R (register_step c' p 8 (count_step 8 v' s2)) (?b(1 := Idle)) {(p, 8)}" by simp
  moreover have "?b(1 := Idle) = ?b" by (simp add: fun_eq_iff)
  ultimately have "?R (register_step c' p 8 (count_step 8 v' s2)) ?b {(p, 8)}" by simp
  from uncounted_reach [OF this]
  have "?R (uncount_step 8 v (register_step c' p 8 (count_step 8 v' s2))) ((\<lambda>_. Idle)(0 := Uncounting None p [])) {(p, 8)}" .
  from conc_reach.move [OF this conc_step.unregister [where dst = None and t = 0 and p = p and c = c]] show ?thesis by simp
qed

text \<open>
  C13: the registry is not exact when calls overlap.  In debug mode, one thread releases an allocation
  while another allocates: the second gets the same block, and when both calls are over the program
  holds it, but the allocator counts no live allocation and answers its rightful release with a double
  free.
\<close>

theorem late_unregistration_loses_an_allocation:
  "\<exists>s. conc_reach linear_os AllocatorConfig_debug Map.empty blank_machine s (\<lambda>_. Idle) {(65584, 8)} \<and>
     liveAllocationCount s = 0 \<and> AllocatorImpl_deallocate linear_os caller0 65584 s = fail_with DoubleFree 65584 s"
proof -
  let ?cfg = AllocatorConfig_debug and ?c = "caller0\<lparr>thread := 1\<rparr>"
  have cfg: "enableGuardBytes ?cfg" "enableLeakTracking ?cfg" "\<not> enableThreadCache ?cfg" by (simp_all add: AllocatorConfig_debug_def)
  obtain s where s: "conc_reach linear_os ?cfg Map.empty blank_machine s (\<lambda>_. Idle) {(65584, 8)}"
    "AllocatorImpl_allocate linear_os caller0 8 (new_impl ?cfg) = Returns (Inr 65584) s"
    using first_steps [of ?cfg] cfg(1) by auto
  have "impl_inv True linear_os (new_impl ?cfg) {}" using make_inv fair_linear by (auto simp: fair_start_def)
  then obtain ob where "served True linear_os caller0 8 {} (new_impl ?cfg) (Returns (Inr 65584) s) ob s" "o_kind ob = Guarded"
    using allocated_object [OF _ _ s(2)] cfg(1) by (auto simp: asked_def)
  then have ob: "impl_inv True linear_os s {ob}" "o_user ob = 65584" "o_size ob = 8" "o_kind ob = Guarded" "\<not> corrupted s ob" "config s = ?cfg"
    "debug s = track True 65584 8 DebugLayer_init" using cfg(2) by (auto simp: served_def)
  note wf = impl_invD(4) [OF ob(1) insertI1]
  have "key_for (o_key ob) 72" using wf ob(3,4) by (auto simp: obj_wf_def)
  then obtain i where i: "o_key ob = Inl i" by (auto simp: key_for_def const_simps split: sum.splits)
  have off: "\<not> enableThreadCache (config s)" "enableGuardBytes (config s)" using cfg ob(6) by auto
  obtain v s1 v' s2 where st: "release_step linear_os caller0 65584 s = Returns (Inr (8, v)) s1"
    "allocate_begin linear_os ?c 8 s1 = Returns (Inr (65584, 8, v')) s2"
    by (rule guarded_again [OF ob(1) insertI1 ob(4) i ob(5) off, of caller0 ?c, unfolded ob(2,3)])
  note same = dressed_same [where f = "release_step linear_os caller0 65584", OF release_step_dress st(1)]
    dressed_same [where f = "allocate_begin linear_os ?c 8", OF allocate_begin_dress st(2)]
  have d: "debug s2 = track True 65584 8 DebugLayer_init" "enableLeakTracking (config s2)" using same ob(6,7) cfg(2) by auto
  have "check_step 65584 s = Returns (Inr ()) s" using ob(7) by (simp add: check_step_def isTracked_map_of live_track)
  note run = race_run [OF s(1) this _ _ st]
  let ?s = "unregister_step caller0 65584 (uncount_step 8 v (register_step ?c 65584 8 (count_step 8 v' s2)))"
  have e: "debug ?s = snd (untrack True 65584 (track True 65584 8 (track True 65584 8 DebugLayer_init)))" "enableLeakTracking (config ?s)"
    using d by (simp_all add: unregister_step_def uncount_step_def register_step_def count_step_def)
  have "liveAllocationCount ?s = 0" unfolding liveAllocationCount_def e(1)
    by (simp add: track_def untrack_def isTracked_def liveCount_def DebugLayer_init_def)
  moreover have "\<not> isTracked 65584 (debug ?s)" "wasFreed 65584 (debug ?s)" unfolding e(1)
    by (simp_all add: track_def untrack_def isTracked_def wasFreed_def DebugLayer_init_def)
  then have "AllocatorImpl_deallocate linear_os caller0 65584 ?s = fail_with DoubleFree 65584 ?s"
    using untracked_deallocate [of ?s 65584] e(2) by simp
  ultimately show ?thesis using run by auto
qed

end
