(* ===== verification/Allocator.thy ===== *)
theory Allocator
  imports AllocatorImpl
begin

text \<open>
  The public interface: \<^verbatim>\<open>include/MAlloc/Allocator.hpp\<close> with \<^verbatim>\<open>src/Allocator.cpp\<close>, and the two adapters
  \<^verbatim>\<open>include/MAlloc/StlAllocator.hpp\<close> and \<^verbatim>\<open>include/MAlloc/MemoryResource.hpp\<close>.  An allocator owns its
  implementation or, when it has been moved from, nothing: \<^term>\<open>None\<close>.  The outcome carries that
  pointer on; on an allocator without implementation no call touches the world.
\<close>

section \<open>Allocator\<close>

type_synonym Allocator = "AllocatorImpl option"

definition kFallbackConfig :: AllocatorConfig where
  "kFallbackConfig = AllocatorConfig_default"

definition Allocator_make :: "AllocatorConfig \<Rightarrow> tls \<Rightarrow> machine \<Rightarrow> Allocator" where
  "Allocator_make cfg tls M = Some (AllocatorImpl_make cfg tls M)"

definition Allocator_default :: "tls \<Rightarrow> machine \<Rightarrow> Allocator" where
  "Allocator_default tls M = Some (AllocatorImpl_make AllocatorConfig_default tls M)"

text \<open>
  Moving gives (new object, old object).  The destructor destroys the implementation, if there is one,
  and a move assignment that of its target, after it has taken the other's; two allocators of one
  process are in the same world, so that the one that stays is in the world the other leaves behind.
  The assignment, between two different objects, also gives what the destroyed implementation leaves: the
  thread caches, now expired, and its events, a leak message included.
\<close>

definition Allocator_move :: "Allocator \<Rightarrow> Allocator \<times> Allocator" where
  "Allocator_move other = (other, None)"

definition Allocator_destroy :: "os \<Rightarrow> Allocator \<Rightarrow> (machine \<times> tls \<times> event list) option" where
  "Allocator_destroy os a = map_option (AllocatorImpl_destroy os) a"

definition Allocator_move_assign :: "os \<Rightarrow> Allocator \<Rightarrow> Allocator \<Rightarrow> Allocator \<times> Allocator \<times> (tls \<times> event list) option" where
  "Allocator_move_assign os self other =
     (case Allocator_destroy os self of
        None \<Rightarrow> (other, None, None)
      | Some (M, tls, evs) \<Rightarrow> (map_option (\<lambda>impl. impl\<lparr>world := M\<rparr>) other, None, Some (tls, evs)))"

text \<open>Running the implementation, with the pointer to it kept.\<close>

fun on_impl :: "('a, AllocatorImpl) outcome \<Rightarrow> ('a, Allocator) outcome" where
  "on_impl (Returns x s) = Returns x (Some s)"
| "on_impl (Aborts s) = Aborts (Some s)"
| "on_impl Undefined = Undefined"
| "on_impl Diverges = Diverges"

text \<open>\<^verbatim>\<open>value_or(nullptr)\<close>.\<close>

definition value_or_null :: "Error + addr \<Rightarrow> addr" where
  "value_or_null r = (case r of Inl _ \<Rightarrow> 0 | Inr p \<Rightarrow> p)"

definition Allocator_allocate :: "os \<Rightarrow> caller \<Rightarrow> nat \<Rightarrow> Allocator \<Rightarrow> (addr, Allocator) outcome" where
  "Allocator_allocate os c n a = (case a of
       None \<Rightarrow> Returns 0 a
     | Some impl \<Rightarrow> and_then (on_impl (AllocatorImpl_allocate os c n impl)) (\<lambda>r a'. Returns (value_or_null r) a'))"

definition Allocator_deallocate :: "os \<Rightarrow> caller \<Rightarrow> addr \<Rightarrow> Allocator \<Rightarrow> (unit, Allocator) outcome" where
  "Allocator_deallocate os c p a = (case a of
       None \<Rightarrow> Returns () a
     | Some impl \<Rightarrow> and_then (on_impl (AllocatorImpl_deallocate os c p impl)) (\<lambda>_ a'. Returns () a'))"

definition Allocator_reallocate :: "os \<Rightarrow> caller \<Rightarrow> caller \<Rightarrow> addr \<Rightarrow> nat \<Rightarrow> Allocator \<Rightarrow> (addr, Allocator) outcome" where
  "Allocator_reallocate os c c' p n a = (case a of
       None \<Rightarrow> Returns 0 a
     | Some impl \<Rightarrow> and_then (on_impl (AllocatorImpl_reallocate os c c' p n impl)) (\<lambda>r a'. Returns (value_or_null r) a'))"

definition Allocator_alignedAllocate :: "os \<Rightarrow> caller \<Rightarrow> nat \<Rightarrow> nat \<Rightarrow> Allocator \<Rightarrow> (addr, Allocator) outcome" where
  "Allocator_alignedAllocate os c alignment n a = (case a of
       None \<Rightarrow> Returns 0 a
     | Some impl \<Rightarrow> and_then (on_impl (AllocatorImpl_alignedAllocate os c alignment n impl)) (\<lambda>r a'. Returns (value_or_null r) a'))"

definition Allocator_tryAllocate :: "os \<Rightarrow> caller \<Rightarrow> nat \<Rightarrow> Allocator \<Rightarrow> (Error + addr, Allocator) outcome" where
  "Allocator_tryAllocate os c n a = (case a of
       None \<Rightarrow> Returns (Inl OutOfMemory) a
     | Some impl \<Rightarrow> on_impl (AllocatorImpl_allocate os c n impl))"

definition Allocator_tryDeallocate :: "os \<Rightarrow> caller \<Rightarrow> addr \<Rightarrow> Allocator \<Rightarrow> (Error + unit, Allocator) outcome" where
  "Allocator_tryDeallocate os c p a = (case a of
       None \<Rightarrow> Returns (Inl InvalidPointer) a
     | Some impl \<Rightarrow> on_impl (AllocatorImpl_deallocate os c p impl))"

definition Allocator_tryAlignedAllocate ::
    "os \<Rightarrow> caller \<Rightarrow> nat \<Rightarrow> nat \<Rightarrow> Allocator \<Rightarrow> (Error + addr, Allocator) outcome" where
  "Allocator_tryAlignedAllocate os c alignment n a = (case a of
       None \<Rightarrow> Returns (Inl OutOfMemory) a
     | Some impl \<Rightarrow> on_impl (AllocatorImpl_alignedAllocate os c alignment n impl))"

definition Allocator_allocationSize :: "addr \<Rightarrow> Allocator \<Rightarrow> (nat, Allocator) outcome" where
  "Allocator_allocationSize p a = (case a of
       None \<Rightarrow> Returns 0 a | Some impl \<Rightarrow> on_impl (AllocatorImpl_allocationSize p impl))"

definition Allocator_statistics :: "Allocator \<Rightarrow> (StatisticsSnapshot, Allocator) outcome" where
  "Allocator_statistics a = (case a of
       None \<Rightarrow> Returns StatisticsSnapshot_empty a | Some impl \<Rightarrow> on_impl (AllocatorImpl_statistics impl))"

definition Allocator_config :: "Allocator \<Rightarrow> AllocatorConfig" where
  "Allocator_config a = (case a of None \<Rightarrow> kFallbackConfig | Some impl \<Rightarrow> AllocatorImpl_config impl)"

definition Allocator_liveAllocationCount :: "Allocator \<Rightarrow> nat" where
  "Allocator_liveAllocationCount a = (case a of None \<Rightarrow> 0 | Some impl \<Rightarrow> liveAllocationCount impl)"

section \<open>Adapters\<close>

text \<open>
  A \<^verbatim>\<open>StlAllocator<T>\<close> is given by the size and the alignment of \<open>T\<close> and the allocator it points to.
  The adapters throw \<^verbatim>\<open>std::bad_alloc\<close>, the \<open>Inl\<close> of their result.
\<close>

datatype bad_alloc = Bad_alloc

definition or_throw :: "addr \<Rightarrow> bad_alloc + addr" where
  "or_throw p = (if p = 0 then Inl Bad_alloc else Inr p)"

definition StlAllocator_allocate ::
    "nat \<Rightarrow> nat \<Rightarrow> os \<Rightarrow> caller \<Rightarrow> nat \<Rightarrow> Allocator \<Rightarrow> (bad_alloc + addr, Allocator) outcome" where
  "StlAllocator_allocate sizeofT alignofT os c n a =
     (if (size_max - 1) div sizeofT < n then Returns (Inl Bad_alloc) a
      else let bytes = (n * sizeofT) mod size_max in
        and_then (if alignofT > 16 then Allocator_alignedAllocate os c alignofT bytes a else Allocator_allocate os c bytes a)
          (\<lambda>p a'. Returns (or_throw p) a'))"

definition StlAllocator_deallocate :: "os \<Rightarrow> caller \<Rightarrow> addr \<Rightarrow> Allocator \<Rightarrow> (unit, Allocator) outcome" where
  "StlAllocator_deallocate os c p a = Allocator_deallocate os c p a"

text \<open>Two STL allocators are equal when they point to the same allocator object.\<close>

definition StlAllocator_eq :: "addr \<Rightarrow> addr \<Rightarrow> bool" where
  "StlAllocator_eq underlying other \<longleftrightarrow> underlying = other"

definition do_allocate :: "os \<Rightarrow> caller \<Rightarrow> nat \<Rightarrow> nat \<Rightarrow> Allocator \<Rightarrow> (bad_alloc + addr, Allocator) outcome" where
  "do_allocate os c bytes alignment a =
     and_then (if alignment > 16 then Allocator_alignedAllocate os c alignment bytes a else Allocator_allocate os c bytes a)
       (\<lambda>p a'. Returns (or_throw p) a')"

definition do_deallocate :: "os \<Rightarrow> caller \<Rightarrow> addr \<Rightarrow> Allocator \<Rightarrow> (unit, Allocator) outcome" where
  "do_deallocate os c p a = Allocator_deallocate os c p a"

definition do_is_equal :: "addr \<Rightarrow> addr \<Rightarrow> bool" where
  "do_is_equal this other \<longleftrightarrow> this = other"

section \<open>Properties\<close>

text \<open>The facade in terms of what the implementation comes to.\<close>

lemma and_then_assoc: "and_then (and_then r f) g = and_then r (\<lambda>x s. and_then (f x s) g)"
  by (cases r) auto

text \<open>
  An allocator that was moved from refuses every request with the documented value and stays as
  it is, and the moved-to allocator carries the whole state on; destroying it does nothing.
\<close>

lemma moved_from_allocator_is_inert:
  "Allocator_move (Some impl) = (Some impl, None) \<and> Allocator_move_assign os None (Some impl) = (Some impl, None, None) \<and>
   Allocator_destroy os None = None \<and>
   Allocator_allocate os c n None = Returns 0 None \<and> Allocator_deallocate os c p None = Returns () None \<and>
   Allocator_reallocate os c c' p n None = Returns 0 None \<and>
   Allocator_alignedAllocate os c al n None = Returns 0 None \<and>
   Allocator_tryAllocate os c n None = Returns (Inl OutOfMemory) None \<and>
   Allocator_tryDeallocate os c p None = Returns (Inl InvalidPointer) None \<and>
   Allocator_tryAlignedAllocate os c al n None = Returns (Inl OutOfMemory) None \<and>
   Allocator_allocationSize p None = Returns 0 None \<and>
   Allocator_statistics None = Returns StatisticsSnapshot_empty None \<and>
   Allocator_config None = AllocatorConfig_release \<and> Allocator_liveAllocationCount None = 0"
  by (simp add: Allocator_move_def Allocator_move_assign_def Allocator_destroy_def Allocator_allocate_def Allocator_deallocate_def Allocator_reallocate_def
      Allocator_alignedAllocate_def Allocator_tryAllocate_def Allocator_tryDeallocate_def
      Allocator_tryAlignedAllocate_def Allocator_allocationSize_def Allocator_statistics_def
      Allocator_config_def Allocator_liveAllocationCount_def kFallbackConfig_def AllocatorConfig_release_def)

text \<open>
  \<open>StlAllocator::allocate\<close> never asks for a wrapped-around number of bytes.
\<close>

lemma stl_bytes:
  assumes "0 < sizeofT"
  shows "StlAllocator_allocate sizeofT alignofT os c n a =
    (if n * sizeofT < size_max
     then and_then (if alignofT > 16 then Allocator_alignedAllocate os c alignofT (n * sizeofT) a
                    else Allocator_allocate os c (n * sizeofT) a) (\<lambda>p a'. Returns (or_throw p) a')
     else Returns (Inl Bad_alloc) a)"
proof -
  have "(size_max - 1) div sizeofT < n \<longleftrightarrow> \<not> n * sizeofT < size_max"
    using assms div_less_iff_less_mult [of sizeofT "size_max - 1" n] by (auto simp: const_simps)
  then show ?thesis by (simp add: StlAllocator_allocate_def)
qed

end
