(* ===== verification/AdapterProperties.thy ===== *)
theory AdapterProperties
  imports AllocatorProperties Allocator
begin

text \<open>
  The adapters for containers, over an allocator in any reachable state: what they return is memory
  a container can use, and what they throw has changed nothing the container holds.
\<close>

text \<open>The call both adapters make.\<close>

definition adapter_call :: "os \<Rightarrow> caller \<Rightarrow> nat \<Rightarrow> nat \<Rightarrow> Allocator \<Rightarrow> (bad_alloc + addr, Allocator) outcome" where
  "adapter_call os c al bytes a =
     and_then (if al > 16 then Allocator_alignedAllocate os c al bytes a else Allocator_allocate os c bytes a)
       (\<lambda>p a'. Returns (or_throw p) a')"

text \<open>Memory, an exception, or, where errors abort, the end of the process.\<close>

definition delivers ::
    "(region set \<Rightarrow> AllocatorImpl \<Rightarrow> bool) \<Rightarrow> region set \<Rightarrow> AllocatorImpl \<Rightarrow> nat \<Rightarrow> nat \<Rightarrow> (bad_alloc + addr, Allocator) outcome \<Rightarrow> bool" where
  "delivers reach A s al n r \<longleftrightarrow>
     (\<exists>p s'. r = Returns (Inr p) (Some s') \<and> al dvd p \<and> granted s A p n s' \<and> reach (insert (p, n) A) s') \<or>
     (\<exists>s'. r = (if abortOnError (config s) then Aborts (Some s') else Returns (Inl Bad_alloc) (Some s')) \<and> keeps A s s')"

abbreviation "reach_in full os cfg tls0 M0 \<equiv> \<lambda>A s. impl_reach full os cfg tls0 M0 s A"

lemma delivers_grant:
  assumes "granted s A p n s'" "al dvd p" "reach (insert (p, n) A) s'"
  shows "delivers reach A s al n (and_then (and_then (on_impl (Returns (Inr p) s')) (\<lambda>r a'. Returns (value_or_null r) a'))
    (\<lambda>p a'. Returns (or_throw p) a'))"
  using assms by (simp add: delivers_def value_or_null_def or_throw_def granted_def)

lemma delivers_fail:
  assumes "fails s A e p r"
  shows "delivers reach A s al n (and_then (and_then (on_impl r) (\<lambda>r a'. Returns (value_or_null r) a'))
    (\<lambda>p a'. Returns (or_throw p) a'))"
  using assms by (auto simp: fails_def delivers_def value_or_null_def or_throw_def)

lemma adapter_call_delivers:
  assumes "fair_start os tls0 M0" "impl_reach full os cfg tls0 M0 s A" "full \<longrightarrow> liveRoom c" "isPowerOfTwo al"
  shows "delivers (reach_in full os cfg tls0 M0) A s al (asked bytes) (adapter_call os c al bytes (Some s))"
proof (cases "al > 16")
  case True
  have spec: "(\<exists>e. fails s A e 0 (AllocatorImpl_alignedAllocate os c al bytes s)) \<or>
      (\<exists>p s'. AllocatorImpl_alignedAllocate os c al bytes s = Returns (Inr p) s' \<and> al dvd p \<and> granted s A p (asked bytes) s' \<and>
        impl_reach full os cfg tls0 M0 s' (insert (p, asked bytes) A))"
    using alignedAllocate_spec [OF assms(1-3), of al bytes] by (auto split: if_splits)
  then show ?thesis using True delivers_grant delivers_fail by (auto simp: adapter_call_def Allocator_alignedAllocate_def)
next
  case False
  have "al dvd 16" using pow2_dvd_16 [OF assms(4)] False by simp
  have spec: "(\<exists>e. fails s A e 0 (AllocatorImpl_allocate os c bytes s)) \<or>
      (\<exists>p s'. AllocatorImpl_allocate os c bytes s = Returns (Inr p) s' \<and> granted s A p (asked bytes) s' \<and>
        impl_reach full os cfg tls0 M0 s' (insert (p, asked bytes) A))"
    using allocate_spec [OF assms(1-3), of bytes] by (auto split: if_splits)
  moreover have "al dvd p" if "granted s A p (asked bytes) s'" for p s'
    using that dvd_trans [OF \<open>al dvd 16\<close>] by (simp add: granted_def)
  ultimately show ?thesis using False delivers_grant delivers_fail by (auto simp: adapter_call_def Allocator_allocate_def)
qed

lemma pow2_64: "isPowerOfTwo 64" by code_simp
lemma pow2_8: "isPowerOfTwo 8" by code_simp

text \<open>
  A memory resource gives memory of the size and the alignment asked for, apart from all the
  container holds, or throws and leaves what it holds as it was.
\<close>

lemma memory_resource_delivers:
  assumes "fair_start os tls0 M0" "impl_reach full os cfg tls0 M0 s A" "full \<longrightarrow> liveRoom c" "isPowerOfTwo alignment"
  shows "delivers (reach_in full os cfg tls0 M0) A s alignment (asked bytes) (do_allocate os c bytes alignment (Some s))"
  using adapter_call_delivers [OF assms] by (simp add: do_allocate_def adapter_call_def)

text \<open>
  C20: an STL allocator gives aligned room for all \<open>n\<close> objects, or throws: when the room for them
  exceeds what a \<^verbatim>\<open>std::size_t\<close> can say, without asking.
\<close>

theorem stl_allocator_delivers:
  assumes "fair_start os tls0 M0" "impl_reach full os cfg tls0 M0 s A" "full \<longrightarrow> liveRoom c" "isPowerOfTwo alignofT" "0 < sizeofT"
  shows "if n * sizeofT < size_max
    then delivers (reach_in full os cfg tls0 M0) A s alignofT (asked (n * sizeofT)) (StlAllocator_allocate sizeofT alignofT os c n (Some s))
    else StlAllocator_allocate sizeofT alignofT os c n (Some s) = Returns (Inl Bad_alloc) (Some s)"
  using adapter_call_delivers [OF assms(1-4)] stl_bytes [OF assms(5)] by (simp add: adapter_call_def)

theorem stl_allocator_delivers_witness:
  "delivers (reach_in True linear_os AllocatorConfig_release Map.empty blank_machine) {} (new_impl AllocatorConfig_release) 8 240
     (StlAllocator_allocate 24 8 linear_os caller0 10 (Some (new_impl AllocatorConfig_release)))"
  using stl_allocator_delivers [OF fair_linear impl_reach.make [where full = True and cfg = AllocatorConfig_release], of caller0 8 24 10]
    pow2_8 by (simp add: asked_def const_simps)

end
