(* ===== verification/Adapters.thy ===== *)
theory Adapters
  imports AdapterProperties "HOL-Library.Multiset"
begin

text \<open>
  The adapters of the benchmarks, \<^verbatim>\<open>benchmarks/Adapters.hpp\<close> and \<^verbatim>\<open>benchmarks/Adapters.cpp\<close>: an abstract
  class and one implementation per allocator that is compared.  The locale \<open>lender\<close> is what a client of
  the class relies on, memory that is its own until it is given back, from an allocator that throws when
  it has none; \<open>adapter\<close> is the same for one that returns null.  The adapter of this library satisfies
  the latter.  The other allocators are not part of the library and are parameters.
\<close>

section \<open>The class and its implementations\<close>

text \<open>\<open>'c\<close> is what the calling thread brings to a call, \<open>'s\<close> the state behind the adapter.\<close>

record ('c, 's) AllocatorAdapter =
  adapter_name :: string
  adapter_allocate :: "'c \<Rightarrow> nat \<Rightarrow> 's \<Rightarrow> (addr, 's) outcome"
  adapter_deallocate :: "'c \<Rightarrow> addr \<Rightarrow> nat \<Rightarrow> 's \<Rightarrow> (unit, 's) outcome"
  threadSafe :: bool

definition SystemMallocAdapter ::
    "('c \<Rightarrow> nat \<Rightarrow> 's \<Rightarrow> (addr, 's) outcome) \<Rightarrow> ('c \<Rightarrow> addr \<Rightarrow> 's \<Rightarrow> (unit, 's) outcome) \<Rightarrow> ('c, 's) AllocatorAdapter" where
  "SystemMallocAdapter malloc free =
     \<lparr>adapter_name = ''std::malloc'', adapter_allocate = malloc, adapter_deallocate = (\<lambda>c p _. free c p), threadSafe = True\<rparr>"

definition MAllocAdapter :: "os \<Rightarrow> (caller, Allocator) AllocatorAdapter" where
  "MAllocAdapter os =
     \<lparr>adapter_name = ''m-alloc'', adapter_allocate = Allocator_allocate os,
      adapter_deallocate = (\<lambda>c p _. Allocator_deallocate os c p), threadSafe = True\<rparr>"

definition PmrPoolAdapter ::
    "('c \<Rightarrow> nat \<Rightarrow> 's \<Rightarrow> (addr, 's) outcome) \<Rightarrow> ('c \<Rightarrow> addr \<Rightarrow> nat \<Rightarrow> 's \<Rightarrow> (unit, 's) outcome) \<Rightarrow> ('c, 's) AllocatorAdapter" where
  "PmrPoolAdapter pool_allocate pool_deallocate =
     \<lparr>adapter_name = ''std::pmr::synchronized_pool_resource'', adapter_allocate = pool_allocate,
      adapter_deallocate = pool_deallocate, threadSafe = True\<rparr>"

definition MimallocAdapter ::
    "('c \<Rightarrow> nat \<Rightarrow> 's \<Rightarrow> (addr, 's) outcome) \<Rightarrow> ('c \<Rightarrow> addr \<Rightarrow> 's \<Rightarrow> (unit, 's) outcome) \<Rightarrow> ('c, 's) AllocatorAdapter" where
  "MimallocAdapter mi_malloc mi_free =
     \<lparr>adapter_name = ''mimalloc'', adapter_allocate = mi_malloc, adapter_deallocate = (\<lambda>c p _. mi_free c p), threadSafe = True\<rparr>"

definition JemallocAdapter ::
    "('c \<Rightarrow> nat \<Rightarrow> 's \<Rightarrow> (addr, 's) outcome) \<Rightarrow> ('c \<Rightarrow> addr \<Rightarrow> 's \<Rightarrow> (unit, 's) outcome) \<Rightarrow> ('c, 's) AllocatorAdapter" where
  "JemallocAdapter malloc free =
     \<lparr>adapter_name = ''jemalloc'', adapter_allocate = malloc, adapter_deallocate = (\<lambda>c p _. free c p), threadSafe = True\<rparr>"

text \<open>An allocator with something else beside its state, which its calls leave alone.\<close>

fun beside :: "'u \<Rightarrow> ('a, 's) outcome \<Rightarrow> ('a, 's \<times> 'u) outcome" where
  "beside u (Returns x s) = Returns x (s, u)"
| "beside u (Aborts s) = Aborts (s, u)"
| "beside u Undefined = Undefined"
| "beside u Diverges = Diverges"

text \<open>Any adapter, with the number of its allocations and of its releases beside its state.\<close>

definition counted :: "('c, 's) AllocatorAdapter \<Rightarrow> ('c, 's \<times> nat \<times> nat) AllocatorAdapter" where
  "counted ad = \<lparr>adapter_name = adapter_name ad,
     adapter_allocate = (\<lambda>c n (s, i, j). beside (i + 1, j) (adapter_allocate ad c n s)),
     adapter_deallocate = (\<lambda>c p n (s, i, j). beside (i, j + 1) (adapter_deallocate ad c p n s)), threadSafe = threadSafe ad\<rparr>"

text \<open>Which adapters a build has, in the order of the table.\<close>

datatype adapter_kind = SystemMalloc | PmrPool | MAlloc | Mimalloc | Jemalloc

definition makeAdapters :: "bool \<Rightarrow> bool \<Rightarrow> adapter_kind list" where
  "makeAdapters have_mimalloc have_jemalloc =
     [SystemMalloc, PmrPool, MAlloc] @ (if have_mimalloc then [Mimalloc] else []) @ (if have_jemalloc then [Jemalloc] else [])"

section \<open>What a client holds\<close>

text \<open>A client keeps what it was given in a list, null where the request failed.\<close>

definition owned :: "region list \<Rightarrow> region set" where
  "owned xs = {(p, n) \<in> set xs. p \<noteq> 0}"

definition granted_list :: "region list \<Rightarrow> region list" where
  "granted_list xs = filter (\<lambda>(p, n). p \<noteq> 0) xs"

text \<open>Releasing a list of blocks; \<open>cs k\<close> is the caller at its \<open>k\<close>-th operation.\<close>

fun release_all :: "('c, 's) AllocatorAdapter \<Rightarrow> (nat \<Rightarrow> 'c) \<Rightarrow> nat \<Rightarrow> region list \<Rightarrow> 's \<Rightarrow> (unit, 's) outcome" where
  "release_all ad cs k [] s = Returns () s"
| "release_all ad cs k ((p, n) # xs) s = and_then (adapter_deallocate ad (cs k) p n s) (\<lambda>_ s'. release_all ad cs (k + 1) xs s')"

lemma owned_simps [simp]:
  "owned [] = {}" "owned ((p, n) # xs) = (if p = 0 then owned xs else insert (p, n) (owned xs))"
  "owned (xs @ ys) = owned xs \<union> owned ys"
  by (auto simp: owned_def)

lemma set_granted_list: "set (granted_list xs) = owned xs"
  by (auto simp: granted_list_def owned_def)

section \<open>How a call may end\<close>

text \<open>The call returns a value as \<open>P\<close> says; or an exception ends the program, where that may happen.\<close>

definition ends :: "bool \<Rightarrow> ('a, 's) outcome \<Rightarrow> ('a \<Rightarrow> 's \<Rightarrow> bool) \<Rightarrow> bool" where
  "ends throws r P \<longleftrightarrow> (case r of Returns x s \<Rightarrow> P x s | Aborts s \<Rightarrow> throws | Undefined \<Rightarrow> False | Diverges \<Rightarrow> False)"

lemma ends_simps [simp]:
  "ends t (Returns x s) P \<longleftrightarrow> P x s" "ends t (Aborts s) P \<longleftrightarrow> t" "ends t Undefined P \<longleftrightarrow> False" "ends t Diverges P \<longleftrightarrow> False"
  by (simp_all add: ends_def)

lemma ends_False: "ends False r P \<longleftrightarrow> (\<exists>x s. r = Returns x s \<and> P x s)"
  by (cases r) auto

lemma ends_cases: "ends t r P \<longleftrightarrow> (\<exists>x s. r = Returns x s \<and> P x s) \<or> t \<and> (\<exists>s. r = Aborts s)"
  by (cases r) auto

lemma ends_and_then: "ends t r P \<Longrightarrow> (\<And>x s. P x s \<Longrightarrow> ends t (f x s) Q) \<Longrightarrow> ends t (and_then r f) Q"
  by (cases r) auto

lemma ends_mono: "ends t r P \<Longrightarrow> (\<And>x s. P x s \<Longrightarrow> Q x s) \<Longrightarrow> (t \<Longrightarrow> t') \<Longrightarrow> ends t' r Q"
  by (cases r) auto

section \<open>The contract\<close>

text \<open>
  \<open>inv s R\<close>: in state \<open>s\<close> the blocks \<open>R\<close> are handed out.  A request is answered with a new block; when there
  is none, with null by an allocator that \<open>nulls\<close> and with an exception by one that \<open>throws\<close>.  Every block
  can be given back, with its size, once, and so can a null to an allocator that may have handed it out.
\<close>

locale lender =
  fixes ad :: "('c, 's) AllocatorAdapter" and inv :: "'s \<Rightarrow> region set \<Rightarrow> bool" and throws nulls :: bool
  assumes allocates: "inv s R \<Longrightarrow> 0 < n \<Longrightarrow> ends throws (adapter_allocate ad c n s)
      (\<lambda>p s'. if p = 0 then nulls \<and> inv s' R else (p, n) \<notin> R \<and> inv s' (insert (p, n) R))"
    and releases: "inv s R \<Longrightarrow> (p, n) \<in> R \<Longrightarrow> \<exists>s'. adapter_deallocate ad c p n s = Returns () s' \<and> inv s' (R - {(p, n)})"
    and releases_null: "nulls \<Longrightarrow> inv s R \<Longrightarrow> \<exists>s'. adapter_deallocate ad c 0 n s = Returns () s' \<and> inv s' R"
begin

text \<open>The client holds \<open>xs\<close>, and \<open>A\<close> is held elsewhere.\<close>

definition holding :: "'s \<Rightarrow> region set \<Rightarrow> region list \<Rightarrow> bool" where
  "holding s A xs \<longleftrightarrow> inv s (A \<union> owned xs) \<and> distinct (granted_list xs) \<and> A \<inter> owned xs = {} \<and>
     (\<not> nulls \<longrightarrow> 0 \<notin> fst ` set xs)"

lemma holding_Nil: "holding s A [] \<longleftrightarrow> inv s A"
  by (simp add: holding_def granted_list_def)

lemma holding_perm: "mset xs = mset ys \<Longrightarrow> holding s A xs \<longleftrightarrow> holding s A ys"
proof -
  assume m: "mset xs = mset ys"
  have "mset (granted_list xs) = mset (granted_list ys)" using m by (simp add: granted_list_def)
  moreover have "set xs = set ys" using m by (simp add: set_mset_mset [symmetric] del: set_mset_mset)
  moreover have "owned xs = owned ys" using calculation(2) by (simp add: owned_def)
  ultimately show ?thesis unfolding holding_def by (metis mset_eq_imp_distinct_iff)
qed

lemma allocate_holding:
  assumes "holding s A xs" "0 < n"
  shows "ends throws (adapter_allocate ad c n s) (\<lambda>p s'. holding s' A (xs @ [(p, n)]))"
proof -
  have "inv s (A \<union> owned xs)" using assms(1) by (simp add: holding_def)
  from allocates [OF this assms(2), of c] show ?thesis
  proof (rule ends_mono)
    fix p s' assume p: "if p = 0 then nulls \<and> inv s' (A \<union> owned xs) else (p, n) \<notin> A \<union> owned xs \<and> inv s' (insert (p, n) (A \<union> owned xs))"
    show "holding s' A (xs @ [(p, n)])"
    proof (cases "p = 0")
      case True
      then show ?thesis using assms(1) p unfolding holding_def by (simp add: granted_list_def)
    next
      case False
      then have "(p, n) \<notin> set (granted_list xs)" using p by (simp add: set_granted_list)
      then show ?thesis using False assms(1) p by (auto simp: holding_def granted_list_def insert_commute)
    qed
  qed
qed

lemma release_holding:
  assumes "holding s A ((p, n) # xs)"
  obtains s' where "adapter_deallocate ad c p n s = Returns () s'" "holding s' A xs"
proof (cases "p = 0")
  case True
  then have n: "nulls" "inv s (A \<union> owned xs)" using assms unfolding holding_def by auto
  from releases_null [OF this, of c n] obtain s' where "adapter_deallocate ad c 0 n s = Returns () s'" "inv s' (A \<union> owned xs)" by blast
  moreover from this(2) have "holding s' A xs" using assms True unfolding holding_def by (simp add: granted_list_def)
  ultimately show thesis using that True by blast
next
  case False
  then have h: "inv s (A \<union> owned ((p, n) # xs))" "(p, n) \<in> A \<union> owned ((p, n) # xs)" "(p, n) \<notin> A \<union> owned xs"
    using assms set_granted_list [of xs] by (auto simp: holding_def granted_list_def)
  then have "A \<union> owned ((p, n) # xs) - {(p, n)} = A \<union> owned xs" using False by auto
  then obtain s' where "adapter_deallocate ad c p n s = Returns () s'" "inv s' (A \<union> owned xs)"
    using releases [OF h(1,2), of c] by auto
  then show thesis using that False assms by (auto simp: holding_def granted_list_def)
qed

lemma release_all_holding:
  assumes "holding s A (xs @ ys)"
  shows "\<exists>s'. release_all ad cs k xs s = Returns () s' \<and> holding s' A ys"
  using assms
proof (induction xs arbitrary: s k)
  case (Cons x xs)
  obtain p n where x: "x = (p, n)" by fastforce
  obtain s1 where s1: "adapter_deallocate ad (cs k) p n s = Returns () s1" "holding s1 A (xs @ ys)"
    using release_holding [of s A p n "xs @ ys" "cs k"] Cons.prems x by auto
  show ?case using Cons.IH [OF s1(2), of "k + 1"] s1(1) x by simp
qed simp

end

text \<open>An allocator that answers null and does not throw.\<close>

locale adapter = lender ad inv False True
  for ad :: "('c, 's) AllocatorAdapter" and inv :: "'s \<Rightarrow> region set \<Rightarrow> bool"
begin

lemma allocate_returns:
  assumes "holding s A xs" "0 < n"
  obtains p s' where "adapter_allocate ad c n s = Returns p s'" "holding s' A (xs @ [(p, n)])"
  using allocate_holding [OF assms, of c] by (auto simp: ends_False)

end

text \<open>Beside anything else an allocator keeps its contract; so does one whose calls are counted.\<close>

lemma ends_beside: "ends t (beside u r) P \<longleftrightarrow> ends t r (\<lambda>x s. P x (s, u))"
  by (cases r) auto

lemma beside_Returns: "beside u r = Returns x su \<longleftrightarrow> (\<exists>s. r = Returns x s \<and> su = (s, u))"
  by (cases r) auto

lemma counted_lender:
  fixes ad :: "('c, 's) AllocatorAdapter"
  assumes "lender ad I throws nulls"
  shows "lender (counted ad) (\<lambda>su. I (fst su)) throws nulls"
proof
  note ad = lender.allocates [OF assms] lender.releases [OF assms] lender.releases_null [OF assms]
  fix su :: "'s \<times> nat \<times> nat" and R n c p
  obtain s i j where su: "su = (s, i, j)" by (cases su)
  show "ends throws (adapter_allocate (counted ad) c n su)
      (\<lambda>p su'. if p = 0 then nulls \<and> I (fst su') R else (p, n) \<notin> R \<and> I (fst su') (insert (p, n) R))"
    if "I (fst su) R" "0 < n" unfolding su counted_def AllocatorAdapter.simps prod.case ends_beside fst_conv
    by (rule ad(1)) (use that su in auto)
  show "\<exists>su'. adapter_deallocate (counted ad) c p n su = Returns () su' \<and> I (fst su') (R - {(p, n)})"
    if "I (fst su) R" "(p, n) \<in> R" using ad(2) [of s R p n c] that by (auto simp: su counted_def)
  show "\<exists>su'. adapter_deallocate (counted ad) c 0 n su = Returns () su' \<and> I (fst su') R"
    if nulls "I (fst su) R" using ad(3) [of s R c n] that by (auto simp: su counted_def)
qed

section \<open>Counting\<close>

text \<open>What holds whenever a call returns.\<close>

definition whenever :: "('a, 's) outcome \<Rightarrow> ('a \<Rightarrow> 's \<Rightarrow> bool) \<Rightarrow> bool" where
  "whenever r P \<longleftrightarrow> (\<forall>x s. r = Returns x s \<longrightarrow> P x s)"

lemma whenever_simps [simp]:
  "whenever (Returns x s) P \<longleftrightarrow> P x s" "whenever (Aborts s) P" "whenever Undefined P" "whenever Diverges P"
  by (simp_all add: whenever_def)

lemma whenever_and_then: "whenever r P \<Longrightarrow> (\<And>x s. P x s \<Longrightarrow> whenever (f x s) Q) \<Longrightarrow> whenever (and_then r f) Q"
  by (cases r) auto

lemma whenever_mono: "whenever r P \<Longrightarrow> (\<And>x s. P x s \<Longrightarrow> Q x s) \<Longrightarrow> whenever r Q"
  by (auto simp: whenever_def)

lemma counts_one:
  "whenever (adapter_allocate (counted ad) c n (s, i, j)) (\<lambda>_ su. snd su = (i + 1, j))"
  "whenever (adapter_deallocate (counted ad) c p n (s, i, j)) (\<lambda>_ su. snd su = (i, j + 1))"
  by (auto simp: counted_def whenever_def beside_Returns)

lemma counts_releases:
  fixes s :: 's
  shows "whenever (release_all (counted ad) cs k xs (s, i, j)) (\<lambda>_ su. snd su = (i, j + length xs))"
proof (induction xs arbitrary: k s j)
  case (Cons x xs)
  obtain p n where x: "x = (p, n)" by fastforce
  show ?case unfolding x release_all.simps
  proof (rule whenever_and_then [OF counts_one(2)])
    fix y and su :: "'s \<times> nat \<times> nat" assume "snd su = (i, j + 1)"
    then show "whenever (release_all (counted ad) cs (k + 1) xs su) (\<lambda>_ su. snd su = (i, j + length ((p, n) # xs)))"
      using Cons.IH [of "k + 1" "fst su" "j + 1"] by (metis add_Suc_right add_Suc_shift length_Cons prod.collapse Suc_eq_plus1)
  qed
qed simp

text \<open>Counting changes nothing else.\<close>

fun forget :: "('a, 's \<times> 'u) outcome \<Rightarrow> ('a, 's) outcome" where
  "forget (Returns x su) = Returns x (fst su)"
| "forget (Aborts su) = Aborts (fst su)"
| "forget Undefined = Undefined"
| "forget Diverges = Diverges"

lemma forget_beside [simp]: "forget (beside u r) = r"
  by (cases r) auto

lemma forget_and_then:
  assumes "forget r = r'" "\<And>x su. forget (f x su) = g x (fst su)"
  shows "forget (and_then r f) = and_then r' g"
  using assms by (cases r) auto

lemma forget_counted [simp]:
  "forget (adapter_allocate (counted ad) c n su) = adapter_allocate ad c n (fst su)"
  "forget (adapter_deallocate (counted ad) c p n su) = adapter_deallocate ad c p n (fst su)"
  "threadSafe (counted ad) = threadSafe ad"
  by (cases su; simp add: counted_def)+

lemma forget_releases: "forget (release_all (counted ad) cs k xs su) = release_all ad cs k xs (fst su)"
proof (induction xs arbitrary: k su)
  case (Cons x xs)
  then show ?case by (cases x) (auto intro!: forget_and_then)
qed simp

section \<open>This library behind the adapter\<close>

text \<open>
  A default allocator some program has brought to any state it can reach, together with what was
  assumed at its start.
\<close>

definition malloc_state :: "os \<Rightarrow> tls \<Rightarrow> machine \<Rightarrow> Allocator \<Rightarrow> region set \<Rightarrow> bool" where
  "malloc_state os tls0 M0 a R \<longleftrightarrow> fair_start os tls0 M0 \<and>
     (\<exists>impl. a = Some impl \<and> impl_reach False os AllocatorConfig_default tls0 M0 impl R)"

lemma default_config [simp]: "\<not> enableLeakTracking AllocatorConfig_default" "\<not> abortOnError AllocatorConfig_default"
  by (simp_all add: AllocatorConfig_default_def)

lemma malloc_allocates:
  assumes "malloc_state os tls0 M0 a R" "0 < n"
  shows "\<exists>p a'. Allocator_allocate os c n a = Returns p a' \<and>
    (if p = 0 then malloc_state os tls0 M0 a' R else (p, n) \<notin> R \<and> malloc_state os tls0 M0 a' (insert (p, n) R))"
proof -
  obtain s where s: "fair_start os tls0 M0" "a = Some s" "impl_reach False os AllocatorConfig_default tls0 M0 s R"
    using assms(1) by (auto simp: malloc_state_def)
  have n: "asked n = n" using assms(2) by (simp add: asked_def)
  have cfg: "config s = AllocatorConfig_default" using reach_holds [OF s(1,3)] by blast
  have sure: "(\<exists>p s'. AllocatorImpl_allocate os c n s = Returns (Inr p) s' \<and> granted s R p n s' \<and>
      impl_reach False os AllocatorConfig_default tls0 M0 s' (insert (p, n) R)) \<or>
    (\<exists>e s'. AllocatorImpl_allocate os c n s = Returns (Inl e) s')"
    using allocate_spec [OF s(1,3), of c n] cfg n by (auto simp: fails_def split: if_splits)
  then show ?thesis
  proof (elim disjE exE conjE)
    fix p s' assume g: "AllocatorImpl_allocate os c n s = Returns (Inr p) s'" "granted s R p n s'"
      "impl_reach False os AllocatorConfig_default tls0 M0 s' (insert (p, n) R)"
    have "(p, n) \<notin> R"
    proof
      assume "(p, n) \<in> R"
      then have "apart (p, n) (p, n)" using g(2) by (auto simp: granted_def)
      then show False using assms(2) by simp
    qed
    then show ?thesis using g s by (auto simp: Allocator_allocate_def value_or_null_def malloc_state_def granted_def)
  next
    fix e s' assume e: "AllocatorImpl_allocate os c n s = Returns (Inl e) s'"
    then show ?thesis using impl_reach.not_allocated [OF s(3) _ e] s by (auto simp: Allocator_allocate_def value_or_null_def malloc_state_def)
  qed
qed

lemma malloc_releases:
  assumes "malloc_state os tls0 M0 a R" "(p, n) \<in> R"
  shows "\<exists>a'. Allocator_deallocate os c p a = Returns () a' \<and> malloc_state os tls0 M0 a' (R - {(p, n)})"
proof -
  obtain s where s: "fair_start os tls0 M0" "a = Some s" "impl_reach False os AllocatorConfig_default tls0 M0 s R"
    using assms(1) by (auto simp: malloc_state_def)
  show ?thesis using release_live [OF s(1,3) assms(2), of c] s by (auto simp: Allocator_deallocate_def malloc_state_def)
qed

interpretation malloc: adapter "MAllocAdapter os" "malloc_state os tls0 M0" for os tls0 M0
proof
  fix s R n p c
  show "ends False (adapter_allocate (MAllocAdapter os) c n s)
      (\<lambda>p s'. if p = 0 then True \<and> malloc_state os tls0 M0 s' R else (p, n) \<notin> R \<and> malloc_state os tls0 M0 s' (insert (p, n) R))"
    if "malloc_state os tls0 M0 s R" "0 < n"
    unfolding MAllocAdapter_def AllocatorAdapter.simps ends_False simp_thms by (rule malloc_allocates [OF that])
  show "\<exists>s'. adapter_deallocate (MAllocAdapter os) c p n s = Returns () s' \<and> malloc_state os tls0 M0 s' (R - {(p, n)})"
    if "malloc_state os tls0 M0 s R" "(p, n) \<in> R"
    using malloc_releases [OF that] by (simp add: MAllocAdapter_def)
  show "\<exists>s'. adapter_deallocate (MAllocAdapter os) c 0 n s = Returns () s' \<and> malloc_state os tls0 M0 s' R"
    if True "malloc_state os tls0 M0 s R"
    using that by (auto simp: MAllocAdapter_def Allocator_deallocate_def AllocatorImpl_deallocate_def malloc_state_def)
qed

end
