(* ===== verification/Runner.thy ===== *)
theory Runner
  imports Adapters
begin

text \<open>
  The benchmark runner, \<^verbatim>\<open>benchmarks/Runner.hpp\<close> and \<^verbatim>\<open>benchmarks/Runner.cpp\<close>: three loops over an adapter,
  the last in several threads at once.  Clock readings, the sizes drawn and the order in which the
  threads are scheduled are parameters.  The workers move one call at a time; a schedule is the list
  of the threads in the order of their turns, and \<^verbatim>\<open>join\<close> waits forever for a worker that never
  finishes.  An exception, from an adapter that throws or from a vector or a thread the standard library
  cannot make, is not caught and ends the program.
\<close>

section \<open>The code\<close>

text \<open>Quotients of doubles, without their rounding but with what a division by zero gives.\<close>

datatype double = Finite real | Infinity bool | NaN

definition double_div :: "real \<Rightarrow> real \<Rightarrow> double" where
  "double_div x y = (if y \<noteq> 0 then Finite (x / y) else if x = 0 then NaN else Infinity (x < 0))"

fun per_million :: "double \<Rightarrow> double" where
  "per_million (Finite x) = Finite (x / 10 ^ 6)"
| "per_million d = d"

record BenchmarkResult =
  allocateNanosPerOp :: double
  deallocateNanosPerOp :: double
  throughputMopsPerSec :: double
  multiThreadMopsPerSec :: double
  peakRssBytes :: nat

definition BenchmarkResult_init :: BenchmarkResult where
  "BenchmarkResult_init = \<lparr>allocateNanosPerOp = Finite 0, deallocateNanosPerOp = Finite 0, throughputMopsPerSec = Finite 0,
     multiThreadMopsPerSec = Finite 0, peakRssBytes = 0\<rparr>"

text \<open>The readings of the clock are in nanoseconds.\<close>

definition nanosSince :: "real \<Rightarrow> real \<Rightarrow> nat \<Rightarrow> double" where
  "nanosSince start now operations = double_div (now - start) (real operations)"

definition mopsPerSec :: "real \<Rightarrow> real \<Rightarrow> nat \<Rightarrow> double" where
  "mopsPerSec start now operations = per_million (double_div (real operations) ((now - start) / 10 ^ 9))"

text \<open>
  What a run asks of the standard library for itself: the array of \<open>pointers\<close>, which throws
  \<^verbatim>\<open>std::length_error\<close> when it would be longer than a vector can be, the list of \<open>live\<close> blocks, the
  threads, and the lists of the workers.  \<open>room\<close> says which of them it gets.
\<close>

datatype runner_storage = Pointers | LiveList | Threads | WorkerLists

subsection \<open>Latency\<close>

fun latency_fill :: "('c, 's) AllocatorAdapter \<Rightarrow> (nat \<Rightarrow> 'c) \<Rightarrow> nat \<Rightarrow> nat \<Rightarrow> addr list \<Rightarrow> 's \<Rightarrow> (addr list, 's) outcome" where
  "latency_fill ad cs i 0 pointers s = Returns pointers s"
| "latency_fill ad cs i (Suc left) pointers s =
     and_then (adapter_allocate ad (cs i) 64 s) (\<lambda>p s'. latency_fill ad cs (i + 1) left (pointers[i := p]) s')"

fun latency_drain :: "('c, 's) AllocatorAdapter \<Rightarrow> (nat \<Rightarrow> 'c) \<Rightarrow> nat \<Rightarrow> addr list \<Rightarrow> 's \<Rightarrow> (unit, 's) outcome" where
  "latency_drain ad cs k [] s = Returns () s"
| "latency_drain ad cs k (p # ps) s = and_then (adapter_deallocate ad (cs k) p 64 s) (\<lambda>_ s'. latency_drain ad cs (k + 1) ps s')"

definition measureLatency ::
    "(runner_storage \<Rightarrow> bool) \<Rightarrow> ('c, 's) AllocatorAdapter \<Rightarrow> (nat \<Rightarrow> 'c) \<Rightarrow> (nat \<Rightarrow> real) \<Rightarrow> nat \<Rightarrow> BenchmarkResult \<Rightarrow> 's \<Rightarrow> (BenchmarkResult, 's) outcome" where
  "measureLatency room ad cs clock iterations result s =
     (if \<not> room Pointers then Aborts s else
      and_then (latency_fill ad cs 0 iterations (replicate iterations 0) s) (\<lambda>pointers s1.
       let result1 = result\<lparr>allocateNanosPerOp := nanosSince (clock 0) (clock 1) iterations\<rparr> in
       and_then (latency_drain ad cs iterations pointers s1) (\<lambda>_ s2.
         Returns (result1\<lparr>deallocateNanosPerOp := nanosSince (clock 2) (clock 3) iterations\<rparr>) s2)))"

subsection \<open>Throughput\<close>

text \<open>
  The loop with its counter of operations; \<open>draw i\<close> is the \<open>i\<close>-th size.  The list of live blocks is
  released when it is full and after the loop.  The counter does not wrap: the array of pointers, made
  before, keeps the iterations below 2^60.
\<close>

fun throughput_loop ::
    "('c, 's) AllocatorAdapter \<Rightarrow> (nat \<Rightarrow> 'c) \<Rightarrow> (nat \<Rightarrow> nat) \<Rightarrow> nat \<Rightarrow> nat \<Rightarrow> nat \<Rightarrow> region list \<Rightarrow> nat \<Rightarrow> 's \<Rightarrow> (nat, 's) outcome" where
  "throughput_loop ad cs draw limit i 0 lv operations s =
     and_then (release_all ad cs operations lv s) (\<lambda>_ s'. Returns (operations + length lv) s')"
| "throughput_loop ad cs draw limit i (Suc left) lv operations s =
     and_then (adapter_allocate ad (cs operations) (draw i) s) (\<lambda>p s1.
       let lv1 = lv @ [(p, draw i)]; operations1 = operations + 1 in
       if limit \<le> length lv1 then
         and_then (release_all ad cs operations1 lv1 s1) (\<lambda>_ s2.
           throughput_loop ad cs draw limit (i + 1) left [] (operations1 + length lv1) s2)
       else throughput_loop ad cs draw limit (i + 1) left lv1 operations1 s1)"

definition measureThroughput ::
    "(runner_storage \<Rightarrow> bool) \<Rightarrow> ('c, 's) AllocatorAdapter \<Rightarrow> (nat \<Rightarrow> 'c) \<Rightarrow> (nat \<Rightarrow> real) \<Rightarrow> (nat \<Rightarrow> nat \<Rightarrow> nat \<Rightarrow> nat \<Rightarrow> nat) \<Rightarrow> nat \<Rightarrow> BenchmarkResult \<Rightarrow> 's \<Rightarrow>
      (BenchmarkResult, 's) outcome" where
  "measureThroughput room ad cs clock sizeDist iterations result s =
     (if \<not> room LiveList then Aborts s else
      and_then (throughput_loop ad cs (sizeDist 1234 16 8192) 1024 0 iterations [] 0 s) (\<lambda>operations s'.
        Returns (result\<lparr>throughputMopsPerSec := mopsPerSec (clock 4) (clock 5) operations\<rparr>) s'))"

subsection \<open>Many threads\<close>

text \<open>
  A worker: what is left of its loop, its live blocks, those it is just releasing, and how many calls
  it has made.  One turn is one call to the adapter.
\<close>

record worker =
  w_left :: nat
  w_next :: nat
  w_live :: "region list"
  w_todo :: "region list"
  w_calls :: nat

definition worker_start :: "nat \<Rightarrow> worker" where
  "worker_start perThread = \<lparr>w_left = perThread, w_next = 0, w_live = [], w_todo = [], w_calls = 0\<rparr>"

definition worker_done :: "worker \<Rightarrow> bool" where
  "worker_done w \<longleftrightarrow> w_left w = 0 \<and> w_live w = [] \<and> w_todo w = []"

definition worker_turn ::
    "('c, 's) AllocatorAdapter \<Rightarrow> (nat \<Rightarrow> 'c) \<Rightarrow> (nat \<Rightarrow> nat) \<Rightarrow> worker \<Rightarrow> 's \<Rightarrow> (worker, 's) outcome" where
  "worker_turn ad cs draw w s =
     (case w_todo w of
        (p, n) # xs \<Rightarrow> and_then (adapter_deallocate ad (cs (w_calls w)) p n s) (\<lambda>_ s'.
          Returns (w\<lparr>w_todo := xs, w_calls := w_calls w + 1\<rparr>) s')
      | [] \<Rightarrow>
        if w_left w = 0 then
          case w_live w of
            [] \<Rightarrow> Returns w s
          | (p, n) # xs \<Rightarrow> and_then (adapter_deallocate ad (cs (w_calls w)) p n s) (\<lambda>_ s'.
              Returns (w\<lparr>w_live := [], w_todo := xs, w_calls := w_calls w + 1\<rparr>) s')
        else and_then (adapter_allocate ad (cs (w_calls w)) (draw (w_next w)) s) (\<lambda>p s'.
          let lv = w_live w @ [(p, draw (w_next w))];
              w' = w\<lparr>w_left := w_left w - 1, w_next := w_next w + 1, w_calls := w_calls w + 1\<rparr>
          in Returns (if 256 \<le> length lv then w'\<lparr>w_live := [], w_todo := lv\<rparr> else w'\<lparr>w_live := lv\<rparr>) s'))"

fun run_workers ::
    "('c, 's) AllocatorAdapter \<Rightarrow> (nat \<Rightarrow> nat \<Rightarrow> 'c) \<Rightarrow> (nat \<Rightarrow> nat \<Rightarrow> nat) \<Rightarrow> nat list \<Rightarrow> worker list \<Rightarrow> 's \<Rightarrow> (worker list, 's) outcome" where
  "run_workers ad cs draw [] ws s = Returns ws s"
| "run_workers ad cs draw (t # schedule) ws s =
     (if t < length ws
      then and_then (worker_turn ad (cs t) (draw t) (ws ! t) s) (\<lambda>w s'. run_workers ad cs draw schedule (ws[t := w]) s')
      else run_workers ad cs draw schedule ws s)"

definition threadCount_for :: "nat \<Rightarrow> nat" where
  "threadCount_for hardware_concurrency = max 2 (hardware_concurrency div 2)"

definition measureMultiThreaded ::
    "(runner_storage \<Rightarrow> bool) \<Rightarrow> ('c, 's) AllocatorAdapter \<Rightarrow> (nat \<Rightarrow> nat \<Rightarrow> 'c) \<Rightarrow> (nat \<Rightarrow> real) \<Rightarrow> (nat \<Rightarrow> nat \<Rightarrow> nat \<Rightarrow> nat \<Rightarrow> nat) \<Rightarrow> nat \<Rightarrow> nat list \<Rightarrow> nat \<Rightarrow>
      BenchmarkResult \<Rightarrow> 's \<Rightarrow> (BenchmarkResult, 's) outcome" where
  "measureMultiThreaded room ad cs clock sizeDist hardware_concurrency schedule iterations result s =
     (if \<not> threadSafe ad then Returns result s
      else if \<not> room Threads \<or> \<not> room WorkerLists then Aborts s
      else
        let threadCount = threadCount_for hardware_concurrency; perThread = iterations div threadCount in
        and_then (run_workers ad cs (\<lambda>t. sizeDist (t + 99) 16 2048) schedule (replicate threadCount (worker_start perThread)) s)
          (\<lambda>ws s'. if list_all worker_done ws
            then Returns (result\<lparr>multiThreadMopsPerSec := mopsPerSec (clock 6) (clock 7) (perThread * threadCount * 2)\<rparr>) s'
            else Diverges))"

text \<open>The answer of \<^verbatim>\<open>getrusage\<close>, if it gives one, is in kilobytes.\<close>

definition currentRss :: "nat option \<Rightarrow> nat" where
  "currentRss ru_maxrss = (case ru_maxrss of None \<Rightarrow> 0 | Some kb \<Rightarrow> kb * 1024 mod size_max)"

text \<open>Under Windows the answer of \<^verbatim>\<open>GetProcessMemoryInfo\<close>, in bytes.\<close>

definition currentRss_windows :: "nat option \<Rightarrow> nat" where
  "currentRss_windows peakWorkingSetSize = (case peakWorkingSetSize of None \<Rightarrow> 0 | Some bytes \<Rightarrow> bytes)"

subsection \<open>The command line\<close>

text \<open>
  \<^verbatim>\<open>strtoull\<close> in base ten: white space, a sign, digits; a value out of range gives the largest one, and a
  minus sign negates modulo the width.
\<close>

definition c_isspace :: "char \<Rightarrow> bool" where
  "c_isspace c \<longleftrightarrow> c = CHR '' '' \<or> 9 \<le> (of_char c :: nat) \<and> (of_char c :: nat) \<le> 13"

definition c_isdigit :: "char \<Rightarrow> bool" where
  "c_isdigit c \<longleftrightarrow> 48 \<le> (of_char c :: nat) \<and> (of_char c :: nat) \<le> 57"

definition decimal :: "string \<Rightarrow> nat" where
  "decimal s = foldl (\<lambda>v c. v * 10 + (of_char c - 48)) 0 (takeWhile c_isdigit s)"

definition strtoull :: "string \<Rightarrow> nat" where
  "strtoull s =
     (let t = dropWhile c_isspace s;
          neg = (t \<noteq> [] \<and> hd t = CHR ''-'');
          v = decimal (if t \<noteq> [] \<and> hd t \<in> {CHR ''-'', CHR ''+''} then tl t else t)
      in if size_max \<le> v then size_max - 1 else if neg then (size_max - v) mod size_max else v)"

text \<open>The number of iterations, if the program does not stop with its usage message.\<close>

definition main_iterations :: "string list \<Rightarrow> nat option" where
  "main_iterations argv =
     (if 1 < length argv
      then let iterations = strtoull (argv ! 1) in if iterations = 0 then None else Some iterations
      else Some 500000)"

subsection \<open>All of it\<close>

definition Runner_run ::
    "(runner_storage \<Rightarrow> bool) \<Rightarrow> ('c, 's) AllocatorAdapter \<Rightarrow> (nat \<Rightarrow> 'c) \<Rightarrow> (nat \<Rightarrow> 'c) \<Rightarrow> (nat \<Rightarrow> nat \<Rightarrow> 'c) \<Rightarrow> (nat \<Rightarrow> real) \<Rightarrow> (nat \<Rightarrow> nat \<Rightarrow> nat \<Rightarrow> nat \<Rightarrow> nat) \<Rightarrow>
      nat \<Rightarrow> nat list \<Rightarrow> nat option \<Rightarrow> nat \<Rightarrow> 's \<Rightarrow> (BenchmarkResult, 's) outcome" where
  "Runner_run room ad cs1 cs2 cs3 clock sizeDist hardware_concurrency schedule ru_maxrss iterations s =
     and_then (measureLatency room ad cs1 clock iterations BenchmarkResult_init s) (\<lambda>r1 s1.
       and_then (measureThroughput room ad cs2 clock sizeDist iterations r1 s1) (\<lambda>r2 s2.
         and_then (measureMultiThreaded room ad cs3 clock sizeDist hardware_concurrency schedule iterations r2 s2) (\<lambda>r3 s3.
           Returns (r3\<lparr>peakRssBytes := currentRss ru_maxrss\<rparr>) s3)))"

section \<open>The command line gives a number of iterations\<close>

text \<open>The runner divides by the number of iterations: it is never zero, and fits its type.\<close>

lemma main_iterations_positive: "main_iterations argv = Some n \<Longrightarrow> 0 < n \<and> n < size_max"
  by (auto simp: main_iterations_def strtoull_def Let_def const_simps split: if_splits)

lemma main_iterations_digits:
  assumes "\<forall>c \<in> set s. c_isdigit c" "s \<noteq> []" "decimal s < size_max"
  shows "main_iterations [prog, s] = (if decimal s = 0 then None else Some (decimal s))"
proof -
  obtain c cs where s: "s = c # cs" "c_isdigit c" using assms(1,2) by (cases s) auto
  then have "\<not> c_isspace c" "c \<notin> {CHR ''-'', CHR ''+''}" by (auto simp: c_isspace_def c_isdigit_def)
  then have "strtoull s = decimal s" using s(1) assms(3) by (auto simp: strtoull_def Let_def)
  then show ?thesis by (simp add: main_iterations_def)
qed

section \<open>The loops over a client's contract\<close>

text \<open>What a worker holds and how many calls it still has to make.\<close>

definition w_holds :: "worker \<Rightarrow> region list" where
  "w_holds w = w_todo w @ w_live w"

definition w_rest :: "worker \<Rightarrow> nat" where
  "w_rest w = 2 * w_left w + length (w_live w) + length (w_todo w)"

lemma w_rest_done: "w_rest w = 0 \<longleftrightarrow> worker_done w"
  by (auto simp: w_rest_def worker_done_def)

lemma latency_drain_all: "latency_drain ad cs k ps s = release_all ad cs k (map (\<lambda>p. (p, 64)) ps) s"
proof (induction ps arbitrary: k s)
  case (Cons p ps)
  show ?case by (cases "adapter_deallocate ad (cs k) p 64 s") (simp_all add: Cons.IH)
qed simp

lemma take_upd_last: "i < length xs \<Longrightarrow> take (Suc i) (xs[i := x]) = take i xs @ [x]"
  by (simp add: take_Suc_conv_app_nth)

context lender
begin

lemma latency_fill_holding:
  assumes "holding s A (map (\<lambda>p. (p, 64)) (take i pointers))" "length pointers = i + left"
  shows "ends throws (latency_fill ad cs i left pointers s) (\<lambda>ps s'. holding s' A (map (\<lambda>p. (p, 64)) ps))"
  using assms
proof (induction left arbitrary: i pointers s)
  case (Suc left)
  show ?case unfolding latency_fill.simps
  proof (rule ends_and_then [OF allocate_holding [OF Suc.prems(1)]])
    fix p s1 assume "holding s1 A (map (\<lambda>p. (p, 64)) (take i pointers) @ [(p, 64)])"
    then have "holding s1 A (map (\<lambda>p. (p, 64)) (take (i + 1) (pointers[i := p])))"
      using Suc.prems(2) by (simp add: take_upd_last)
    from Suc.IH [OF this] Suc.prems(2)
    show "ends throws (latency_fill ad cs (i + 1) left (pointers[i := p]) s1) (\<lambda>ps s'. holding s' A (map (\<lambda>p. (p, 64)) ps))" by simp
  qed simp
qed auto

lemma measureLatency_holding:
  assumes "inv s A"
  shows "ends (throws \<or> \<not> room Pointers) (measureLatency room ad cs clock iterations result s) (\<lambda>r s'. inv s' A \<and>
      r = result\<lparr>allocateNanosPerOp := nanosSince (clock 0) (clock 1) iterations,
        deallocateNanosPerOp := nanosSince (clock 2) (clock 3) iterations\<rparr>)"
proof -
  have "holding s A (map (\<lambda>p. (p, 64)) (take 0 (replicate iterations 0)))" using assms by (simp add: holding_Nil)
  from latency_fill_holding [OF this, of iterations cs]
  have fill: "ends throws (latency_fill ad cs 0 iterations (replicate iterations 0) s) (\<lambda>ps s'. holding s' A (map (\<lambda>p. (p, 64)) ps))" by simp
  have "\<exists>s2. latency_drain ad cs iterations ps s1 = Returns () s2 \<and> inv s2 A" if "holding s1 A (map (\<lambda>p. (p, 64)) ps)" for ps s1
    using release_all_holding [of s1 A "map (\<lambda>p. (p, 64)) ps" "[]"] that by (auto simp: latency_drain_all holding_Nil)
  then have "ends throws (measureLatency room ad cs clock iterations result s) (\<lambda>r s'. inv s' A \<and>
      r = result\<lparr>allocateNanosPerOp := nanosSince (clock 0) (clock 1) iterations,
        deallocateNanosPerOp := nanosSince (clock 2) (clock 3) iterations\<rparr>)" if "room Pointers"
    unfolding measureLatency_def using that by (fastforce simp: Let_def intro: ends_and_then [OF fill])
  then show ?thesis by (cases "room Pointers") (auto simp: measureLatency_def elim: ends_mono)
qed

lemma throughput_loop_holding:
  assumes "holding s A lv" "\<And>i. 0 < draw i"
  shows "ends throws (throughput_loop ad cs draw limit i left lv operations s) (\<lambda>n s'. n = operations + 2 * left + length lv \<and> inv s' A)"
  using assms(1)
proof (induction left arbitrary: i lv operations s)
  case 0
  then obtain s' where "release_all ad cs operations lv s = Returns () s'" "holding s' A []"
    using release_all_holding [of s A lv "[]" cs operations] by auto
  then show ?case by (simp add: holding_Nil)
next
  case (Suc left)
  show ?case unfolding throughput_loop.simps
  proof (rule ends_and_then [OF allocate_holding [OF Suc.prems assms(2)]])
    fix p s1 assume h: "holding s1 A (lv @ [(p, draw i)])"
    then obtain s2 where s2: "release_all ad cs (Suc operations) (lv @ [(p, draw i)]) s1 = Returns () s2" "holding s2 A []"
      using release_all_holding [of s1 A "lv @ [(p, draw i)]" "[]"] by auto
    show "ends throws (let lv1 = lv @ [(p, draw i)]; operations1 = operations + 1 in
        if limit \<le> length lv1 then and_then (release_all ad cs operations1 lv1 s1) (\<lambda>_ s2.
          throughput_loop ad cs draw limit (i + 1) left [] (operations1 + length lv1) s2)
        else throughput_loop ad cs draw limit (i + 1) left lv1 operations1 s1)
      (\<lambda>n s'. n = operations + 2 * Suc left + length lv \<and> inv s' A)"
      using Suc.IH [OF h, of "Suc i" "Suc operations"] Suc.IH [OF s2(2), of "Suc i" "Suc (Suc (operations + length lv))"] s2(1)
      by (simp add: Let_def add_ac)
  qed
qed

lemma worker_turn_holding:
  assumes "holding s A (w_holds w @ rest)" "\<And>i. 0 < draw i"
  shows "ends throws (worker_turn ad cs draw w s) (\<lambda>w' s'. holding s' A (w_holds w' @ rest) \<and> w_rest w' = w_rest w - 1)"
proof (cases "w_todo w")
  case (Cons x xs)
  obtain p n where x: "x = (p, n)" by fastforce
  obtain s' where "adapter_deallocate ad (cs (w_calls w)) p n s = Returns () s'" "holding s' A (xs @ w_live w @ rest)"
    using release_holding [of s A p n "xs @ w_live w @ rest"] assms(1) Cons x by (auto simp: w_holds_def)
  then show ?thesis using Cons x by (auto simp: worker_turn_def w_holds_def w_rest_def)
next
  case Nil
  show ?thesis
  proof (cases "w_left w")
    case 0
    show ?thesis
    proof (cases "w_live w")
      case Nil
      then show ?thesis using assms(1) \<open>w_todo w = []\<close> 0 by (auto simp: worker_turn_def w_rest_def)
    next
      case (Cons x xs)
      obtain p n where x: "x = (p, n)" by fastforce
      obtain s' where "adapter_deallocate ad (cs (w_calls w)) p n s = Returns () s'" "holding s' A (xs @ rest)"
        using release_holding [of s A p n "xs @ rest"] assms(1) Cons x \<open>w_todo w = []\<close> by (auto simp: w_holds_def)
      then show ?thesis using Cons x 0 \<open>w_todo w = []\<close> by (auto simp: worker_turn_def w_holds_def w_rest_def)
    qed
  next
    case (Suc k)
    let ?n = "draw (w_next w)"
    have turn: "worker_turn ad cs draw w s = and_then (adapter_allocate ad (cs (w_calls w)) ?n s) (\<lambda>p s'.
        let lv = w_live w @ [(p, ?n)]; w' = w\<lparr>w_left := w_left w - 1, w_next := w_next w + 1, w_calls := w_calls w + 1\<rparr>
        in Returns (if 256 \<le> length lv then w'\<lparr>w_live := [], w_todo := lv\<rparr> else w'\<lparr>w_live := lv\<rparr>) s')"
      using Nil Suc by (simp add: worker_turn_def)
    show ?thesis unfolding turn
    proof (rule ends_and_then [OF allocate_holding [OF assms]])
      fix p s' assume "holding s' A ((w_holds w @ rest) @ [(p, ?n)])"
      then have "holding s' A ((w_live w @ [(p, ?n)]) @ rest)" using Nil
        by (subst holding_perm [of _ "(w_holds w @ rest) @ [(p, ?n)]"]) (simp_all add: w_holds_def)
      then show "ends throws (let lv = w_live w @ [(p, ?n)]; w' = w\<lparr>w_left := w_left w - 1, w_next := w_next w + 1, w_calls := w_calls w + 1\<rparr>
          in Returns (if 256 \<le> length lv then w'\<lparr>w_live := [], w_todo := lv\<rparr> else w'\<lparr>w_live := lv\<rparr>) s')
        (\<lambda>w' s'. holding s' A (w_holds w' @ rest) \<and> w_rest w' = w_rest w - 1)"
        using Nil Suc by (auto simp: w_holds_def w_rest_def Let_def)
    qed
  qed
qed

lemma run_workers_holding:
  assumes "holding s A (concat (map w_holds ws))" "\<And>t i. 0 < draw t i"
  shows "ends throws (run_workers ad cs draw schedule ws s) (\<lambda>ws' s'. holding s' A (concat (map w_holds ws')) \<and> length ws' = length ws \<and>
    (\<forall>t < length ws. w_rest (ws' ! t) = w_rest (ws ! t) - count_list schedule t))"
  using assms(1)
proof (induction schedule arbitrary: ws s)
  case (Cons t schedule)
  show ?case
  proof (cases "t < length ws")
    case False
    then show ?thesis using ends_mono [OF Cons.IH [OF Cons.prems]] by auto
  next
    case True
    let ?rest = "concat (map w_holds (take t ws @ drop (Suc t) ws))"
    have split: "mset (concat (map w_holds (ws[t := w]))) = mset (w_holds w @ ?rest)" for w
      using True by (simp add: upd_conv_take_nth_drop)
    have h: "holding s A (w_holds (ws ! t) @ ?rest)"
      using Cons.prems holding_perm [OF split [of "ws ! t"]] by simp
    have "ends throws (run_workers ad cs draw schedule (ws[t := w]) s1) (\<lambda>ws' s'. holding s' A (concat (map w_holds ws')) \<and>
        length ws' = length ws \<and> (\<forall>u < length ws. w_rest (ws' ! u) = w_rest (ws ! u) - count_list (t # schedule) u))"
      if w: "holding s1 A (w_holds w @ ?rest)" "w_rest w = w_rest (ws ! t) - 1" for w s1
    proof -
      have "holding s1 A (concat (map w_holds (ws[t := w])))" using w(1) holding_perm [OF split] by blast
      from Cons.IH [OF this] show ?thesis
      proof (rule ends_mono)
        fix ws' s' assume r: "holding s' A (concat (map w_holds ws')) \<and> length ws' = length (ws[t := w]) \<and>
          (\<forall>u < length (ws[t := w]). w_rest (ws' ! u) = w_rest (ws[t := w] ! u) - count_list schedule u)"
        have "w_rest (ws' ! u) = w_rest (ws ! u) - count_list (t # schedule) u" if "u < length ws" for u
          using r w(2) that by (cases "u = t") simp_all
        then show "holding s' A (concat (map w_holds ws')) \<and> length ws' = length ws \<and>
          (\<forall>u < length ws. w_rest (ws' ! u) = w_rest (ws ! u) - count_list (t # schedule) u)" using r by simp
      qed
    qed
    moreover have "run_workers ad cs draw (t # schedule) ws s =
        and_then (worker_turn ad (cs t) (draw t) (ws ! t) s) (\<lambda>w s'. run_workers ad cs draw schedule (ws[t := w]) s')" using True by simp
    ultimately show ?thesis using ends_and_then [OF worker_turn_holding [where draw = "draw t" and cs = "cs t", OF h assms(2)]] by fastforce
  qed
qed simp

lemma measureMultiThreaded_holding:
  assumes "inv s A" "\<And>seed i. 0 < sizeDist seed 16 2048 i" "threadSafe ad"
    "\<And>t. t < threadCount_for hw \<Longrightarrow> 2 * (iterations div threadCount_for hw) \<le> count_list schedule t"
  shows "ends (throws \<or> \<not> room Threads \<or> \<not> room WorkerLists) (measureMultiThreaded room ad cs clock sizeDist hw schedule iterations result s) (\<lambda>r s'. inv s' A \<and>
      r = result\<lparr>multiThreadMopsPerSec :=
        mopsPerSec (clock 6) (clock 7) (iterations div threadCount_for hw * threadCount_for hw * 2)\<rparr>)"
proof -
  let ?n = "threadCount_for hw" and ?per = "iterations div threadCount_for hw"
  let ?ws = "replicate ?n (worker_start ?per)"
  have "concat (map w_holds ?ws) = []" by (simp add: w_holds_def worker_start_def)
  then have "holding s A (concat (map w_holds ?ws))" using assms(1) by (simp only: holding_Nil)
  note run = run_workers_holding [where draw = "\<lambda>t. sizeDist (t + 99) 16 2048", OF this assms(2), of cs schedule]
  have fin: "inv s' A \<and> list_all worker_done ws" if r: "holding s' A (concat (map w_holds ws))" "length ws = ?n"
    "\<forall>t < ?n. w_rest (ws ! t) = w_rest (worker_start ?per) - count_list schedule t" for ws s'
  proof -
    have "w_rest (ws ! t) = 0" if "t < ?n" for t
      using r(3) assms(4) that by (simp add: w_rest_def worker_start_def)
    then have fin: "worker_done w" if "w \<in> set ws" for w
      using that r(2) by (metis in_set_conv_nth w_rest_done)
    then have "concat (map w_holds ws) = []" by (auto simp: w_holds_def worker_done_def)
    then show ?thesis using r(1) holding_Nil fin by (metis list_all_iff)
  qed
  have run': "ends throws (run_workers ad cs (\<lambda>t. sizeDist (t + 99) 16 2048) schedule ?ws s) (\<lambda>ws s'. inv s' A \<and> list_all worker_done ws)"
    by (rule ends_mono [OF run]) (use fin in auto)
  have "ends throws (measureMultiThreaded room ad cs clock sizeDist hw schedule iterations result s) (\<lambda>r s'. inv s' A \<and>
      r = result\<lparr>multiThreadMopsPerSec := mopsPerSec (clock 6) (clock 7) (?per * ?n * 2)\<rparr>)" if "room Threads" "room WorkerLists"
    unfolding measureMultiThreaded_def Let_def using assms(3) that by (auto intro: ends_and_then [OF run'])
  then show ?thesis using assms(3)
    by (cases "room Threads \<and> room WorkerLists") (auto simp: measureMultiThreaded_def elim: ends_mono)
qed

text \<open>The runner as a whole, the rates it gives included.\<close>

lemma Runner_run_holding:
  assumes "inv s A" "\<And>seed i. 0 < sizeDist seed 16 8192 i" "\<And>seed i. 0 < sizeDist seed 16 2048 i" "threadSafe ad"
    "\<And>t. t < threadCount_for hw \<Longrightarrow> 2 * (iterations div threadCount_for hw) \<le> count_list schedule t"
  shows "ends (throws \<or> (\<exists>v. \<not> room v)) (Runner_run room ad cs1 cs2 cs3 clock sizeDist hw schedule ru_maxrss iterations s) (\<lambda>r s'. inv s' A \<and>
    r = \<lparr>allocateNanosPerOp = nanosSince (clock 0) (clock 1) iterations,
         deallocateNanosPerOp = nanosSince (clock 2) (clock 3) iterations,
         throughputMopsPerSec = mopsPerSec (clock 4) (clock 5) (2 * iterations),
         multiThreadMopsPerSec = mopsPerSec (clock 6) (clock 7) (iterations div threadCount_for hw * threadCount_for hw * 2),
         peakRssBytes = currentRss ru_maxrss\<rparr>)"
proof -
  let ?t = "throws \<or> (\<exists>v. \<not> room v)"
  have lat: "ends ?t (measureLatency room ad cs1 clock iterations BenchmarkResult_init s) (\<lambda>r s'. inv s' A \<and>
      r = BenchmarkResult_init\<lparr>allocateNanosPerOp := nanosSince (clock 0) (clock 1) iterations,
        deallocateNanosPerOp := nanosSince (clock 2) (clock 3) iterations\<rparr>)"
    by (rule ends_mono [OF measureLatency_holding [OF assms(1)]]) auto
  have thr: "ends ?t (measureThroughput room ad cs2 clock sizeDist iterations result s) (\<lambda>r s'. inv s' A \<and>
      r = result\<lparr>throughputMopsPerSec := mopsPerSec (clock 4) (clock 5) (2 * iterations)\<rparr>)" if "inv s A" for result s
  proof -
    have "holding s A []" using that by (simp add: holding_Nil)
    note loop = throughput_loop_holding [where draw = "sizeDist 1234 16 8192", OF this assms(2), of cs2 1024 0 iterations 0]
    have "ends ?t (throughput_loop ad cs2 (sizeDist 1234 16 8192) 1024 0 iterations [] 0 s) (\<lambda>n s'. n = 2 * iterations \<and> inv s' A)"
      by (rule ends_mono [OF loop]) auto
    then show ?thesis unfolding measureThroughput_def by (auto intro: ends_and_then)
  qed
  have multi: "ends ?t (measureMultiThreaded room ad cs3 clock sizeDist hw schedule iterations result s) (\<lambda>r s'. inv s' A \<and>
      r = result\<lparr>multiThreadMopsPerSec := mopsPerSec (clock 6) (clock 7) (iterations div threadCount_for hw * threadCount_for hw * 2)\<rparr>)"
    if "inv s A" for result s
    by (rule ends_mono [OF measureMultiThreaded_holding [where sizeDist = sizeDist and hw = hw and schedule = schedule
          and iterations = iterations, OF that assms(3-5)]]) auto
  show ?thesis unfolding Runner_run_def
    by (rule ends_and_then [OF lat], elim conjE, rule ends_and_then [OF thr], assumption, elim conjE, rule ends_and_then [OF multi])
      (auto simp: BenchmarkResult_init_def)
qed

end

text \<open>Without room for its array of pointers the runner calls nothing.\<close>

lemma Runner_run_no_room: "\<not> room Pointers \<Longrightarrow>
  Runner_run room ad cs1 cs2 cs3 clock sizeDist hw schedule ru_maxrss iterations s = Aborts s"
  by (simp add: Runner_run_def measureLatency_def)

section \<open>The calls a run makes\<close>

lemma counts_fill: "whenever (latency_fill (counted ad) cs k left ps su) (\<lambda>x su'. length x = length ps \<and> snd su' = (fst (snd su) + left, snd (snd su)))"
proof (induction left arbitrary: k ps su)
  case (Suc left)
  obtain s i j where su: "su = (s, i, j)" by (cases su)
  show ?case unfolding latency_fill.simps su
    by (rule whenever_and_then [OF counts_one(1)], rule whenever_mono [OF Suc.IH]) auto
qed simp

lemma counts_latency:
  "whenever (measureLatency room (counted ad) cs clock n result su) (\<lambda>_ su'. snd su' = (fst (snd su) + n, snd (snd su) + n))"
proof -
  have "whenever (latency_drain (counted ad) cs n ps su') (\<lambda>_ su''. snd su'' = (fst (snd su'), snd (snd su') + length ps))" for ps su'
    using counts_releases [of ad cs n "map (\<lambda>p. (p, 64)) ps" "fst su'" "fst (snd su')" "snd (snd su')"] by (simp add: latency_drain_all)
  note drain = this
  show ?thesis unfolding measureLatency_def Let_def
    by (auto intro!: whenever_and_then [OF counts_fill] whenever_and_then [OF drain])
qed

lemma counts_throughput:
  "whenever (throughput_loop (counted ad) cs draw limit k left lv ops su)
     (\<lambda>_ su'. snd su' = (fst (snd su) + left, snd (snd su) + length lv + left))"
proof (induction left arbitrary: k lv ops su)
  case 0
  show ?case using counts_releases [of ad cs ops lv "fst su" "fst (snd su)" "snd (snd su)"]
    by (auto intro!: whenever_and_then)
next
  case (Suc left)
  obtain s i j where su: "su = (s, i, j)" by (cases su)
  have rel: "whenever (release_all (counted ad) cs m xs su') (\<lambda>_ su''. snd su'' = (fst (snd su'), snd (snd su') + length xs))" for m xs su'
    using counts_releases [of ad cs m xs "fst su'" "fst (snd su')" "snd (snd su')"] by simp
  show ?case unfolding throughput_loop.simps su Let_def
    by (rule whenever_and_then [OF counts_one(1)])
      (auto intro!: whenever_and_then [OF rel] whenever_mono [OF Suc.IH])
qed

text \<open>A worker allocates once for each iteration left, and releases once for each and for what it holds.\<close>

definition w_owes :: "worker list \<Rightarrow> nat \<times> nat" where
  "w_owes ws = (sum_list (map w_left ws), sum_list (map (\<lambda>w. w_left w + length (w_live w) + length (w_todo w)) ws))"

lemma counts_turn:
  "whenever (worker_turn (counted ad) cs draw w su) (\<lambda>w' su'. fst (snd su') + w_left w' = fst (snd su) + w_left w \<and>
     snd (snd su') + (w_left w' + length (w_live w') + length (w_todo w')) = snd (snd su) + (w_left w + length (w_live w) + length (w_todo w)))"
proof -
  obtain s i j where su: "su = (s, i, j)" by (cases su)
  show ?thesis unfolding worker_turn_def su
    by (auto split: list.split intro!: whenever_and_then [OF counts_one(1)] whenever_and_then [OF counts_one(2)] simp: Let_def)
qed

lemma owes_upd:
  assumes "t < length ws"
  shows "fst (w_owes (ws[t := w])) + w_left (ws ! t) = fst (w_owes ws) + w_left w"
    "snd (w_owes (ws[t := w])) + (w_left (ws ! t) + length (w_live (ws ! t)) + length (w_todo (ws ! t))) =
      snd (w_owes ws) + (w_left w + length (w_live w) + length (w_todo w))"
  using assms sum_list_update [of t "map w_left ws" "w_left w"] elem_le_sum_list [of t "map w_left ws"]
    sum_list_update [of t "map (\<lambda>w. w_left w + length (w_live w) + length (w_todo w)) ws" "w_left w + length (w_live w) + length (w_todo w)"]
    elem_le_sum_list [of t "map (\<lambda>w. w_left w + length (w_live w) + length (w_todo w)) ws"]
  by (simp_all add: w_owes_def map_update)

lemma counts_workers:
  fixes su :: "'s \<times> nat \<times> nat"
  shows "whenever (run_workers (counted ad) cs draw schedule ws su) (\<lambda>ws' su'. fst (snd su') + fst (w_owes ws') = fst (snd su) + fst (w_owes ws) \<and>
     snd (snd su') + snd (w_owes ws') = snd (snd su) + snd (w_owes ws))"
proof (induction schedule arbitrary: ws su)
  case (Cons t schedule)
  show ?case
  proof (cases "t < length ws")
    case True
    have run: "run_workers (counted ad) cs draw (t # schedule) ws su = and_then (worker_turn (counted ad) (cs t) (draw t) (ws ! t) su)
        (\<lambda>w su'. run_workers (counted ad) cs draw schedule (ws[t := w]) su')" using True by simp
    show ?thesis unfolding run
    proof (rule whenever_and_then [OF counts_turn], rule whenever_mono [OF Cons.IH], elim conjE, intro conjI)
      fix w ws' and su1 su' :: "'s \<times> nat \<times> nat"
      note upd = owes_upd [OF True, of w]
      show "fst (snd su') + fst (w_owes ws') = fst (snd su) + fst (w_owes ws)"
        if "fst (snd su1) + w_left w = fst (snd su) + w_left (ws ! t)" "fst (snd su') + fst (w_owes ws') = fst (snd su1) + fst (w_owes (ws[t := w]))"
        using that upd(1) by linarith
      show "snd (snd su') + snd (w_owes ws') = snd (snd su) + snd (w_owes ws)"
        if "snd (snd su1) + (w_left w + length (w_live w) + length (w_todo w)) =
            snd (snd su) + (w_left (ws ! t) + length (w_live (ws ! t)) + length (w_todo (ws ! t)))"
          "snd (snd su') + snd (w_owes ws') = snd (snd su1) + snd (w_owes (ws[t := w]))"
        using that upd(2) by linarith
    qed
  qed (use Cons.IH in simp)
qed simp

lemma done_owes: "list_all worker_done ws \<Longrightarrow> w_owes ws = (0, 0)"
  by (induction ws) (auto simp: w_owes_def worker_done_def)

lemma start_owes: "w_owes (replicate n (worker_start k)) = (n * k, n * k)"
  by (simp add: w_owes_def worker_start_def sum_list_replicate)

lemma counts_run:
  assumes "threadSafe ad"
  shows "whenever (Runner_run room (counted ad) cs1 cs2 cs3 clock sizeDist hw schedule ru_maxrss n su)
     (\<lambda>_ su'. snd su' = (fst (snd su) + 2 * n + threadCount_for hw * (n div threadCount_for hw),
                         snd (snd su) + 2 * n + threadCount_for hw * (n div threadCount_for hw)))"
proof -
  have thr: "whenever (measureThroughput room (counted ad) cs2 clock sizeDist n result su) (\<lambda>_ su'. snd su' = (fst (snd su) + n, snd (snd su) + n))"
    for result su unfolding measureThroughput_def by (auto intro!: whenever_and_then [OF counts_throughput])
  let ?w = "threadCount_for hw * (n div threadCount_for hw)"
  have multi: "whenever (measureMultiThreaded room (counted ad) cs3 clock sizeDist hw schedule n result su)
      (\<lambda>_ su'. snd su' = (fst (snd su) + ?w, snd (snd su) + ?w))" for result su
    unfolding measureMultiThreaded_def Let_def using assms
    by (auto intro!: whenever_and_then [OF counts_workers] dest!: done_owes simp: start_owes prod_eq_iff)
  show ?thesis unfolding Runner_run_def
    by (rule whenever_and_then [OF counts_latency], rule whenever_and_then [OF thr], rule whenever_and_then [OF multi]) simp
qed

subsection \<open>Counting does not disturb the run\<close>

lemma forget_fill: "forget (latency_fill (counted ad) cs k left ps su) = latency_fill ad cs k left ps (fst su)"
  by (induction left arbitrary: k ps su) (auto intro!: forget_and_then)

lemma forget_latency: "forget (measureLatency room (counted ad) cs clock n result su) = measureLatency room ad cs clock n result (fst su)"
  by (auto simp: measureLatency_def Let_def latency_drain_all intro!: forget_and_then forget_fill forget_releases)

lemma forget_throughput:
  "forget (throughput_loop (counted ad) cs draw limit k left lv ops su) = throughput_loop ad cs draw limit k left lv ops (fst su)"
  by (induction left arbitrary: k lv ops su) (auto simp: Let_def forget_releases intro!: forget_and_then)

lemma forget_turn: "forget (worker_turn (counted ad) cs draw w su) = worker_turn ad cs draw w (fst su)"
  by (auto simp: worker_turn_def Let_def intro!: forget_and_then split: list.split)

lemma forget_workers: "forget (run_workers (counted ad) cs draw schedule ws su) = run_workers ad cs draw schedule ws (fst su)"
  by (induction schedule arbitrary: ws su) (auto intro!: forget_and_then forget_turn)

lemma forget_run:
  "forget (Runner_run room (counted ad) cs1 cs2 cs3 clock sizeDist hw schedule ru_maxrss n su) =
     Runner_run room ad cs1 cs2 cs3 clock sizeDist hw schedule ru_maxrss n (fst su)"
proof -
  have thr: "forget (measureThroughput room (counted ad) cs2 clock sizeDist n result su) = measureThroughput room ad cs2 clock sizeDist n result (fst su)"
    for result su by (auto simp: measureThroughput_def intro!: forget_and_then forget_throughput)
  have multi: "forget (measureMultiThreaded room (counted ad) cs3 clock sizeDist hw schedule n result su) =
      measureMultiThreaded room ad cs3 clock sizeDist hw schedule n result (fst su)" for result su
    by (auto simp: measureMultiThreaded_def Let_def intro!: forget_and_then forget_workers)
  show ?thesis unfolding Runner_run_def by (intro forget_and_then forget_latency thr multi) simp
qed

section \<open>A worker alone\<close>

text \<open>Turns in a row.\<close>

fun worker_turns ::
    "('c, 's) AllocatorAdapter \<Rightarrow> (nat \<Rightarrow> 'c) \<Rightarrow> (nat \<Rightarrow> nat) \<Rightarrow> nat \<Rightarrow> worker \<Rightarrow> 's \<Rightarrow> (worker, 's) outcome" where
  "worker_turns ad cs draw 0 w s = Returns w s"
| "worker_turns ad cs draw (Suc n) w s = and_then (worker_turn ad cs draw w s) (\<lambda>w' s'. worker_turns ad cs draw n w' s')"

definition worker_finish :: "('c, 's) AllocatorAdapter \<Rightarrow> (nat \<Rightarrow> 'c) \<Rightarrow> (nat \<Rightarrow> nat) \<Rightarrow> worker \<Rightarrow> 's \<Rightarrow> (worker, 's) outcome" where
  "worker_finish ad cs draw w s =
     and_then (release_all ad cs (w_calls w) (w_todo w) s) (\<lambda>_ s1.
       and_then (throughput_loop ad cs draw 256 (w_next w) (w_left w) (w_live w) (w_calls w + length (w_todo w)) s1) (\<lambda>ops s2.
         Returns \<lparr>w_left = 0, w_next = w_next w + w_left w, w_live = [], w_todo = [], w_calls = ops\<rparr> s2))"

lemma finish_turn: "worker_finish ad cs draw w s = and_then (worker_turn ad cs draw w s) (\<lambda>w' s'. worker_finish ad cs draw w' s')"
proof (cases "w_todo w")
  case (Cons x xs)
  obtain p n where x: "x = (p, n)" by fastforce
  show ?thesis using Cons x
    by (cases "adapter_deallocate ad (cs (w_calls w)) p n s") (simp_all add: worker_finish_def worker_turn_def)
next
  case Nil
  show ?thesis
  proof (cases "w_left w")
    case 0
    show ?thesis
    proof (cases "w_live w")
      case (Cons x xs)
      obtain p n where x: "x = (p, n)" by fastforce
      show ?thesis using Cons x Nil 0
        by (cases "adapter_deallocate ad (cs (w_calls w)) p n s") (simp_all add: worker_finish_def worker_turn_def and_then_assoc)
    qed (use Nil 0 in \<open>simp add: worker_finish_def worker_turn_def\<close>)
  next
    case (Suc k)
    show ?thesis using Nil Suc
      by (cases "adapter_allocate ad (cs (w_calls w)) (draw (w_next w)) s")
        (simp_all add: worker_finish_def worker_turn_def and_then_assoc Let_def)
  qed
qed

lemma turn_rest:
  assumes "worker_turn ad cs draw w s = Returns w' s'"
  shows "w_rest w' = w_rest w - 1"
  using assms by (auto simp: worker_turn_def w_rest_def and_then_eq_Returns Let_def split: list.splits if_splits prod.splits)

lemma turns_finish: "w_rest w \<le> n \<Longrightarrow> worker_turns ad cs draw n w s = worker_finish ad cs draw w s"
proof (induction n arbitrary: w s)
  case 0
  then have "w_left w = 0" "w_live w = []" "w_todo w = []" by (auto simp: w_rest_def)
  then show ?case by (cases w) (simp add: worker_finish_def)
next
  case (Suc n)
  have "worker_turns ad cs draw n w' s' = worker_finish ad cs draw w' s'" if "worker_turn ad cs draw w s = Returns w' s'" for w' s'
    using Suc.IH [of w' s'] turn_rest [OF that] Suc.prems by simp
  then show ?case by (subst finish_turn) (cases "worker_turn ad cs draw w s"; simp)
qed

text \<open>
  A worker with enough turns to itself does just what its code says, on any adapter: the turns come to
  the loop that fills the list, releases it whenever it holds 256 blocks, and releases the rest.
\<close>

lemma worker_alone_runs_the_loop:
  "worker_turns ad cs draw (2 * perThread + k) (worker_start perThread) s =
     and_then (throughput_loop ad cs draw 256 0 perThread [] 0 s)
       (\<lambda>calls s'. Returns \<lparr>w_left = 0, w_next = perThread, w_live = [], w_todo = [], w_calls = calls\<rparr> s')"
proof -
  have "w_rest (worker_start perThread) \<le> 2 * perThread + k" by (simp add: w_rest_def worker_start_def)
  from turns_finish [OF this] show ?thesis by (simp add: worker_finish_def worker_start_def)
qed

section \<open>The benchmarks of this library\<close>

text \<open>What \<^verbatim>\<open>std::uniform_int_distribution\<close> promises.\<close>

definition uniform :: "(nat \<Rightarrow> nat \<Rightarrow> nat \<Rightarrow> nat \<Rightarrow> nat) \<Rightarrow> bool" where
  "uniform sizeDist \<longleftrightarrow> (\<forall>seed a b i. a \<le> b \<longrightarrow> a \<le> sizeDist seed a b i \<and> sizeDist seed a b i \<le> b)"

definition fair_schedule :: "nat \<Rightarrow> nat \<Rightarrow> nat list \<Rightarrow> bool" where
  "fair_schedule threads turns schedule \<longleftrightarrow> (\<forall>t < threads. turns \<le> count_list schedule t)"

lemma uniform_positive: "uniform sizeDist \<Longrightarrow> 0 < a \<Longrightarrow> a \<le> b \<Longrightarrow> 0 < sizeDist seed a b i"
  unfolding uniform_def by (metis less_le_trans)

text \<open>
  C24: the runner over this library, from any state of its allocator, any clock, any sizes in the ranges
  asked for and any schedule that lets every worker finish; an array of more than 2^60 pointers is longer
  than a vector can be.  When the standard library can make its
  arrays and threads, it returns; in its three measurements it has made exactly one allocation per
  iteration for the latency, one per iteration for the throughput and \<open>iterations div threads\<close> in each
  worker, and as many releases; everything it allocated is released, other allocations are as they were,
  and its rates divide these calls by the time that passed.  When the array of pointers cannot be made, it
  ends with the exception before any call.
\<close>

theorem runner_returns_all_blocks:
  assumes "malloc_state os tls0 M0 a A" "uniform sizeDist"
    "fair_schedule (threadCount_for hw) (2 * (iterations div threadCount_for hw)) schedule"
    "room Pointers \<Longrightarrow> iterations < 2 ^ 60"
  defines "calls \<equiv> iterations + iterations + threadCount_for hw * (iterations div threadCount_for hw)"
  shows "((\<forall>v. room v) \<longrightarrow> (\<exists>r a'.
      Runner_run room (MAllocAdapter os) cs1 cs2 cs3 clock sizeDist hw schedule ru_maxrss iterations a = Returns r a' \<and>
      Runner_run room (counted (MAllocAdapter os)) cs1 cs2 cs3 clock sizeDist hw schedule ru_maxrss iterations (a, 0, 0) =
        Returns r (a', calls, calls) \<and>
      malloc_state os tls0 M0 a' A \<and>
      allocateNanosPerOp r = double_div (clock 1 - clock 0) iterations \<and>
      deallocateNanosPerOp r = double_div (clock 3 - clock 2) iterations \<and>
      throughputMopsPerSec r = per_million (double_div (2 * real iterations) ((clock 5 - clock 4) / 10 ^ 9)) \<and>
      multiThreadMopsPerSec r = per_million (double_div (2 * real (threadCount_for hw * (iterations div threadCount_for hw)))
        ((clock 7 - clock 6) / 10 ^ 9)))) \<and>
    (\<not> room Pointers \<longrightarrow>
      Runner_run room (MAllocAdapter os) cs1 cs2 cs3 clock sizeDist hw schedule ru_maxrss iterations a = Aborts a)"
proof (intro conjI impI)
  assume room: "\<forall>v. room v"
  let ?run = "\<lambda>ad s. Runner_run room ad cs1 cs2 cs3 clock sizeDist hw schedule ru_maxrss iterations s"
  have sizes: "0 < sizeDist seed 16 8192 i" "0 < sizeDist seed 16 2048 i" for seed i
    using uniform_positive [OF assms(2)] by auto
  have safe: "threadSafe (MAllocAdapter os)" by (simp add: MAllocAdapter_def)
  have turns: "2 * (iterations div threadCount_for hw) \<le> count_list schedule t" if "t < threadCount_for hw" for t
    using assms(3) that by (simp add: fair_schedule_def)
  have "malloc_state os tls0 M0 (fst (a, 0 :: nat, 0 :: nat)) A" using assms(1) by simp
  from lender.Runner_run_holding [OF counted_lender [OF malloc.lender_axioms], where sizeDist = sizeDist and hw = hw and schedule = schedule
      and iterations = iterations, OF this sizes _ turns, of room cs1 cs2 cs3 clock ru_maxrss]
  obtain r su where run: "?run (counted (MAllocAdapter os)) (a, 0, 0) = Returns r su" "malloc_state os tls0 M0 (fst su) A"
    "r = \<lparr>allocateNanosPerOp = nanosSince (clock 0) (clock 1) iterations,
         deallocateNanosPerOp = nanosSince (clock 2) (clock 3) iterations,
         throughputMopsPerSec = mopsPerSec (clock 4) (clock 5) (2 * iterations),
         multiThreadMopsPerSec = mopsPerSec (clock 6) (clock 7) (iterations div threadCount_for hw * threadCount_for hw * 2),
         peakRssBytes = currentRss ru_maxrss\<rparr>"
    using room safe by (auto simp: ends_False)
  have "snd su = (calls, calls)"
    using counts_run [OF safe, of room cs1 cs2 cs3 clock sizeDist hw schedule ru_maxrss iterations "(a, 0, 0)"] run(1)
    by (simp add: calls_def)
  then have "su = (fst su, calls, calls)" by (metis prod.collapse)
  moreover have "?run (MAllocAdapter os) a = Returns r (fst su)"
    using forget_run [of room "MAllocAdapter os" cs1 cs2 cs3 clock sizeDist hw schedule ru_maxrss iterations "(a, 0, 0)"] run(1) by simp
  ultimately show "\<exists>r a'. ?run (MAllocAdapter os) a = Returns r a' \<and>
      ?run (counted (MAllocAdapter os)) (a, 0, 0) = Returns r (a', calls, calls) \<and> malloc_state os tls0 M0 a' A \<and>
      allocateNanosPerOp r = double_div (clock 1 - clock 0) iterations \<and>
      deallocateNanosPerOp r = double_div (clock 3 - clock 2) iterations \<and>
      throughputMopsPerSec r = per_million (double_div (2 * real iterations) ((clock 5 - clock 4) / 10 ^ 9)) \<and>
      multiThreadMopsPerSec r = per_million (double_div (2 * real (threadCount_for hw * (iterations div threadCount_for hw)))
        ((clock 7 - clock 6) / 10 ^ 9))"
    using run by (intro exI [of _ r] exI [of _ "fst su"]) (simp add: nanosSince_def mopsPerSec_def mult_ac)
qed (rule Runner_run_no_room)

theorem runner_returns_all_blocks_witness:
  "\<exists>r a'. Runner_run (\<lambda>_. True) (counted (MAllocAdapter linear_os)) (\<lambda>_. caller0) (\<lambda>_. caller0) (\<lambda>t _. caller0\<lparr>thread := t\<rparr>) real (\<lambda>_ a _ _. a) 2
      [0, 1, 1, 0] None 2 (Some (new_impl AllocatorConfig_default), 0, 0) = Returns r (a', 6, 6) \<and>
    malloc_state linear_os Map.empty blank_machine a' {}"
proof -
  have "malloc_state linear_os Map.empty blank_machine (Some (new_impl AllocatorConfig_default)) {}"
    using fair_linear impl_reach.make by (auto simp: malloc_state_def)
  moreover have "uniform (\<lambda>_ a _ _. a)" by (simp add: uniform_def)
  moreover have two: "threadCount_for 2 = 2" by (simp add: threadCount_for_def)
  moreover have "fair_schedule (threadCount_for 2) (2 * (2 div threadCount_for 2)) [0, 1, 1, 0]"
    unfolding two by (auto simp: fair_schedule_def less_Suc_eq numeral_2_eq_2)
  moreover have "(2 :: nat) < 2 ^ 60" by simp
  ultimately show ?thesis
    using runner_returns_all_blocks [of linear_os Map.empty blank_machine _ "{}" "\<lambda>_ a _ _. a" 2 2 "[0, 1, 1, 0]" "\<lambda>_. True" "\<lambda>_. caller0" "\<lambda>_. caller0"
        "\<lambda>t _. caller0\<lparr>thread := t\<rparr>" real None] by fastforce
qed

end
