(* ===== verification/Examples.thy ===== *)
theory Examples
  imports Runner
begin

text \<open>
  The example programs, \<^verbatim>\<open>examples/\<close>, and the fragmentation part of \<^verbatim>\<open>benchmarks/main.cpp\<close>, as programs
  over the public interface: their exit codes and what they print.  \<open>cs k\<close> is the caller at the \<open>k\<close>-th
  call of the program.
\<close>

section \<open>Output\<close>

datatype field = Number nat | Bytes nat | Percent real

datatype printed_line =
    Line string
  | LineAt string addr
  | LineNumber string nat
  | ErrorLine string
  | SensorLine string real
  | SquaresLine nat nat
  | MillisLine string real
  | RowLine string double double double double real
  | Fields "(string \<times> field) list"

text \<open>\<open>printStats\<close> of the statistics example, a line per label and value.\<close>

definition printStats :: "StatisticsSnapshot \<Rightarrow> printed_line" where
  "printStats t = Fields
     [(''allocations'', Number (unat (allocationCount t))), (''frees'', Number (unat (freeCount t))),
      (''active allocations'', Number (unat (activeAllocations t))), (''current usage'', Bytes (unat (currentUsage t))),
      (''peak usage'', Bytes (unat (peakUsage t))), (''allocated total'', Bytes (unat (allocatedBytes t))),
      (''freed total'', Bytes (unat (freedBytes t))), (''reserved'', Bytes (unat (reservedBytes t))),
      (''internal frag'', Percent (internalFragmentation t * 100)), (''external frag'', Percent (externalFragmentation_of t * 100))]"

section \<open>Loops over a vector of pointers\<close>

fun push_loop ::
    "('c \<Rightarrow> nat \<Rightarrow> 's \<Rightarrow> (addr, 's) outcome) \<Rightarrow> (nat \<Rightarrow> 'c) \<Rightarrow> (nat \<Rightarrow> nat) \<Rightarrow> nat \<Rightarrow> nat \<Rightarrow> addr list \<Rightarrow> 's \<Rightarrow> (addr list, 's) outcome" where
  "push_loop alloc cs size_of i 0 blocks s = Returns blocks s"
| "push_loop alloc cs size_of i (Suc left) blocks s =
     and_then (alloc (cs i) (size_of i) s) (\<lambda>p s'. push_loop alloc cs size_of (i + 1) left (blocks @ [p]) s')"

fun release_each :: "('c \<Rightarrow> addr \<Rightarrow> 's \<Rightarrow> (unit, 's) outcome) \<Rightarrow> (nat \<Rightarrow> 'c) \<Rightarrow> nat \<Rightarrow> addr list \<Rightarrow> 's \<Rightarrow> (unit, 's) outcome" where
  "release_each free cs k [] s = Returns () s"
| "release_each free cs k (p # ps) s = and_then (free (cs k) p s) (\<lambda>_ s'. release_each free cs (k + 1) ps s')"

text \<open>\<^verbatim>\<open>for (i = first; i < blocks.size(); i += 2)\<close>\<close>

function release_stride ::
    "('c \<Rightarrow> addr \<Rightarrow> 's \<Rightarrow> (unit, 's) outcome) \<Rightarrow> (nat \<Rightarrow> 'c) \<Rightarrow> nat \<Rightarrow> nat \<Rightarrow> addr list \<Rightarrow> 's \<Rightarrow> (unit, 's) outcome" where
  "release_stride free cs k i blocks s =
     (if i < length blocks
      then and_then (free (cs k) (blocks ! i) s) (\<lambda>_ s'. release_stride free cs (k + 1) (i + 2) blocks s')
      else Returns () s)"
  by pat_completeness auto
termination by (relation "measure (\<lambda>(_, _, _, i, blocks, _). length blocks - i)") auto

declare release_stride.simps [simp del]

section \<open>The programs\<close>

definition statistics_example_main :: "os \<Rightarrow> (nat \<Rightarrow> caller) \<Rightarrow> Allocator \<Rightarrow> (nat \<times> printed_line list, Allocator) outcome" where
  "statistics_example_main os cs a =
     and_then (push_loop (Allocator_allocate os) cs (\<lambda>i. i mod 1000 + 1) 0 500 [] a) (\<lambda>blocks a1.
     and_then (Allocator_statistics a1) (\<lambda>t1 a2.
     and_then (release_stride (Allocator_deallocate os) cs 500 0 blocks a2) (\<lambda>_ a3.
     and_then (Allocator_statistics a3) (\<lambda>t2 a4.
     and_then (release_stride (Allocator_deallocate os) cs 750 1 blocks a4) (\<lambda>_ a5.
     and_then (Allocator_statistics a5) (\<lambda>t3 a6.
       Returns (0, [Line ''after 500 allocations:'', printStats t1, Line ''after freeing every second block:'', printStats t2,
         Line ''after freeing everything:'', printStats t3]) a6))))))"

definition churn_main :: "os \<Rightarrow> (nat \<Rightarrow> caller) \<Rightarrow> Allocator \<Rightarrow> (nat \<times> printed_line list, Allocator) outcome" where
  "churn_main os cs a =
     and_then (push_loop (Allocator_allocate os) cs (\<lambda>i. (i mod 32 + 1) * 1024) 0 4000 [] a) (\<lambda>churn a1.
     and_then (release_stride (Allocator_deallocate os) cs 4000 0 churn a1) (\<lambda>_ a2.
     and_then (Allocator_statistics a2) (\<lambda>t a3.
     and_then (release_stride (Allocator_deallocate os) cs 6000 1 churn a3) (\<lambda>_ a4.
       Returns (0, [Line ''m-alloc fragmentation under churn:'',
         Fields [(''internal fragmentation'', Percent (internalFragmentation t * 100)),
                 (''external fragmentation'', Percent (externalFragmentation_of t * 100))]]) a4))))"

text \<open>\<open>measure\<close> of the benchmark example; \<open>start\<close> and \<open>finish\<close> are the two readings of the clock, in nanoseconds.\<close>

definition measure_with ::
    "('c \<Rightarrow> nat \<Rightarrow> 's \<Rightarrow> (addr, 's) outcome) \<Rightarrow> ('c \<Rightarrow> addr \<Rightarrow> 's \<Rightarrow> (unit, 's) outcome) \<Rightarrow> (nat \<Rightarrow> 'c) \<Rightarrow> nat \<Rightarrow> real \<Rightarrow> real \<Rightarrow> 's \<Rightarrow>
      (real, 's) outcome" where
  "measure_with alloc release cs iterations start finish s =
     and_then (push_loop alloc cs (\<lambda>i. i mod 256 + 16) 0 iterations [] s) (\<lambda>pointers s1.
       and_then (release_each release cs iterations pointers s1) (\<lambda>_ s2. Returns ((finish - start) / 10 ^ 6) s2))"

definition basic_allocation_main :: "os \<Rightarrow> (nat \<Rightarrow> caller) \<Rightarrow> Allocator \<Rightarrow> (nat \<times> printed_line list, Allocator) outcome" where
  "basic_allocation_main os cs a =
     and_then (Allocator_allocate os (cs 0) 256 a) (\<lambda>buffer a1.
       if buffer = 0 then Returns (1, [ErrorLine ''allocation failed'']) a1
       else
         and_then (Allocator_reallocate os (cs 1) (cs 2) buffer 1024 (map_option (on_mem (memset buffer 0 256)) a1)) (\<lambda>grown a2.
         and_then (Allocator_alignedAllocate os (cs 3) 64 512 a2) (\<lambda>aligned a3.
         and_then (Allocator_deallocate os (cs 4) aligned a3) (\<lambda>_ a4.
         and_then (Allocator_deallocate os (cs 5) grown a4) (\<lambda>_ a5.
         and_then (Allocator_tryAllocate os (cs 6) 128 a5) (\<lambda>result a6.
           let out = [LineAt ''allocated 256 bytes at '' buffer, LineAt ''grown to 1024 bytes at '' grown, LineAt ''aligned block at '' aligned] in
           case result of
             Inr p \<Rightarrow> and_then (Allocator_deallocate os (cs 7) p a6) (\<lambda>_ a7. Returns (0, out @ [LineAt ''tryAllocate succeeded at '' p]) a7)
           | Inl e \<Rightarrow> Returns (0, out @ [ErrorLine (''tryAllocate failed: '' @ toString e)]) a6))))))"

text \<open>The configuration of the custom allocator and the program; \<open>stackValue\<close> is the address of a local variable.\<close>

definition custom_config :: AllocatorConfig where
  "custom_config = AllocatorConfig_debug\<lparr>errorHandler := True\<rparr>"

definition custom_allocator_main :: "os \<Rightarrow> (nat \<Rightarrow> caller) \<Rightarrow> addr \<Rightarrow> Allocator \<Rightarrow> (nat \<times> printed_line list, Allocator) outcome" where
  "custom_allocator_main os cs stackValue a =
     and_then (Allocator_allocate os (cs 0) 128 a) (\<lambda>block a1.
     and_then (Allocator_deallocate os (cs 1) block a1) (\<lambda>_ a2.
     and_then (Allocator_deallocate os (cs 2) block a2) (\<lambda>_ a3.
     and_then (Allocator_deallocate os (cs 3) stackValue a3) (\<lambda>_ a4.
       Returns (0, [LineAt ''debug-mode block at '' block, LineNumber ''live allocations: '' (Allocator_liveAllocationCount a4)]) a4))))"

record Sensor =
  sensor_name :: string
  threshold :: real

text \<open>
  \<open>construct_at\<close> and \<open>destroy_at\<close> stand for what these functions do to the bytes of the object; its
  size and alignment are the compiler's.
\<close>

definition placement_new_main ::
    "nat \<Rightarrow> nat \<Rightarrow> (Sensor \<Rightarrow> addr \<Rightarrow> memory \<Rightarrow> memory) \<Rightarrow> (addr \<Rightarrow> memory \<Rightarrow> memory) \<Rightarrow> os \<Rightarrow> (nat \<Rightarrow> caller) \<Rightarrow> Allocator \<Rightarrow>
      (nat \<times> printed_line list, Allocator) outcome" where
  "placement_new_main alignofSensor sizeofSensor construct_at destroy_at os cs a =
     and_then (Allocator_alignedAllocate os (cs 0) alignofSensor sizeofSensor a) (\<lambda>storage a1.
       if storage = 0 then Returns (1, []) a1
       else
         let sensor = \<lparr>sensor_name = ''thermal-1'', threshold = 78.5\<rparr>;
             a2 = map_option (on_mem (construct_at sensor storage)) a1;
             a3 = map_option (on_mem (destroy_at storage)) a2
         in and_then (Allocator_deallocate os (cs 1) storage a3) (\<lambda>_ a4.
              Returns (0, [SensorLine (sensor_name sensor) (threshold sensor)]) a4))"

section \<open>The public interface over reachable states\<close>

lemma malloc_stateE:
  assumes "malloc_state os tls0 M0 a R"
  obtains s where "fair_start os tls0 M0" "a = Some s" "impl_reach False os AllocatorConfig_default tls0 M0 s R"
    "config s = AllocatorConfig_default"
proof -
  obtain s where s: "fair_start os tls0 M0" "a = Some s" "impl_reach False os AllocatorConfig_default tls0 M0 s R"
    using assms by (auto simp: malloc_state_def)
  then show thesis using that reach_holds [OF s(1,3)] by blast
qed

lemma malloc_default: "fair_start os tls0 M0 \<Longrightarrow> malloc_state os tls0 M0 (Allocator_default tls0 M0) {}"
  using impl_reach.make by (auto simp: malloc_state_def Allocator_default_def)

lemma malloc_statistics:
  assumes "malloc_state os tls0 M0 a R"
  shows "\<exists>t. Allocator_statistics a = Returns t a \<and> unat (activeAllocations t) = card R \<and> unat (currentUsage t) = (\<Sum>(p, n) \<in> R. n) \<and>
    allocationCount t = freeCount t + activeAllocations t"
proof -
  obtain s where s: "fair_start os tls0 M0" "a = Some s" "impl_reach False os AllocatorConfig_default tls0 M0 s R"
    by (rule malloc_stateE [OF assms])
  show ?thesis using statistics_spec [OF s(1,3)] s(2) by (auto simp: Allocator_statistics_def)
qed

lemma malloc_write:
  assumes "malloc_state os tls0 M0 a R" "\<And>m x. x \<notin> cells R \<Longrightarrow> f m x = m x"
  shows "malloc_state os tls0 M0 (map_option (on_mem f) a) R"
  using assms impl_reach.user_write by (fastforce simp: malloc_state_def)

lemma malloc_nonnull:
  assumes "malloc_state os tls0 M0 a R" "(p, n) \<in> R"
  shows "p \<noteq> 0" "0 < n"
proof -
  obtain s where s: "fair_start os tls0 M0" "impl_reach False os AllocatorConfig_default tls0 M0 s R" by (rule malloc_stateE [OF assms(1)])
  show "p \<noteq> 0" "0 < n" using reachable_safe_spec [OF s] assms(2) by auto
qed

lemma malloc_aligned:
  assumes "malloc_state os tls0 M0 a R" "0 < n"
  shows "\<exists>p a'. Allocator_alignedAllocate os c al n a = Returns p a' \<and>
    (if p = 0 then malloc_state os tls0 M0 a' R else (p, n) \<notin> R \<and> malloc_state os tls0 M0 a' (insert (p, n) R))"
proof -
  obtain s where s: "fair_start os tls0 M0" "a = Some s" "impl_reach False os AllocatorConfig_default tls0 M0 s R" "config s = AllocatorConfig_default"
    by (rule malloc_stateE [OF assms(1)])
  have n: "asked n = n" using assms(2) by (simp add: asked_def)
  have "(\<exists>p s'. AllocatorImpl_alignedAllocate os c al n s = Returns (Inr p) s' \<and> granted s R p n s') \<or>
      (\<exists>e s'. AllocatorImpl_alignedAllocate os c al n s = Returns (Inl e) s')"
    using alignedAllocate_spec [OF s(1,3), of c al n] s(4) n by (auto simp: fails_def split: if_splits)
  then show ?thesis
  proof (elim disjE exE conjE)
    fix p s' assume g: "AllocatorImpl_alignedAllocate os c al n s = Returns (Inr p) s'" "granted s R p n s'"
    have "(p, n) \<notin> R" using g(2) assms(2) by (auto simp: granted_def)
    then show ?thesis using g s impl_reach.aligned [OF s(3) _ g(1)] n
      by (auto simp: Allocator_alignedAllocate_def value_or_null_def malloc_state_def granted_def)
  next
    fix e s' assume e: "AllocatorImpl_alignedAllocate os c al n s = Returns (Inl e) s'"
    then show ?thesis using impl_reach.not_aligned [OF s(3) _ e] s
      by (auto simp: Allocator_alignedAllocate_def value_or_null_def malloc_state_def)
  qed
qed

lemma malloc_reallocates:
  assumes "malloc_state os tls0 M0 a R" "(p, k) \<in> R" "0 < n"
  shows "\<exists>q a'. Allocator_reallocate os c c' p n a = Returns q a' \<and>
    (if q = 0 then malloc_state os tls0 M0 a' R else malloc_state os tls0 M0 a' (insert (q, n) (R - {(p, k)})))"
proof -
  obtain s where s: "fair_start os tls0 M0" "a = Some s" "impl_reach False os AllocatorConfig_default tls0 M0 s R" "config s = AllocatorConfig_default"
    by (rule malloc_stateE [OF assms(1)])
  have "(\<exists>q s'. AllocatorImpl_reallocate os c c' p n s = Returns (Inr q) s' \<and>
        impl_reach False os AllocatorConfig_default tls0 M0 s' (insert (q, n) (R - {(p, k)}))) \<or>
      (\<exists>e s'. AllocatorImpl_reallocate os c c' p n s = Returns (Inl e) s')"
    using reallocate_spec [OF s(1,3) assms(2), of c n c'] s(4) assms(3) by (auto simp: fails_def split: if_splits)
  then show ?thesis
  proof (elim disjE exE conjE)
    fix q s' assume g: "AllocatorImpl_reallocate os c c' p n s = Returns (Inr q) s'"
      "impl_reach False os AllocatorConfig_default tls0 M0 s' (insert (q, n) (R - {(p, k)}))"
    then have "q \<noteq> 0" using reachable_safe_spec [OF s(1) g(2)] by auto
    then show ?thesis using g s by (auto simp: Allocator_reallocate_def value_or_null_def malloc_state_def)
  next
    fix e s' assume e: "AllocatorImpl_reallocate os c c' p n s = Returns (Inl e) s'"
    then show ?thesis using impl_reach.not_resized [OF s(3) assms(2) _ assms(3) e] s
      by (auto simp: Allocator_reallocate_def value_or_null_def malloc_state_def)
  qed
qed

lemma malloc_releases_null: "malloc_state os tls0 M0 a R \<Longrightarrow> Allocator_deallocate os c 0 a = Returns () a"
  by (auto simp: Allocator_deallocate_def AllocatorImpl_deallocate_def elim!: malloc_stateE)

lemma malloc_tries:
  assumes "malloc_state os tls0 M0 a R" "0 < n"
  shows "\<exists>r a'. Allocator_tryAllocate os c n a = Returns r a' \<and>
    (case r of Inl e \<Rightarrow> malloc_state os tls0 M0 a' R | Inr p \<Rightarrow> (p, n) \<notin> R \<and> malloc_state os tls0 M0 a' (insert (p, n) R))"
proof -
  obtain s where s: "fair_start os tls0 M0" "a = Some s" "impl_reach False os AllocatorConfig_default tls0 M0 s R" "config s = AllocatorConfig_default"
    by (rule malloc_stateE [OF assms(1)])
  have n: "asked n = n" using assms(2) by (simp add: asked_def)
  have "(\<exists>p s'. AllocatorImpl_allocate os c n s = Returns (Inr p) s' \<and> granted s R p n s') \<or>
      (\<exists>e s'. AllocatorImpl_allocate os c n s = Returns (Inl e) s')"
    using allocate_spec [OF s(1,3), of c n] s(4) n by (auto simp: fails_def split: if_splits)
  then show ?thesis
  proof (elim disjE exE conjE)
    fix p s' assume g: "AllocatorImpl_allocate os c n s = Returns (Inr p) s'" "granted s R p n s'"
    have "(p, n) \<notin> R" using g(2) assms(2) by (auto simp: granted_def)
    then show ?thesis using g s impl_reach.allocated [OF s(3) _ g(1)] n by (auto simp: Allocator_tryAllocate_def malloc_state_def)
  next
    fix e s' assume e: "AllocatorImpl_allocate os c n s = Returns (Inl e) s'"
    then show ?thesis using impl_reach.not_allocated [OF s(3) _ e] s by (auto simp: Allocator_tryAllocate_def malloc_state_def)
  qed
qed

end
