(* ===== verification/ExampleProperties.thy ===== *)
theory ExampleProperties
  imports Examples Concurrent
begin

text \<open>
  What the example programs do, whatever memory the system grants them: they return, print what they
  promise, and leave nothing allocated, with one exception.
\<close>

section \<open>Loops over a vector of pointers\<close>

text \<open>Every second entry, beginning with the first.\<close>

fun evens :: "'a list \<Rightarrow> 'a list" where
  "evens [] = []"
| "evens [x] = [x]"
| "evens (x # y # xs) = x # evens xs"

lemma mset_evens: "mset (evens xs) + mset (evens (drop 1 xs)) = mset xs"
proof (induction xs rule: evens.induct)
  case (3 x y xs)
  then show ?case by (cases xs) auto
qed auto

lemma evens_Cons: "evens (x # xs) = x # evens (tl xs)"
  by (cases xs) auto

lemma evens_drop: "i < length xs \<Longrightarrow> evens (drop i xs) = xs ! i # evens (drop (i + 2) xs)"
  by (simp add: Cons_nth_drop_Suc [symmetric] evens_Cons tl_drop drop_Suc)

lemma map_evens: "map f (evens xs) = evens (map f xs)"
  by (induction xs rule: evens.induct) auto

context adapter
begin

lemma release_stride_all:
  assumes "\<And>c p n s. free c p s = adapter_deallocate ad c p n s"
  shows "release_stride free cs k i (map fst xs) s = release_all ad cs k (evens (drop i xs)) s"
proof (induction "length xs - i" arbitrary: i k s rule: less_induct)
  case less
  show ?case
  proof (cases "i < length xs")
    case True
    obtain p n where x: "xs ! i = (p, n)" by fastforce
    have "release_stride free cs (k + 1) (i + 2) (map fst xs) s' = release_all ad cs (k + 1) (evens (drop (i + 2) xs)) s'" for s'
      by (rule less) (use True in simp)
    then show ?thesis using True x assms [of "cs k" p s n] evens_drop [OF True]
      by (subst release_stride.simps) (cases "adapter_deallocate ad (cs k) p n s"; simp)
  qed (simp add: release_stride.simps)
qed

lemma release_each_all:
  assumes "\<And>c p n s. free c p s = adapter_deallocate ad c p n s"
  shows "release_each free cs k (map fst xs) s = release_all ad cs k xs s"
proof (induction xs arbitrary: k s)
  case (Cons x xs)
  obtain p n where x: "x = (p, n)" by fastforce
  show ?case using assms [of "cs k" p s n] x by (cases "adapter_deallocate ad (cs k) p n s") (simp_all add: Cons.IH)
qed simp

lemma push_loop_holding:
  assumes "holding s A xs" "\<And>i. 0 < size_of i"
  shows "\<exists>ys s'. push_loop (adapter_allocate ad) cs size_of i left (map fst xs) s = Returns (map fst ys) s' \<and>
    holding s' A ys \<and> length ys = length xs + left"
  using assms(1)
proof (induction left arbitrary: i xs s)
  case (Suc left)
  obtain p s1 where s1: "adapter_allocate ad (cs i) (size_of i) s = Returns p s1" "holding s1 A (xs @ [(p, size_of i)])"
    by (rule allocate_returns [OF Suc.prems assms(2)])
  from Suc.IH [OF s1(2), of "i + 1"] show ?case using s1(1) by simp
qed auto

text \<open>Fill a vector, release every second block, then the others.\<close>

lemma push_then_release:
  assumes "inv s A" "\<And>i. 0 < size_of i" "\<And>c p n s. free c p s = adapter_deallocate ad c p n s"
  obtains xs s1 where "push_loop (adapter_allocate ad) cs size_of 0 left [] s = Returns (map fst xs) s1" "length xs = left" "holding s1 A xs"
    "\<exists>s2. release_stride free cs k 0 (map fst xs) s1 = Returns () s2 \<and> holding s2 A (evens (drop 1 xs)) \<and>
      (\<exists>s3. release_stride free cs k' 1 (map fst xs) s2 = Returns () s3 \<and> inv s3 A)"
proof -
  have "holding s A []" using assms(1) by (simp add: holding_Nil)
  from push_loop_holding [where size_of = size_of, OF this assms(2), of cs 0 left] obtain xs s1 where
    xs: "push_loop (adapter_allocate ad) cs size_of 0 left [] s = Returns (map fst xs) s1" "holding s1 A xs" "length xs = left" by auto
  have "holding s1 A (evens xs @ evens (drop 1 xs))"
    using xs(2) holding_perm [of xs "evens xs @ evens (drop 1 xs)" s1 A] mset_evens [of xs] by simp
  then obtain s2 where s2: "release_stride free cs k 0 (map fst xs) s1 = Returns () s2" "holding s2 A (evens (drop 1 xs))"
    using release_all_holding [of s1 A "evens xs" "evens (drop 1 xs)" cs k]
      release_stride_all [where free = free and i = 0 and cs = cs and k = k and xs = xs and s = s1, OF assms(3)] by auto
  obtain s3 where "release_stride free cs k' 1 (map fst xs) s2 = Returns () s3" "holding s3 A []"
    using release_all_holding [of s2 A "evens (drop 1 xs)" "[]" cs k'] s2(2)
      release_stride_all [where free = free and i = 1 and cs = cs and k = k' and xs = xs and s = s2, OF assms(3)] by auto
  then show thesis using that [OF xs(1,3,2)] s2 by (auto simp: holding_Nil)
qed

lemma holding_count: "holding s A xs \<Longrightarrow> card (owned xs) = length (filter (\<lambda>p. p \<noteq> 0) (map fst xs))"
proof -
  assume h: "holding s A xs"
  have "length (filter (\<lambda>p. p \<noteq> 0) (map fst xs)) = length (granted_list xs)"
    by (simp add: granted_list_def filter_map comp_def case_prod_unfold)
  also have "\<dots> = card (owned xs)" using h distinct_card [of "granted_list xs"] by (simp add: holding_def set_granted_list)
  finally show ?thesis by simp
qed

end

lemma malloc_ops: "adapter_allocate (MAllocAdapter os) = Allocator_allocate os"
  "Allocator_deallocate os c p a = adapter_deallocate (MAllocAdapter os) c p n a"
  by (simp_all add: MAllocAdapter_def)

lemma malloc_holding: "malloc.holding os tls0 M0 a {} xs \<Longrightarrow> malloc_state os tls0 M0 a (owned xs)"
  by (simp add: malloc.holding_def)

section \<open>Properties\<close>

text \<open>
  The statistics example prints exact figures: after its allocations the active ones are those that
  succeeded, after every second release those at the odd places of its vector, and at the end nothing
  is active or in use and there were as many releases as allocations.
\<close>

lemma statistics_example_is_exact:
  assumes "fair_start os tls0 M0"
  shows "\<exists>blocks a1 t1 t2 t3 a'. statistics_example_main os cs (Allocator_default tls0 M0) =
      Returns (0, [Line ''after 500 allocations:'', printStats t1, Line ''after freeing every second block:'', printStats t2,
        Line ''after freeing everything:'', printStats t3]) a' \<and>
    push_loop (Allocator_allocate os) cs (\<lambda>i. i mod 1000 + 1) 0 500 [] (Allocator_default tls0 M0) = Returns blocks a1 \<and>
    length blocks = 500 \<and> unat (activeAllocations t1) = length (filter (\<lambda>p. p \<noteq> 0) blocks) \<and>
    unat (activeAllocations t2) = length (filter (\<lambda>p. p \<noteq> 0) (evens (drop 1 blocks))) \<and>
    activeAllocations t3 = 0 \<and> currentUsage t3 = 0 \<and> allocationCount t3 = freeCount t3 \<and> malloc_state os tls0 M0 a' {}"
proof -
  let ?free = "Allocator_deallocate os" and ?size = "\<lambda>i. i mod 1000 + 1 :: nat"
  obtain xs a1 where xs: "push_loop (adapter_allocate (MAllocAdapter os)) cs ?size 0 500 [] (Allocator_default tls0 M0) = Returns (map fst xs) a1"
      "length xs = 500" "malloc.holding os tls0 M0 a1 {} xs"
      "\<exists>a2. release_stride ?free cs 500 0 (map fst xs) a1 = Returns () a2 \<and> malloc.holding os tls0 M0 a2 {} (evens (drop 1 xs)) \<and>
        (\<exists>a3. release_stride ?free cs 750 1 (map fst xs) a2 = Returns () a3 \<and> malloc_state os tls0 M0 a3 {})"
    by (rule malloc.push_then_release [where free = ?free and size_of = ?size, OF malloc_default [OF assms] _ malloc_ops(2)]) auto
  then obtain a2 a3 where a: "release_stride ?free cs 500 0 (map fst xs) a1 = Returns () a2" "malloc.holding os tls0 M0 a2 {} (evens (drop 1 xs))"
    "release_stride ?free cs 750 1 (map fst xs) a2 = Returns () a3" "malloc_state os tls0 M0 a3 {}" by blast
  obtain t1 where t1: "Allocator_statistics a1 = Returns t1 a1" "unat (activeAllocations t1) = card (owned xs)"
    using malloc_statistics [OF malloc_holding [OF xs(3)]] by blast
  obtain t2 where t2: "Allocator_statistics a2 = Returns t2 a2" "unat (activeAllocations t2) = card (owned (evens (drop 1 xs)))"
    using malloc_statistics [OF malloc_holding [OF a(2)]] by blast
  obtain t3 where t3: "Allocator_statistics a3 = Returns t3 a3" "activeAllocations t3 = 0" "currentUsage t3 = 0"
    "allocationCount t3 = freeCount t3 + activeAllocations t3"
    using malloc_statistics [OF a(4)] by (auto simp: unat_eq_zero)
  have "statistics_example_main os cs (Allocator_default tls0 M0) =
      Returns (0, [Line ''after 500 allocations:'', printStats t1, Line ''after freeing every second block:'', printStats t2,
        Line ''after freeing everything:'', printStats t3]) a3"
    unfolding statistics_example_main_def using xs(1) a(1,3) t1(1) t2(1) t3(1) by (simp add: malloc_ops(1))
  then show ?thesis using xs(1,2) t1(2) t2(2) t3(2-4) a(4) malloc.holding_count [OF xs(3)] malloc.holding_count [OF a(2)]
    by (intro exI [of _ "map fst xs"] exI [of _ a1] exI [of _ t1] exI [of _ t2] exI [of _ t3] exI [of _ a3])
      (simp add: malloc_ops(1) map_evens drop_map)
qed

lemma churn_runs:
  assumes "fair_start os tls0 M0"
  shows "\<exists>out a'. churn_main os cs (Allocator_default tls0 M0) = Returns (0, out) a' \<and> malloc_state os tls0 M0 a' {}"
proof -
  let ?free = "Allocator_deallocate os" and ?size = "\<lambda>i. (i mod 32 + 1) * 1024 :: nat"
  obtain xs a1 where xs: "push_loop (adapter_allocate (MAllocAdapter os)) cs ?size 0 4000 [] (Allocator_default tls0 M0) = Returns (map fst xs) a1"
      "\<exists>a2. release_stride ?free cs 4000 0 (map fst xs) a1 = Returns () a2 \<and> malloc.holding os tls0 M0 a2 {} (evens (drop 1 xs)) \<and>
        (\<exists>a3. release_stride ?free cs 6000 1 (map fst xs) a2 = Returns () a3 \<and> malloc_state os tls0 M0 a3 {})"
    by (rule malloc.push_then_release [where free = ?free and size_of = ?size, OF malloc_default [OF assms] _ malloc_ops(2)]) auto
  then obtain a2 a3 where a: "release_stride ?free cs 4000 0 (map fst xs) a1 = Returns () a2" "malloc.holding os tls0 M0 a2 {} (evens (drop 1 xs))"
    "release_stride ?free cs 6000 1 (map fst xs) a2 = Returns () a3" "malloc_state os tls0 M0 a3 {}" by blast
  obtain t where t: "Allocator_statistics a2 = Returns t a2" using malloc_statistics [OF malloc_holding [OF a(2)]] by blast
  show ?thesis unfolding churn_main_def using xs(1) a(1,3,4) t by (simp add: malloc_ops(1))
qed

lemma measure_runs:
  assumes "fair_start os tls0 M0"
  shows "\<exists>a'. measure_with (Allocator_allocate os) (Allocator_deallocate os) cs iterations start finish (Allocator_default tls0 M0) =
      Returns ((finish - start) / 10 ^ 6) a' \<and> malloc_state os tls0 M0 a' {}"
proof -
  let ?free = "Allocator_deallocate os" and ?size = "\<lambda>i. i mod 256 + 16 :: nat"
  have "malloc.holding os tls0 M0 (Allocator_default tls0 M0) {} []" using malloc_default [OF assms] by (simp add: malloc.holding_Nil)
  from malloc.push_loop_holding [where size_of = ?size, OF this, of cs 0 iterations] obtain xs a1 where
    xs: "push_loop (Allocator_allocate os) cs ?size 0 iterations [] (Allocator_default tls0 M0) = Returns (map fst xs) a1"
      "malloc.holding os tls0 M0 a1 {} xs" by (auto simp: malloc_ops(1))
  obtain a2 where "release_each ?free cs iterations (map fst xs) a1 = Returns () a2" "malloc.holding os tls0 M0 a2 {} []"
    using malloc.release_all_holding [of os tls0 M0 a1 "{}" xs "[]" cs iterations] xs(2)
      malloc.release_each_all [where free = ?free and os = os and cs = cs and k = iterations and xs = xs and s = a1, OF malloc_ops(2)] by auto
  then show ?thesis using xs(1) by (simp add: measure_with_def malloc.holding_Nil)
qed

lemma placement_runs:
  assumes "fair_start os tls0 M0" "0 < sizeofSensor"
    "\<And>sensor p m x. x \<notin> {p..<p + sizeofSensor} \<Longrightarrow> construct_at sensor p m x = m x"
    "\<And>p m x. x \<notin> {p..<p + sizeofSensor} \<Longrightarrow> destroy_at p m x = m x"
  shows "\<exists>code out a'. placement_new_main alignofSensor sizeofSensor construct_at destroy_at os cs (Allocator_default tls0 M0) = Returns (code, out) a' \<and>
    (code, out) \<in> {(1, []), (0, [SensorLine ''thermal-1'' 78.5])} \<and> malloc_state os tls0 M0 a' {}"
proof -
  let ?sensor = "\<lparr>sensor_name = ''thermal-1'', threshold = 78.5\<rparr> :: Sensor"
  obtain p a1 where al: "Allocator_alignedAllocate os (cs 0) alignofSensor sizeofSensor (Allocator_default tls0 M0) = Returns p a1"
    "if p = 0 then malloc_state os tls0 M0 a1 {} else malloc_state os tls0 M0 a1 {(p, sizeofSensor)}"
    using malloc_aligned [OF malloc_default [OF assms(1)] assms(2), of "cs 0" alignofSensor] by auto
  show ?thesis
  proof (cases "p = 0")
    case True
    then show ?thesis using al by (simp add: placement_new_main_def)
  next
    case False
    have "malloc_state os tls0 M0 (map_option (on_mem (construct_at ?sensor p)) a1) {(p, sizeofSensor)}"
      by (rule malloc_write) (use al(2) False assms(3) in \<open>auto simp: cells_iff\<close>)
    then have "malloc_state os tls0 M0 (map_option (on_mem (destroy_at p)) (map_option (on_mem (construct_at ?sensor p)) a1)) {(p, sizeofSensor)}"
      by (rule malloc_write) (use assms(4) in \<open>auto simp: cells_iff\<close>)
    from malloc_releases [OF this singletonI, of "cs 1"] show ?thesis using al(1) False by (auto simp: placement_new_main_def Let_def)
  qed
qed

text \<open>
  The fragmentation part of the benchmarks, the benchmark example and the placement example return,
  whatever memory the system grants, and have released all they allocated; the last may write what it
  likes into the storage of its object.
\<close>

lemma example_programs_release_everything:
  assumes "fair_start os tls0 M0" "0 < sizeofSensor"
    "\<And>sensor p m x. x \<notin> {p..<p + sizeofSensor} \<Longrightarrow> construct_at sensor p m x = m x"
    "\<And>p m x. x \<notin> {p..<p + sizeofSensor} \<Longrightarrow> destroy_at p m x = m x"
  shows "(\<exists>out a'. churn_main os cs (Allocator_default tls0 M0) = Returns (0, out) a' \<and> malloc_state os tls0 M0 a' {}) \<and>
    (\<exists>a'. measure_with (Allocator_allocate os) (Allocator_deallocate os) cs iterations start finish (Allocator_default tls0 M0) =
      Returns ((finish - start) / 10 ^ 6) a' \<and> malloc_state os tls0 M0 a' {}) \<and>
    (\<exists>code out a'. placement_new_main alignofSensor sizeofSensor construct_at destroy_at os cs (Allocator_default tls0 M0) = Returns (code, out) a' \<and>
      (code, out) \<in> {(1, []), (0, [SensorLine ''thermal-1'' 78.5])} \<and> malloc_state os tls0 M0 a' {})"
  by (intro conjI churn_runs measure_runs placement_runs assms)

text \<open>The end of the basic example: one more request, released at once.\<close>

definition trial :: "os \<Rightarrow> caller \<Rightarrow> caller \<Rightarrow> Allocator \<Rightarrow> (printed_line, Allocator) outcome" where
  "trial os c c' a = and_then (Allocator_tryAllocate os c 128 a) (\<lambda>result a'. case result of
       Inr p \<Rightarrow> and_then (Allocator_deallocate os c' p a') (\<lambda>_ a''. Returns (LineAt ''tryAllocate succeeded at '' p) a'')
     | Inl e \<Rightarrow> Returns (ErrorLine (''tryAllocate failed: '' @ toString e)) a')"

lemma trial_runs:
  assumes "malloc_state os tls0 M0 a R"
  shows "\<exists>x a'. trial os c c' a = Returns x a' \<and> malloc_state os tls0 M0 a' R"
proof -
  obtain r a1 where r: "Allocator_tryAllocate os c 128 a = Returns r a1"
    "case r of Inl e \<Rightarrow> malloc_state os tls0 M0 a1 R | Inr p \<Rightarrow> (p, 128) \<notin> R \<and> malloc_state os tls0 M0 a1 (insert (p, 128) R)"
    using malloc_tries [OF assms zero_less_numeral, of c] by blast
  show ?thesis
  proof (cases r)
    case (Inr p)
    then show ?thesis using r malloc_releases [of os tls0 M0 a1 "insert (p, 128) R" p 128 c'] by (auto simp: trial_def)
  qed (use r in \<open>simp add: trial_def\<close>)
qed

lemma basic_allocation_trial:
  "basic_allocation_main os cs a =
     and_then (Allocator_allocate os (cs 0) 256 a) (\<lambda>buffer a1.
       if buffer = 0 then Returns (1, [ErrorLine ''allocation failed'']) a1
       else
         and_then (Allocator_reallocate os (cs 1) (cs 2) buffer 1024 (map_option (on_mem (memset buffer 0 256)) a1)) (\<lambda>grown a2.
         and_then (Allocator_alignedAllocate os (cs 3) 64 512 a2) (\<lambda>aligned a3.
         and_then (Allocator_deallocate os (cs 4) aligned a3) (\<lambda>_ a4.
         and_then (Allocator_deallocate os (cs 5) grown a4) (\<lambda>_ a5.
         and_then (trial os (cs 6) (cs 7) a5) (\<lambda>last a7.
           Returns (0, [LineAt ''allocated 256 bytes at '' buffer, LineAt ''grown to 1024 bytes at '' grown, LineAt ''aligned block at '' aligned, last]) a7))))))"
  unfolding basic_allocation_main_def trial_def and_then_assoc Let_def
  by (auto simp: and_then_assoc intro!: and_then_cong split: sum.splits)

text \<open>
  C26: the basic example, whatever memory the system grants: it fails at once, or it runs through and has
  released everything, unless growing its buffer failed: \<open>reallocate\<close> then gives null and keeps the
  buffer, but the program has overwritten its only pointer to it.
\<close>

theorem basic_example_loses_its_buffer_only_when_growing_fails:
  assumes "fair_start os tls0 M0"
  shows "(\<exists>a'. basic_allocation_main os cs (Allocator_default tls0 M0) = Returns (1, [ErrorLine ''allocation failed'']) a' \<and> malloc_state os tls0 M0 a' {}) \<or>
    (\<exists>p q r last a'. basic_allocation_main os cs (Allocator_default tls0 M0) =
        Returns (0, [LineAt ''allocated 256 bytes at '' p, LineAt ''grown to 1024 bytes at '' q, LineAt ''aligned block at '' r, last]) a' \<and>
      p \<noteq> 0 \<and> malloc_state os tls0 M0 a' (if q = 0 then {(p, 256)} else {}))"
proof -
  let ?S = "malloc_state os tls0 M0"
  obtain p a1 where p: "Allocator_allocate os (cs 0) 256 (Allocator_default tls0 M0) = Returns p a1" "if p = 0 then ?S a1 {} else ?S a1 {(p, 256)}"
    using malloc_allocates [OF malloc_default [OF assms], of 256 "cs 0"] by auto
  show ?thesis
  proof (cases "p = 0")
    case True
    then show ?thesis using p by (simp add: basic_allocation_main_def)
  next
    case False
    let ?a = "map_option (on_mem (memset p 0 256)) a1"
    have "?S ?a {(p, 256)}" by (rule malloc_write) (use p(2) False in \<open>auto simp: cells_iff memset_def\<close>)
    from malloc_reallocates [OF this singletonI, of 1024 "cs 1" "cs 2"] obtain q a2 where
      q: "Allocator_reallocate os (cs 1) (cs 2) p 1024 ?a = Returns q a2" "?S a2 (if q = 0 then {(p, 256)} else {(q, 1024)})"
      by (auto split: if_splits)
    let ?B = "(if q = 0 then {(p, 256)} else {(q, 1024)}) :: region set" and ?E = "(if q = 0 then {(p, 256)} else {}) :: region set"
    obtain r a3 where r: "Allocator_alignedAllocate os (cs 3) 64 512 a2 = Returns r a3" "if r = 0 then ?S a3 ?B else (r, 512) \<notin> ?B \<and> ?S a3 (insert (r, 512) ?B)"
      using malloc_aligned [OF q(2) zero_less_numeral, of "cs 3" 64] by blast
    obtain a4 where a4: "Allocator_deallocate os (cs 4) r a3 = Returns () a4" "?S a4 ?B"
      using r(2) malloc_releases_null [of os tls0 M0 a3 ?B "cs 4"] malloc_releases [of os tls0 M0 a3 "insert (r, 512) ?B" r 512 "cs 4"]
      by (cases "r = 0") auto
    obtain a5 where a5: "Allocator_deallocate os (cs 5) q a4 = Returns () a5" "?S a5 ?E"
      using a4(2) malloc_releases_null [of os tls0 M0 a4 ?B "cs 5"] malloc_releases [of os tls0 M0 a4 ?B q 1024 "cs 5"]
      by (cases "q = 0") auto
    obtain x a7 where "trial os (cs 6) (cs 7) a5 = Returns x a7" "?S a7 ?E" using trial_runs [OF a5(2)] by blast
    then show ?thesis using p(1) q(1) r(1) a4(1) a5(1) False by (auto simp: basic_allocation_trial)
  qed
qed

theorem basic_example_loses_its_buffer_only_when_growing_fails_witness:
  "\<exists>code out a' R. basic_allocation_main linear_os (\<lambda>_. caller0) (Allocator_default Map.empty blank_machine) = Returns (code, out) a' \<and>
     malloc_state linear_os Map.empty blank_machine a' R"
  using basic_example_loses_its_buffer_only_when_growing_fails [OF fair_linear, of "\<lambda>_. caller0"] by blast

section \<open>The custom allocator\<close>

lemma custom_simps: "enableLeakTracking custom_config" "errorHandler custom_config" "\<not> abortOnError custom_config"
  by (simp_all add: custom_config_def AllocatorConfig_debug_def AllocatorConfig_default_def)

lemma custom_fails:
  "config s = custom_config \<Longrightarrow> fail_with e p s = Returns (Inl e) (s\<lparr>events := events s @ [HandlerCalled e p]\<rparr>)"
  by (simp add: fail_with_def report_def Let_def custom_simps)

text \<open>The release of an address the program never got, at the end of the program.\<close>

lemma custom_stray:
  assumes "fair_start os tls0 M0" "impl_reach True os custom_config tls0 M0 s {}" "p \<noteq> 0" "\<not> wasFreed p (debug s)"
  shows "AllocatorImpl_deallocate os c p s = Returns (Inl InvalidPointer) (s\<lparr>events := events s @ [HandlerCalled InvalidPointer p]\<rparr>)"
    "liveAllocationCount (s\<lparr>events := evs\<rparr>) = 0"
proof -
  have cfg: "config s = custom_config" using reach_holds [OF assms(1,2)] by blast
  show "AllocatorImpl_deallocate os c p s = Returns (Inl InvalidPointer) (s\<lparr>events := events s @ [HandlerCalled InvalidPointer p]\<rparr>)"
    using misuse_spec [OF assms(1,2) custom_simps(1) assms(3), of c c] assms(4) custom_fails [OF cfg] by simp
  show "liveAllocationCount (s\<lparr>events := evs\<rparr>) = 0"
    using leaks_spec [OF assms(1,2) custom_simps(1)] by (simp add: liveAllocationCount_def)
qed

lemma allocated_debug:
  assumes "AllocatorImpl_allocate os c n s = Returns (Inr p) s'"
  shows "debug s' = (if enableLeakTracking (config s) then track (liveRoom c) p (asked n) (debug s) else debug s)"
proof -
  obtain k v s1 where b: "allocate_begin os c n s = Returns (Inr (p, k, v)) s1" "s' = register_step c p k (count_step k v s1)"
    using assms unfolding allocate_steps then_finish_def
    by (cases "allocate_begin os c n s") (auto split: sum.splits)
  note same = dressed_same [where f = "allocate_begin os c n", OF allocate_begin_dress b(1)]
  have "k = asked n" using b(1) begin_size(1) by blast
  then show ?thesis using b(2) same by (simp add: register_step_def count_step_def)
qed

text \<open>The program when its request is granted, and when it is refused.\<close>

definition custom_outcome :: "os \<Rightarrow> addr \<Rightarrow> addr \<Rightarrow> (nat \<times> printed_line list, Allocator) outcome \<Rightarrow> bool" where
  "custom_outcome os stackValue block r \<longleftrightarrow>
     (\<exists>s. r = Returns (0, [LineAt ''debug-mode block at '' block, LineNumber ''live allocations: '' 0]) (Some s) \<and>
        events s = [if block = 0 then HandlerCalled OutOfMemory 0 else HandlerCalled DoubleFree block, HandlerCalled InvalidPointer stackValue] \<and>
        snd (snd (AllocatorImpl_destroy os s)) = events s)"

lemmas custom_run = custom_allocator_main_def Allocator_make_def Allocator_allocate_def Allocator_deallocate_def value_or_null_def
  Allocator_liveAllocationCount_def

lemma custom_quiet: "liveAllocationCount s = 0 \<Longrightarrow> snd (snd (AllocatorImpl_destroy os s)) = events s"
  by (simp add: AllocatorImpl_destroy_def liveAllocationCount_def Let_def)

lemma custom_granted:
  assumes "fair_start os tls0 M0" "\<And>k. liveRoom (cs k) \<and> freedRoom (cs k)" "stackValue \<noteq> 0" "stackValue \<in> mapped_cells M0"
    "AllocatorImpl_allocate os (cs 0) 128 (AllocatorImpl_make custom_config tls0 M0) = Returns (Inr p) s1"
    "granted (AllocatorImpl_make custom_config tls0 M0) {} p 128 s1" "impl_reach True os custom_config tls0 M0 s1 {(p, 128)}"
  shows "custom_outcome os stackValue p (custom_allocator_main os cs stackValue (Allocator_make custom_config tls0 M0))"
proof -
  let ?R = "impl_reach True os custom_config tls0 M0"
  have d1: "debug s1 = track True p 128 DebugLayer_init" using allocated_debug [OF assms(5)] assms(2) by (simp add: custom_simps asked_def)
  have "{p..<p + 128} \<subseteq> - mapped_cells M0" using reachable_safe_spec [OF assms(1,7)] by auto
  then have other: "stackValue \<noteq> p" using assms(4) by (auto simp: subset_iff)
  obtain s2 where s2: "AllocatorImpl_deallocate os (cs 1) p s1 = Returns (Inr ()) s2" "events s2 = events s1" "?R s2 {}"
    "debug s2 = snd (untrack True p (debug s1))"
    using release_live [OF assms(1,7) singletonI, of "cs 1"] assms(2) custom_simps(1) by auto
  have cfg: "config s2 = custom_config" using reach_holds [OF assms(1) s2(3)] by blast
  have "AllocatorImpl_deallocate os (cs 2) p s2 = fail_with DoubleFree p s2"
    using double_free_spec [OF assms(1,7) singletonI custom_simps(1), of "cs 1" "cs 2"] assms(2) s2(1) by auto
  then have twice: "AllocatorImpl_deallocate os (cs 2) p s2 = Returns (Inl DoubleFree) (s2\<lparr>events := events s2 @ [HandlerCalled DoubleFree p]\<rparr>)"
    using custom_fails [OF cfg] by simp
  have "\<not> wasFreed stackValue (debug (s2\<lparr>events := events s2 @ [HandlerCalled DoubleFree p]\<rparr>))" using d1 s2(4) other
    by (simp add: wasFreed_def untrack_def track_def isTracked_def DebugLayer_init_def)
  note stray = custom_stray [OF assms(1) impl_reach.other_output [OF s2(3)] assms(3) this]
  have "events s1 = []" "p \<noteq> 0" using assms(6) by (simp_all add: granted_def)
  then show ?thesis using assms(5) s2(1,2) twice stray(1) [of "cs 3"] stray(2) custom_quiet by (simp add: custom_outcome_def custom_run)
qed

lemma custom_refused:
  assumes "fair_start os tls0 M0" "liveRoom (cs 0)" "stackValue \<noteq> 0"
    "fails (AllocatorImpl_make custom_config tls0 M0) {} OutOfMemory 0
       (AllocatorImpl_allocate os (cs 0) 128 (AllocatorImpl_make custom_config tls0 M0))"
  shows "custom_outcome os stackValue 0 (custom_allocator_main os cs stackValue (Allocator_make custom_config tls0 M0))"
proof -
  obtain s1 where f: "AllocatorImpl_allocate os (cs 0) 128 (AllocatorImpl_make custom_config tls0 M0) = Returns (Inl OutOfMemory) s1"
    "events s1 = [HandlerCalled OutOfMemory 0]" "debug s1 = DebugLayer_init"
    using assms(4) by (auto simp: fails_def custom_simps error_event_def split: if_splits)
  have r1: "impl_reach True os custom_config tls0 M0 s1 {}"
    by (rule impl_reach.not_allocated [OF impl_reach.make _ f(1)]) (use assms(2) in simp)
  have "\<not> wasFreed stackValue (debug s1)" using f(3) by (simp add: wasFreed_def DebugLayer_init_def)
  note stray = custom_stray [OF assms(1) r1 assms(3) this]
  have "AllocatorImpl_deallocate os c 0 s1 = Returns (Inr ()) s1" for c by (simp add: AllocatorImpl_deallocate_def)
  then show ?thesis using f(1,2) stray(1) [of "cs 3"] stray(2) custom_quiet by (simp add: custom_outcome_def custom_run)
qed

text \<open>
  C25: the custom allocator with its debug configuration, whatever memory the system grants and with room
  for the registry: the error handler is called for the second release of the block and for the release
  of a local variable, with just these errors and addresses, and for nothing else but a refused request;
  the program counts no live allocation, and its end prints no leak.
\<close>

theorem custom_allocator_reports_its_errors:
  assumes "fair_start os tls0 M0" "\<And>k. liveRoom (cs k) \<and> freedRoom (cs k)" "stackValue \<noteq> 0" "stackValue \<in> mapped_cells M0"
  shows "\<exists>block s. custom_allocator_main os cs stackValue (Allocator_make custom_config tls0 M0) =
      Returns (0, [LineAt ''debug-mode block at '' block, LineNumber ''live allocations: '' 0]) (Some s) \<and>
    events s = [if block = 0 then HandlerCalled OutOfMemory 0 else HandlerCalled DoubleFree block, HandlerCalled InvalidPointer stackValue] \<and>
    snd (snd (AllocatorImpl_destroy os s)) = events s"
proof -
  let ?s0 = "AllocatorImpl_make custom_config tls0 M0"
  have "\<not> kMaxRequest < asked 128" by (simp add: asked_def const_simps)
  then have "(\<exists>p s1. AllocatorImpl_allocate os (cs 0) 128 ?s0 = Returns (Inr p) s1 \<and> granted ?s0 {} p 128 s1 \<and>
        impl_reach True os custom_config tls0 M0 s1 {(p, 128)}) \<or>
      fails ?s0 {} OutOfMemory 0 (AllocatorImpl_allocate os (cs 0) 128 ?s0)"
    using allocate_spec [where full = True and cfg = custom_config and c = "cs 0" and n = 128, OF assms(1) impl_reach.make] assms(2)
    by (auto simp: asked_def)
  then have "\<exists>block. custom_outcome os stackValue block (custom_allocator_main os cs stackValue (Allocator_make custom_config tls0 M0))"
    using custom_granted [where cs = cs, OF assms] custom_refused [where cs = cs, OF assms(1) _ assms(3)] assms(2) [of 0] by blast
  then show ?thesis by (simp add: custom_outcome_def)
qed

text \<open>A machine with one page mapped, for the stack.\<close>

lemma fair_stack: "fair_start linear_os Map.empty (blank_machine\<lparr>mapped := [(4096, 4096)]\<rparr>)"
  by (simp add: fair_start_def linear_os_ok machine_ok_def all_expired_def)

theorem custom_allocator_reports_its_errors_witness:
  "\<exists>block s. custom_allocator_main linear_os (\<lambda>_. caller0) 5000 (Allocator_make custom_config Map.empty (blank_machine\<lparr>mapped := [(4096, 4096)]\<rparr>)) =
      Returns (0, [LineAt ''debug-mode block at '' block, LineNumber ''live allocations: '' 0]) (Some s) \<and>
    events s = [if block = 0 then HandlerCalled OutOfMemory 0 else HandlerCalled DoubleFree block, HandlerCalled InvalidPointer 5000]"
proof -
  have "5000 \<in> mapped_cells (blank_machine\<lparr>mapped := [(4096, 4096)]\<rparr>)" by (simp add: mapped_cells_def cells_def)
  from custom_allocator_reports_its_errors [where cs = "\<lambda>_. caller0" and stackValue = 5000, OF fair_stack _ _ this]
  show ?thesis by fastforce
qed

end
