(* ===== verification/BenchmarkMain.thy ===== *)
theory BenchmarkMain
  imports ExampleProperties
begin

text \<open>
  The two programs that compare allocators, \<^verbatim>\<open>benchmarks/main.cpp\<close> and \<^verbatim>\<open>examples/benchmark_example.cpp\<close>.
  Their state is that of the compared allocators, a parameter, beside an allocator of this library.
\<close>

section \<open>Two allocators side by side\<close>

fun behind :: "'s \<Rightarrow> ('a, 'u) outcome \<Rightarrow> ('a, 's \<times> 'u) outcome" where
  "behind s (Returns x u) = Returns x (s, u)"
| "behind s (Aborts u) = Aborts (s, u)"
| "behind s Undefined = Undefined"
| "behind s Diverges = Diverges"

definition on_left :: "('c, 's) AllocatorAdapter \<Rightarrow> ('c, 's \<times> 'u) AllocatorAdapter" where
  "on_left ad = \<lparr>adapter_name = adapter_name ad, adapter_allocate = (\<lambda>c n (s, u). beside u (adapter_allocate ad c n s)),
     adapter_deallocate = (\<lambda>c p n (s, u). beside u (adapter_deallocate ad c p n s)), threadSafe = threadSafe ad\<rparr>"

definition on_right :: "('c, 'u) AllocatorAdapter \<Rightarrow> ('c, 's \<times> 'u) AllocatorAdapter" where
  "on_right ad = \<lparr>adapter_name = adapter_name ad, adapter_allocate = (\<lambda>c n (s, u). behind s (adapter_allocate ad c n u)),
     adapter_deallocate = (\<lambda>c p n (s, u). behind s (adapter_deallocate ad c p n u)), threadSafe = threadSafe ad\<rparr>"

section \<open>The example\<close>

definition benchmark_example_main ::
    "(caller \<Rightarrow> nat \<Rightarrow> 's \<Rightarrow> (addr, 's) outcome) \<Rightarrow> (caller \<Rightarrow> addr \<Rightarrow> 's \<Rightarrow> (unit, 's) outcome) \<Rightarrow> os \<Rightarrow> (nat \<Rightarrow> caller) \<Rightarrow> (nat \<Rightarrow> caller) \<Rightarrow>
      (nat \<Rightarrow> real) \<Rightarrow> 's \<times> Allocator \<Rightarrow> (nat \<times> printed_line list, 's \<times> Allocator) outcome" where
  "benchmark_example_main malloc free os cs cs' clock = (\<lambda>(s, a).
     and_then (beside a (measure_with malloc free cs 200000 (clock 0) (clock 1) s)) (\<lambda>mallocTime (s1, a1).
     and_then (behind s1 (measure_with (Allocator_allocate os) (Allocator_deallocate os) cs' 200000 (clock 2) (clock 3) a1)) (\<lambda>mallocLibTime sa.
       Returns (0, [LineNumber '' small allocations + frees: '' 200000, MillisLine ''std::malloc : '' mallocTime,
         MillisLine ''m-alloc     : '' mallocLibTime]) sa)))"

section \<open>The benchmark suite\<close>

text \<open>
  The functions of the compared allocators.  The adapter of jemalloc calls the \<^verbatim>\<open>malloc\<close> of the program,
  which jemalloc replaces where it is linked.
\<close>

record ('c, 's) foreign_allocators =
  f_malloc :: "'c \<Rightarrow> nat \<Rightarrow> 's \<Rightarrow> (addr, 's) outcome"
  f_free :: "'c \<Rightarrow> addr \<Rightarrow> 's \<Rightarrow> (unit, 's) outcome"
  f_pool_allocate :: "'c \<Rightarrow> nat \<Rightarrow> 's \<Rightarrow> (addr, 's) outcome"
  f_pool_deallocate :: "'c \<Rightarrow> addr \<Rightarrow> nat \<Rightarrow> 's \<Rightarrow> (unit, 's) outcome"
  f_mi_malloc :: "'c \<Rightarrow> nat \<Rightarrow> 's \<Rightarrow> (addr, 's) outcome"
  f_mi_free :: "'c \<Rightarrow> addr \<Rightarrow> 's \<Rightarrow> (unit, 's) outcome"

definition foreign_adapter :: "(caller, 's) foreign_allocators \<Rightarrow> adapter_kind \<Rightarrow> (caller, 's) AllocatorAdapter" where
  "foreign_adapter F k = (case k of
       PmrPool \<Rightarrow> PmrPoolAdapter (f_pool_allocate F) (f_pool_deallocate F)
     | Mimalloc \<Rightarrow> MimallocAdapter (f_mi_malloc F) (f_mi_free F)
     | Jemalloc \<Rightarrow> JemallocAdapter (f_malloc F) (f_free F)
     | _ \<Rightarrow> SystemMallocAdapter (f_malloc F) (f_free F))"

definition suite_adapter :: "(caller, 's) foreign_allocators \<Rightarrow> os \<Rightarrow> adapter_kind \<Rightarrow> (caller, 's \<times> Allocator) AllocatorAdapter" where
  "suite_adapter F os k = (if k = MAlloc then on_right (MAllocAdapter os) else on_left (foreign_adapter F k))"

text \<open>What one run of the runner meets: room for its own arrays, callers, clock, sizes, threads and their schedule, memory use.\<close>

record 'c run_env =
  env_room :: "runner_storage \<Rightarrow> bool"
  env_latency :: "nat \<Rightarrow> 'c"
  env_throughput :: "nat \<Rightarrow> 'c"
  env_workers :: "nat \<Rightarrow> nat \<Rightarrow> 'c"
  env_clock :: "nat \<Rightarrow> real"
  env_sizes :: "nat \<Rightarrow> nat \<Rightarrow> nat \<Rightarrow> nat \<Rightarrow> nat"
  env_threads :: nat
  env_schedule :: "nat list"
  env_rss :: "nat option"

definition run_in :: "'c run_env \<Rightarrow> nat \<Rightarrow> ('c, 's) AllocatorAdapter \<Rightarrow> 's \<Rightarrow> (BenchmarkResult, 's) outcome" where
  "run_in env iterations ad s = Runner_run (env_room env) ad (env_latency env) (env_throughput env) (env_workers env) (env_clock env) (env_sizes env)
     (env_threads env) (env_schedule env) (env_rss env) iterations s"

definition table_row :: "string \<Rightarrow> BenchmarkResult \<Rightarrow> printed_line" where
  "table_row name result = RowLine name (allocateNanosPerOp result) (deallocateNanosPerOp result) (throughputMopsPerSec result)
     (multiThreadMopsPerSec result) (real (peakRssBytes result) / (1024 * 1024))"

fun table_loop ::
    "(adapter_kind \<Rightarrow> caller run_env) \<Rightarrow> nat \<Rightarrow> (caller, 's) foreign_allocators \<Rightarrow> os \<Rightarrow> adapter_kind list \<Rightarrow> 's \<times> Allocator \<Rightarrow>
      (printed_line list, 's \<times> Allocator) outcome" where
  "table_loop env iterations F os [] sa = Returns [] sa"
| "table_loop env iterations F os (k # ks) sa =
     and_then (run_in (env k) iterations (suite_adapter F os k) sa) (\<lambda>result sa1.
     and_then (table_loop env iterations F os ks sa1) (\<lambda>rows sa2.
       Returns (table_row (adapter_name (suite_adapter F os k)) result # rows) sa2))"

text \<open>
  The allocator of the churn is made when the table is done, in the memory as it is then; \<open>tls1\<close> are the
  thread caches its central state finds.
\<close>

definition machine_of :: "Allocator \<Rightarrow> machine" where
  "machine_of a = (case a of None \<Rightarrow> blank_machine | Some s \<Rightarrow> world s)"

definition benchmarks_main ::
    "string list \<Rightarrow> bool \<Rightarrow> bool \<Rightarrow> (adapter_kind \<Rightarrow> caller run_env) \<Rightarrow> (caller, 's) foreign_allocators \<Rightarrow> os \<Rightarrow> (nat \<Rightarrow> caller) \<Rightarrow> tls \<Rightarrow>
      's \<times> Allocator \<Rightarrow> (nat \<times> printed_line list, ('s \<times> Allocator) \<times> Allocator) outcome" where
  "benchmarks_main argv have_mimalloc have_jemalloc env F os cs tls1 sa =
     (case main_iterations argv of
        None \<Rightarrow> Returns (1, [ErrorLine (''usage: '' @ argv ! 0 @ '' [iterations]'')]) (sa, None)
      | Some iterations \<Rightarrow>
          and_then (beside None (table_loop env iterations F os (makeAdapters have_mimalloc have_jemalloc) sa)) (\<lambda>rows (sa1, _).
          and_then (behind sa1 (churn_main os cs (Allocator_default tls1 (machine_of (snd sa1))))) (\<lambda>(code, out) state.
            Returns (code, [LineNumber ''m-alloc benchmark suite, iterations per scenario: '' iterations,
              Line ''allocator, alloc ns/op, free ns/op, 1T Mops/s, MT Mops/s, peak RSS MB''] @ rows @ [Line ''''] @ out) state)))"

section \<open>The runner over the contract of an adapter\<close>

text \<open>
  Sizes in their ranges, a schedule that lets the workers finish, and no array of more pointers than the
  longest vector has: its bytes must fit a signed 64-bit number.
\<close>

definition env_ok :: "nat \<Rightarrow> 'c run_env \<Rightarrow> bool" where
  "env_ok iterations env \<longleftrightarrow> uniform (env_sizes env) \<and>
     fair_schedule (threadCount_for (env_threads env)) (2 * (iterations div threadCount_for (env_threads env))) (env_schedule env) \<and>
     (env_room env Pointers \<longrightarrow> iterations < 2 ^ 60)"

context lender
begin

lemma run_in_holding:
  assumes "inv s A" "env_ok iterations env" "threadSafe ad"
  shows "ends (throws \<or> (\<exists>v. \<not> env_room env v)) (run_in env iterations ad s) (\<lambda>_ s'. inv s' A)"
proof -
  have sizes: "0 < env_sizes env seed 16 8192 i" "0 < env_sizes env seed 16 2048 i" for seed i
    using uniform_positive [of "env_sizes env"] assms(2) by (auto simp: env_ok_def)
  have turns: "2 * (iterations div threadCount_for (env_threads env)) \<le> count_list (env_schedule env) t" if "t < threadCount_for (env_threads env)" for t
    using assms(2) that by (simp add: env_ok_def fair_schedule_def)
  show ?thesis unfolding run_in_def
    by (rule ends_mono [OF Runner_run_holding [where sizeDist = "env_sizes env" and hw = "env_threads env" and schedule = "env_schedule env"
          and iterations = iterations and room = "env_room env", OF assms(1) sizes assms(3) turns]]) auto
qed

end

text \<open>An adapter keeps its contract beside another allocator.\<close>

lemma ends_behind: "ends t (behind s r) P \<longleftrightarrow> ends t r (\<lambda>x u. P x (s, u))"
  by (cases r) auto

lemma left_contract:
  fixes ad :: "('c, 's) AllocatorAdapter" and J :: "'u \<Rightarrow> bool"
  assumes "lender ad I throws nulls"
  shows "lender (on_left ad) (\<lambda>su R. I (fst su) R \<and> J (snd su)) throws nulls"
proof
  note ad = lender.allocates [OF assms] lender.releases [OF assms] lender.releases_null [OF assms]
  fix su :: "'s \<times> 'u" and R n c p
  obtain s u where su: "su = (s, u)" by fastforce
  show "ends throws (adapter_allocate (on_left ad) c n su)
      (\<lambda>p su'. if p = 0 then nulls \<and> I (fst su') R \<and> J (snd su') else (p, n) \<notin> R \<and> I (fst su') (insert (p, n) R) \<and> J (snd su'))"
    if "I (fst su) R \<and> J (snd su)" "0 < n" unfolding su on_left_def AllocatorAdapter.simps prod.case ends_beside fst_conv snd_conv
    by (rule ends_mono [OF ad(1)]) (use that su in \<open>auto split: if_splits\<close>)
  show "\<exists>su'. adapter_deallocate (on_left ad) c p n su = Returns () su' \<and> I (fst su') (R - {(p, n)}) \<and> J (snd su')"
    if "I (fst su) R \<and> J (snd su)" "(p, n) \<in> R" using ad(2) [of s R p n c] that su by (fastforce simp: on_left_def)
  show "\<exists>su'. adapter_deallocate (on_left ad) c 0 n su = Returns () su' \<and> I (fst su') R \<and> J (snd su')"
    if nulls "I (fst su) R \<and> J (snd su)" using ad(3) [of s R c n] that su by (fastforce simp: on_left_def)
qed

lemma right_contract:
  fixes ad :: "('c, 'u) AllocatorAdapter" and J :: "'s \<Rightarrow> bool"
  assumes "lender ad I throws nulls"
  shows "lender (on_right ad) (\<lambda>su R. J (fst su) \<and> I (snd su) R) throws nulls"
proof
  note ad = lender.allocates [OF assms] lender.releases [OF assms] lender.releases_null [OF assms]
  fix su :: "'s \<times> 'u" and R n c p
  obtain s u where su: "su = (s, u)" by fastforce
  show "ends throws (adapter_allocate (on_right ad) c n su)
      (\<lambda>p su'. if p = 0 then nulls \<and> J (fst su') \<and> I (snd su') R else (p, n) \<notin> R \<and> J (fst su') \<and> I (snd su') (insert (p, n) R))"
    if "J (fst su) \<and> I (snd su) R" "0 < n" unfolding su on_right_def AllocatorAdapter.simps prod.case ends_behind fst_conv snd_conv
    by (rule ends_mono [OF ad(1)]) (use that su in \<open>auto split: if_splits\<close>)
  show "\<exists>su'. adapter_deallocate (on_right ad) c p n su = Returns () su' \<and> J (fst su') \<and> I (snd su') (R - {(p, n)})"
    if "J (fst su) \<and> I (snd su) R" "(p, n) \<in> R" using ad(2) [of u R p n c] that su by (fastforce simp: on_right_def)
  show "\<exists>su'. adapter_deallocate (on_right ad) c 0 n su = Returns () su' \<and> J (fst su') \<and> I (snd su') R"
    if nulls "J (fst su) \<and> I (snd su) R" using ad(3) [of u R c n] that su by (fastforce simp: on_right_def)
qed

section \<open>The programs return what they took\<close>

text \<open>
  The compared allocators keep the contract of their adapters: \<open>I s H\<close> says that in their common state \<open>s\<close>
  the allocator behind the adapter \<open>k\<close> has handed out the blocks \<open>H k\<close>.  A call of one keeps what the
  others have handed out, and takes back only blocks of its own.  The pool throws when it has no memory and
  never returns null; the others return null.
\<close>

definition pool_throws :: "(caller, 's) foreign_allocators \<Rightarrow> bool" where
  "pool_throws F \<longleftrightarrow> (\<exists>c n s s'. f_pool_allocate F c n s = Aborts s')"

definition foreign_ok :: "('s \<Rightarrow> (adapter_kind \<Rightarrow> region set) \<Rightarrow> bool) \<Rightarrow> (caller, 's) foreign_allocators \<Rightarrow> bool" where
  "foreign_ok I F \<longleftrightarrow> (\<forall>H. lender (foreign_adapter F PmrPool) (\<lambda>s R. I s (H(PmrPool := R))) (pool_throws F) False) \<and>
     (\<forall>H. \<forall>k \<in> {SystemMalloc, Mimalloc, Jemalloc}. lender (foreign_adapter F k) (\<lambda>s R. I s (H(k := R))) False True)"

lemma foreign_okD:
  assumes "foreign_ok I F" "k \<noteq> MAlloc"
  shows "lender (foreign_adapter F k) (\<lambda>s R. I s (H(k := R))) (k = PmrPool \<and> pool_throws F) (k \<noteq> PmrPool)"
  using assms by (cases k) (auto simp: foreign_ok_def)

lemma suite_threadSafe: "threadSafe (suite_adapter F os k)"
  by (cases k) (simp_all add: suite_adapter_def foreign_adapter_def on_left_def on_right_def SystemMallocAdapter_def
      PmrPoolAdapter_def MAllocAdapter_def MimallocAdapter_def JemallocAdapter_def)

lemma suite_run:
  assumes "foreign_ok I F" "I (fst sa) (\<lambda>_. {})" "malloc_state os tls0 M0 (snd sa) {}" "env_ok iterations env"
  shows "ends (k = PmrPool \<and> pool_throws F \<or> (\<exists>v. \<not> env_room env v)) (run_in env iterations (suite_adapter F os k) sa)
    (\<lambda>_ sa'. I (fst sa') (\<lambda>_. {}) \<and> malloc_state os tls0 M0 (snd sa') {})"
proof (cases "k = MAlloc")
  case True
  have "lender (on_right (MAllocAdapter os)) (\<lambda>su R. I (fst su) (\<lambda>_. {}) \<and> malloc_state os tls0 M0 (snd su) R) False True"
    by (rule right_contract [OF malloc.lender_axioms])
  from lender.run_in_holding [OF this _ assms(4), of sa "{}"] show ?thesis
    using assms(2,3) True suite_threadSafe [of F os MAlloc] by (auto simp: suite_adapter_def elim: ends_mono)
next
  case False
  have no: "(\<lambda>_. {})(k := {}) = (\<lambda>_. {})" by (simp add: fun_eq_iff)
  note con = foreign_okD [OF assms(1) False, of "\<lambda>_. {}"]
  from lender.run_in_holding [OF left_contract [OF con, of "\<lambda>a. malloc_state os tls0 M0 a {}"] _ assms(4), of sa "{}"]
  show ?thesis using assms(2,3) False suite_threadSafe [of F os k] by (simp add: suite_adapter_def no)
qed

fun row_name :: "printed_line \<Rightarrow> string" where
  "row_name (RowLine name a d t m rss) = name"
| "row_name _ = ''''"

text \<open>The pool may have thrown, or a run has not got what it needs for itself.\<close>

definition may_throw :: "(caller, 's) foreign_allocators \<Rightarrow> (adapter_kind \<Rightarrow> caller run_env) \<Rightarrow> adapter_kind list \<Rightarrow> bool" where
  "may_throw F env ks \<longleftrightarrow> PmrPool \<in> set ks \<and> pool_throws F \<or> (\<exists>k \<in> set ks. \<exists>v. \<not> env_room (env k) v)"

lemma table_rows:
  assumes "foreign_ok I F" "I (fst sa) (\<lambda>_. {})" "malloc_state os tls0 M0 (snd sa) {}" "\<And>k. env_ok iterations (env k)" "set ks \<subseteq> set all"
  shows "ends (may_throw F env all) (table_loop env iterations F os ks sa) (\<lambda>rows sa'.
    map row_name rows = map (\<lambda>k. adapter_name (suite_adapter F os k)) ks \<and> I (fst sa') (\<lambda>_. {}) \<and> malloc_state os tls0 M0 (snd sa') {})"
  using assms(2,3,5)
proof (induction ks arbitrary: sa)
  case (Cons k ks)
  have run: "ends (may_throw F env all) (run_in (env k) iterations (suite_adapter F os k) sa)
      (\<lambda>_ sa'. I (fst sa') (\<lambda>_. {}) \<and> malloc_state os tls0 M0 (snd sa') {})"
    by (rule ends_mono [OF suite_run [OF assms(1) Cons.prems(1,2) assms(4) [of k]]]) (use Cons.prems(3) in \<open>auto simp: may_throw_def\<close>)
  show ?case unfolding table_loop.simps
  proof (rule ends_and_then [OF run], elim conjE)
    fix r sa1 assume "I (fst sa1) (\<lambda>_. {})" "malloc_state os tls0 M0 (snd sa1) {}"
    from Cons.IH [OF this] Cons.prems(3)
    show "ends (may_throw F env all) (and_then (table_loop env iterations F os ks sa1) (\<lambda>rows sa2.
        Returns (table_row (adapter_name (suite_adapter F os k)) r # rows) sa2)) (\<lambda>rows sa'.
      map row_name rows = map (\<lambda>k. adapter_name (suite_adapter F os k)) (k # ks) \<and> I (fst sa') (\<lambda>_. {}) \<and> malloc_state os tls0 M0 (snd sa') {})"
      by (auto simp: table_row_def intro: ends_and_then)
  qed
qed simp

lemma fair_again:
  assumes "malloc_state os tls0 M0 a R" "all_expired tls1"
  shows "fair_start os tls1 (machine_of a)"
proof -
  obtain s where s: "fair_start os tls0 M0" "a = Some s" "impl_reach False os AllocatorConfig_default tls0 M0 s R" by (rule malloc_stateE [OF assms(1)])
  obtain L where "impl_inv False os s L" using reach_holds [OF s(1,3)] by blast
  then have "machine_ok (world s)" using tiers.inv_machine [OF impl_invD(3)] by blast
  then show ?thesis using s(1,2) assms(2) by (simp add: fair_start_def machine_of_def)
qed

lemma adapter_rows:
  "map (\<lambda>k. adapter_name (suite_adapter F os k)) (makeAdapters mi je) = [''std::malloc'', ''std::pmr::synchronized_pool_resource'', ''m-alloc''] @
      (if mi then [''mimalloc''] else []) @ (if je then [''jemalloc''] else [])"
  by (simp add: makeAdapters_def suite_adapter_def foreign_adapter_def on_left_def on_right_def SystemMallocAdapter_def
      PmrPoolAdapter_def MAllocAdapter_def MimallocAdapter_def JemallocAdapter_def)

lemma no_table:
  assumes "\<not> env_room (env SystemMalloc) Pointers"
  shows "table_loop env n F os (makeAdapters mi je) sa = Aborts sa"
  using assms by (simp add: makeAdapters_def run_in_def Runner_run_no_room)

text \<open>
  C23: the benchmark suite, with compared allocators that each keep the contract of their adapter, apart
  from one another, and workers that get their turns.  A first argument that is not a positive number ends
  it with status 1 and its usage.  Otherwise it prints a row for each adapter of the build, in order, and
  the fragmentation of the churn, and ends with status 0, and nothing any of the allocators handed out is
  left; unless an exception ends it, because the pool throws or the runner does not get an array or a
  thread it needs.  That always happens when the number, such as that of \<^verbatim>\<open>-1\<close>, is more than a vector of
  pointers can hold.
\<close>

theorem benchmark_suite_runs:
  assumes "fair_start os tls0 M0" "foreign_ok I F" "I s (\<lambda>_. {})" "all_expired tls1"
    "\<And>n k. main_iterations argv = Some n \<Longrightarrow> env_ok n (env k)"
  shows "case main_iterations argv of
      None \<Rightarrow> benchmarks_main argv mi je env F os cs tls1 (s, Allocator_default tls0 M0) =
        Returns (1, [ErrorLine (''usage: '' @ argv ! 0 @ '' [iterations]'')]) ((s, Allocator_default tls0 M0), None)
    | Some n \<Rightarrow>
        ((\<exists>rows out s' a b. benchmarks_main argv mi je env F os cs tls1 (s, Allocator_default tls0 M0) =
            Returns (0, [LineNumber ''m-alloc benchmark suite, iterations per scenario: '' n,
              Line ''allocator, alloc ns/op, free ns/op, 1T Mops/s, MT Mops/s, peak RSS MB''] @ rows @ [Line ''''] @ out) ((s', a), b) \<and>
          map row_name rows = [''std::malloc'', ''std::pmr::synchronized_pool_resource'', ''m-alloc''] @
            (if mi then [''mimalloc''] else []) @ (if je then [''jemalloc''] else []) \<and>
          I s' (\<lambda>_. {}) \<and> malloc_state os tls0 M0 a {} \<and> malloc_state os tls1 (machine_of a) b {}) \<or>
         (\<exists>st. benchmarks_main argv mi je env F os cs tls1 (s, Allocator_default tls0 M0) = Aborts st) \<and>
         (pool_throws F \<or> (\<exists>k \<in> set (makeAdapters mi je). \<exists>v. \<not> env_room (env k) v))) \<and>
        (2 ^ 60 \<le> n \<longrightarrow> (\<exists>st. benchmarks_main argv mi je env F os cs tls1 (s, Allocator_default tls0 M0) = Aborts st))"
proof (cases "main_iterations argv")
  case None
  then show ?thesis by (simp add: benchmarks_main_def)
next
  case (Some n)
  let ?sa = "(s, Allocator_default tls0 M0)"
  have start: "I (fst ?sa) (\<lambda>_. {})" "malloc_state os tls0 M0 (snd ?sa) {}"
    using assms(3) malloc_default [OF assms(1)] by simp_all
  have long: "\<exists>st. benchmarks_main argv mi je env F os cs tls1 ?sa = Aborts st" if "2 ^ 60 \<le> n"
  proof -
    have "\<not> env_room (env SystemMalloc) Pointers" using assms(5) [OF Some, of SystemMalloc] that by (auto simp: env_ok_def)
    then show ?thesis using Some by (simp add: benchmarks_main_def no_table)
  qed
  from table_rows [where env = env and iterations = n and ks = "makeAdapters mi je", OF assms(2) start assms(5) [OF Some] subset_refl]
  consider (rows) rows s' a where "table_loop env n F os (makeAdapters mi je) ?sa = Returns rows (s', a)"
      "map row_name rows = map (\<lambda>k. adapter_name (suite_adapter F os k)) (makeAdapters mi je)" "I s' (\<lambda>_. {})" "malloc_state os tls0 M0 a {}"
    | (thrown) st where "table_loop env n F os (makeAdapters mi je) ?sa = Aborts st" "may_throw F env (makeAdapters mi je)"
    by (auto simp: ends_cases)
  then show ?thesis
  proof cases
    case rows
    obtain out b where "churn_main os cs (Allocator_default tls1 (machine_of a)) = Returns (0, out) b" "malloc_state os tls1 (machine_of a) b {}"
      using churn_runs [OF fair_again [OF rows(4) assms(4)]] by blast
    moreover from this have "benchmarks_main argv mi je env F os cs tls1 ?sa =
        Returns (0, [LineNumber ''m-alloc benchmark suite, iterations per scenario: '' n,
          Line ''allocator, alloc ns/op, free ns/op, 1T Mops/s, MT Mops/s, peak RSS MB''] @ rows @ [Line ''''] @ out) ((s', a), b)"
      using Some rows(1) by (simp add: benchmarks_main_def)
    ultimately show ?thesis unfolding Some option.case using rows(2-4) adapter_rows long by metis
  next
    case thrown
    then have "\<exists>st. benchmarks_main argv mi je env F os cs tls1 ?sa = Aborts st" using Some by (simp add: benchmarks_main_def)
    then show ?thesis unfolding Some option.case using thrown(2) by (auto simp: may_throw_def)
  qed
qed

text \<open>An allocator that never takes anything back, in the place of every compared one, and two threads that take turns.\<close>

definition bump_foreign :: "(caller, nat) foreign_allocators" where
  "bump_foreign = \<lparr>f_malloc = (\<lambda>_ _ s. Returns (Suc s) (Suc s)), f_free = (\<lambda>_ _ s. Returns () s),
     f_pool_allocate = (\<lambda>_ _ s. Returns (Suc s) (Suc s)), f_pool_deallocate = (\<lambda>_ _ _ s. Returns () s),
     f_mi_malloc = (\<lambda>_ _ s. Returns (Suc s) (Suc s)), f_mi_free = (\<lambda>_ _ s. Returns () s)\<rparr>"

definition two_turns :: "caller run_env" where
  "two_turns = \<lparr>env_room = (\<lambda>_. True), env_latency = (\<lambda>_. caller0), env_throughput = (\<lambda>_. caller0),
     env_workers = (\<lambda>t _. caller0\<lparr>thread := t\<rparr>), env_clock = real,
     env_sizes = (\<lambda>_ a _ _. a), env_threads = 2, env_schedule = [0, 1, 1, 0], env_rss = None\<rparr>"

lemma bump_lender:
  assumes "adapter_allocate ad = (\<lambda>_ _ s. Returns (Suc s) (Suc s))" "adapter_deallocate ad = (\<lambda>_ _ _ s. Returns () s)"
  shows "lender ad (\<lambda>s R. \<forall>j. \<forall>(p, n) \<in> (H(k := R)) j. p \<le> s) throws nulls"
  by unfold_locales (use assms in \<open>fastforce split: if_splits\<close>)+

lemma bump_foreign_ok: "foreign_ok (\<lambda>s H. \<forall>j. \<forall>(p, n) \<in> H j. p \<le> s) bump_foreign"
  unfolding foreign_ok_def
  by (intro conjI allI ballI bump_lender)
    (auto simp: foreign_adapter_def bump_foreign_def SystemMallocAdapter_def PmrPoolAdapter_def MimallocAdapter_def JemallocAdapter_def)

theorem benchmark_suite_runs_witness:
  "\<exists>out s' a b. benchmarks_main [''bench'', ''2''] False False (\<lambda>_. two_turns) bump_foreign linear_os (\<lambda>_. caller0) Map.empty
       (0, Allocator_default Map.empty blank_machine) = Returns (0, out) ((s', a), b) \<and>
     malloc_state linear_os Map.empty blank_machine a {}"
proof -
  have "c_isdigit CHR ''2''" "decimal ''2'' = 2" by (simp_all add: c_isdigit_def decimal_def)
  then have it: "main_iterations [''bench'', ''2''] = Some 2" using main_iterations_digits [of "''2''" "''bench''"] by (simp add: const_simps)
  have "fair_schedule 2 2 [0, 1, 1, 0]" by (auto simp: fair_schedule_def less_Suc_eq numeral_2_eq_2)
  then have "env_ok 2 two_turns" by (simp add: env_ok_def two_turns_def uniform_def threadCount_for_def max_def)
  moreover have "all_expired (Map.empty :: tls)" using fair_linear by (simp add: fair_start_def)
  moreover have "\<not> pool_throws bump_foreign" "\<And>v. env_room two_turns v" by (simp_all add: pool_throws_def bump_foreign_def two_turns_def)
  ultimately show ?thesis
    using benchmark_suite_runs [OF fair_linear bump_foreign_ok, of 0 Map.empty "[''bench'', ''2'']"
        "\<lambda>_. two_turns" False False "\<lambda>_. caller0"] it by auto
qed

text \<open>The benchmark example measures both allocators with the same requests and has released everything.\<close>

lemma benchmark_example_runs:
  assumes "fair_start os tls0 M0" "adapter (SystemMallocAdapter malloc free) I" "I s {}"
  shows "\<exists>s' a. benchmark_example_main malloc free os cs cs' clock (s, Allocator_default tls0 M0) =
      Returns (0, [LineNumber '' small allocations + frees: '' 200000, MillisLine ''std::malloc : '' ((clock 1 - clock 0) / 10 ^ 6),
        MillisLine ''m-alloc     : '' ((clock 3 - clock 2) / 10 ^ 6)]) (s', a) \<and> I s' {} \<and> malloc_state os tls0 M0 a {}"
proof -
  let ?ad = "SystemMallocAdapter malloc free" and ?size = "\<lambda>i. i mod 256 + 16 :: nat"
  note sys = assms(2)
  have lend: "lender ?ad I False True" using sys by (simp add: adapter_def)
  have ops: "adapter_allocate ?ad = malloc" "free c p s = adapter_deallocate ?ad c p n s" for c p n s by (simp_all add: SystemMallocAdapter_def)
  have "lender.holding I True s {} []" using assms(3) by (simp add: lender.holding_Nil [OF lend])
  from adapter.push_loop_holding [where size_of = ?size, OF sys this, of cs 0 200000] obtain xs s1 where
    xs: "push_loop malloc cs ?size 0 200000 [] s = Returns (map fst xs) s1" "lender.holding I True s1 {} xs" by (auto simp: ops(1))
  obtain s2 where "release_each free cs 200000 (map fst xs) s1 = Returns () s2" "lender.holding I True s2 {} []"
    using lender.release_all_holding [OF lend, of s1 "{}" xs "[]" cs 200000] xs(2)
      adapter.release_each_all [where free = free and cs = cs and k = 200000 and xs = xs and s = s1, OF sys ops(2)] by auto
  then have "measure_with malloc free cs 200000 (clock 0) (clock 1) s = Returns ((clock 1 - clock 0) / 10 ^ 6) s2" "I s2 {}"
    using xs(1) by (simp_all add: measure_with_def lender.holding_Nil [OF lend])
  then show ?thesis using measure_runs [OF assms(1), of cs' 200000 "clock 2" "clock 3"] by (auto simp: benchmark_example_main_def)
qed

end
