(* ===== verification/Containers.thy ===== *)
theory Containers
  imports Examples
begin

text \<open>
  Containers over the adapters of this library, as \<^verbatim>\<open>examples/stl_integration.cpp\<close> uses them:
  \<^verbatim>\<open>std::vector<int>\<close> over \<open>StlAllocator\<close> and \<^verbatim>\<open>std::pmr::map\<close> over \<open>MemoryResource\<close>, with their contents in the
  bytes of the machine.  What a standard library may choose, how a vector grows and how a map lays out
  and links its nodes, is a parameter.
\<close>

section \<open>The handles of the adapters\<close>

text \<open>An adapter is a pointer to an allocator object; converting one to another type copies the pointer.\<close>

record StlAllocator =
  allocator_ptr :: addr

definition StlAllocator_make :: "addr \<Rightarrow> StlAllocator" where
  "StlAllocator_make allocator = \<lparr>allocator_ptr = allocator\<rparr>"

definition StlAllocator_underlying :: "StlAllocator \<Rightarrow> addr" where
  "StlAllocator_underlying x = allocator_ptr x"

definition StlAllocator_convert :: "StlAllocator \<Rightarrow> StlAllocator" where
  "StlAllocator_convert other = \<lparr>allocator_ptr = StlAllocator_underlying other\<rparr>"

record MemoryResource =
  resource_allocator_ptr :: addr

definition MemoryResource_make :: "addr \<Rightarrow> MemoryResource" where
  "MemoryResource_make allocator = \<lparr>resource_allocator_ptr = allocator\<rparr>"

text \<open>What the standard asks of conversions: there and back gives an equal allocator.\<close>

lemma convert_equal:
  "StlAllocator_eq (StlAllocator_underlying (StlAllocator_convert (StlAllocator_convert x))) (StlAllocator_underlying x)"
  by (simp add: StlAllocator_eq_def StlAllocator_convert_def StlAllocator_underlying_def)

section \<open>A vector of ints\<close>

record vector_int =
  v_data :: addr
  v_size :: nat
  v_capacity :: nat

definition vector_empty :: vector_int where
  "vector_empty = \<lparr>v_data = 0, v_size = 0, v_capacity = 0\<rparr>"

definition vector_at :: "memory \<Rightarrow> vector_int \<Rightarrow> nat \<Rightarrow> nat" where
  "vector_at m v i = read32 m (v_data v + 4 * i)"

definition vector_back :: "memory \<Rightarrow> vector_int \<Rightarrow> nat" where
  "vector_back m v = vector_at m v (v_size v - 1)"

text \<open>
  What \<^verbatim>\<open>push_back\<close> of \<^verbatim>\<open>std::vector\<close>, which the example calls, is bound to do by the standard, with how far
  the capacity grows left open (\<open>grow\<close>).
  \<open>serve\<close>, \<open>give\<close> and \<open>poke\<close> are the allocator's operations and writing to memory.  A full vector takes a
  larger array, constructs the new element there, moves the others over and releases the old array.
\<close>

definition vector_push_back ::
    "('c \<Rightarrow> nat \<Rightarrow> 's \<Rightarrow> (bad_alloc + addr, 's) outcome) \<Rightarrow> ('c \<Rightarrow> addr \<Rightarrow> 's \<Rightarrow> (unit, 's) outcome) \<Rightarrow> ((memory \<Rightarrow> memory) \<Rightarrow> 's \<Rightarrow> 's) \<Rightarrow>
      (nat \<Rightarrow> nat) \<Rightarrow> 'c \<Rightarrow> 'c \<Rightarrow> vector_int \<Rightarrow> nat \<Rightarrow> 's \<Rightarrow> (bad_alloc + vector_int, 's) outcome" where
  "vector_push_back serve give poke grow c c' v x s =
     (if v_size v < v_capacity v then
        Returns (Inr (v\<lparr>v_size := v_size v + 1\<rparr>)) (poke (write32 (v_data v + 4 * v_size v) x) s)
      else and_then (serve c (grow (v_capacity v)) s) (\<lambda>r s1. case r of
          Inl e \<Rightarrow> Returns (Inl e) s1
        | Inr p \<Rightarrow>
            let s2 = poke (memcpy p (v_data v) (4 * v_size v)) (poke (write32 (p + 4 * v_size v) x) s1)
            in and_then (if v_capacity v = 0 then Returns () s2 else give c' (v_data v) s2) (\<lambda>_ s3.
              Returns (Inr \<lparr>v_data = p, v_size = v_size v + 1, v_capacity = grow (v_capacity v)\<rparr>) s3)))"

definition vector_destroy :: "('c \<Rightarrow> addr \<Rightarrow> 's \<Rightarrow> (unit, 's) outcome) \<Rightarrow> 'c \<Rightarrow> vector_int \<Rightarrow> 's \<Rightarrow> (unit, 's) outcome" where
  "vector_destroy give c v s = (if v_capacity v = 0 then Returns () s else give c (v_data v) s)"

fun push_squares ::
    "('c \<Rightarrow> nat \<Rightarrow> 's \<Rightarrow> (bad_alloc + addr, 's) outcome) \<Rightarrow> ('c \<Rightarrow> addr \<Rightarrow> 's \<Rightarrow> (unit, 's) outcome) \<Rightarrow> ((memory \<Rightarrow> memory) \<Rightarrow> 's \<Rightarrow> 's) \<Rightarrow>
      (nat \<Rightarrow> nat) \<Rightarrow> (nat \<Rightarrow> 'c) \<Rightarrow> nat \<Rightarrow> nat \<Rightarrow> vector_int \<Rightarrow> 's \<Rightarrow> (bad_alloc + vector_int, 's) outcome" where
  "push_squares serve give poke grow cs i 0 v s = Returns (Inr v) s"
| "push_squares serve give poke grow cs i (Suc left) v s =
     and_then (vector_push_back serve give poke grow (cs (2 * i)) (cs (2 * i + 1)) v (i * i) s) (\<lambda>r s1. case r of
         Inl e \<Rightarrow> Returns (Inl e) s1
       | Inr v1 \<Rightarrow> push_squares serve give poke grow cs (i + 1) left v1 s1)"

section \<open>A map in nodes\<close>

text \<open>
  The nodes of a map: their size and alignment, what inserting one writes (the pair into the node, and
  the links of the others), and the pair a node holds.
\<close>

record node_layout =
  node_size :: nat
  node_align :: nat
  link_node :: "addr list \<Rightarrow> addr \<Rightarrow> nat \<Rightarrow> string \<Rightarrow> memory \<Rightarrow> memory"
  node_pair :: "memory \<Rightarrow> addr \<Rightarrow> nat \<times> string"

definition memory_of :: "Allocator \<Rightarrow> memory" where
  "memory_of a = (case a of None \<Rightarrow> (\<lambda>_. 0) | Some s \<Rightarrow> mem (world s))"

definition poke :: "(memory \<Rightarrow> memory) \<Rightarrow> Allocator \<Rightarrow> Allocator" where
  "poke f a = map_option (on_mem f) a"

text \<open>
  \<^verbatim>\<open>emplace\<close> makes the node first, and drops it when the key is there; \<^verbatim>\<open>at\<close> throws when the key is not.
\<close>

definition map_emplace ::
    "node_layout \<Rightarrow> os \<Rightarrow> caller \<Rightarrow> caller \<Rightarrow> addr list \<Rightarrow> nat \<Rightarrow> string \<Rightarrow> Allocator \<Rightarrow> (bad_alloc + addr list, Allocator) outcome" where
  "map_emplace lay os c c' nodes key val a =
     and_then (do_allocate os c (node_size lay) (node_align lay) a) (\<lambda>r a1. case r of
         Inl e \<Rightarrow> Returns (Inl e) a1
       | Inr p \<Rightarrow>
           if \<exists>q \<in> set nodes. fst (node_pair lay (memory_of a1) q) = key
           then and_then (do_deallocate os c' p a1) (\<lambda>_ a2. Returns (Inr nodes) a2)
           else Returns (Inr (nodes @ [p])) (poke (link_node lay nodes p key val) a1))"

definition map_at :: "node_layout \<Rightarrow> memory \<Rightarrow> addr list \<Rightarrow> nat \<Rightarrow> string option" where
  "map_at lay m nodes key = map_option (\<lambda>p. snd (node_pair lay m p)) (List.find (\<lambda>p. fst (node_pair lay m p) = key) nodes)"

section \<open>The program\<close>

text \<open>An exception that leaves \<^verbatim>\<open>main\<close> ends the program.\<close>

definition or_terminate :: "(bad_alloc + 'a, 's) outcome \<Rightarrow> ('a, 's) outcome" where
  "or_terminate r = and_then r (\<lambda>x s. case x of Inl _ \<Rightarrow> Aborts s | Inr y \<Rightarrow> Returns y s)"

definition stl_integration_body ::
    "(nat \<Rightarrow> nat) \<Rightarrow> node_layout \<Rightarrow> os \<Rightarrow> (nat \<Rightarrow> caller) \<Rightarrow> Allocator \<Rightarrow> (vector_int \<times> addr list \<times> printed_line list, Allocator) outcome" where
  "stl_integration_body grow lay os cs a =
     and_then (or_terminate (push_squares (StlAllocator_allocate 4 4 os) (StlAllocator_deallocate os) poke grow cs 0 1000 vector_empty a))
       (\<lambda>numbers a1.
     and_then (or_terminate (map_emplace lay os (cs 2000) (cs 2001) [] 1 ''alpha'' a1)) (\<lambda>nodes a2.
     and_then (or_terminate (map_emplace lay os (cs 2002) (cs 2003) nodes 2 ''beta'' a2)) (\<lambda>registry a3.
     case map_at lay (memory_of a3) registry 2 of
       None \<Rightarrow> Aborts a3
     | Some entry \<Rightarrow>
         and_then (Allocator_statistics a3) (\<lambda>stats a4.
           Returns (numbers, registry, [SquaresLine (v_size numbers) (vector_back (memory_of a1) numbers),
             Line (''pmr map entry 2 = '' @ entry),
             LineNumber ''live allocations backing containers: '' (unat (activeAllocations stats))]) a4))))"

text \<open>The locals go in reverse order of their declarations: the map, then the vector.\<close>

definition stl_integration_main ::
    "(nat \<Rightarrow> nat) \<Rightarrow> node_layout \<Rightarrow> os \<Rightarrow> (nat \<Rightarrow> caller) \<Rightarrow> Allocator \<Rightarrow> (nat \<times> printed_line list, Allocator) outcome" where
  "stl_integration_main grow lay os cs a =
     and_then (stl_integration_body grow lay os cs a) (\<lambda>(numbers, registry, lines) a4.
     and_then (release_each (do_deallocate os) cs 2004 registry a4) (\<lambda>_ a5.
     and_then (vector_destroy (StlAllocator_deallocate os) (cs 2006) numbers a5) (\<lambda>_ a6. Returns (0, lines) a6)))"

section \<open>Storage\<close>

text \<open>
  What a container relies on: a request is answered with memory of its own or refused, releasing a
  block leaves the others as they are, and the container may write where it was served.
\<close>

locale storage =
  fixes serve :: "'c \<Rightarrow> nat \<Rightarrow> 's \<Rightarrow> (bad_alloc + addr, 's) outcome"
    and give :: "'c \<Rightarrow> addr \<Rightarrow> 's \<Rightarrow> (unit, 's) outcome"
    and write_to :: "(memory \<Rightarrow> memory) \<Rightarrow> 's \<Rightarrow> 's"
    and bytes :: "'s \<Rightarrow> memory"
    and inv :: "'s \<Rightarrow> region set \<Rightarrow> bool"
    and width :: nat and limit :: nat
    and refused :: "'s \<Rightarrow> bool"
  assumes width: "0 < width"
    and serves: "inv s R \<Longrightarrow> 0 < n \<Longrightarrow> n * width \<le> limit \<Longrightarrow> \<exists>r s'. serve c n s = Returns r s' \<and>
      (\<forall>x \<in> cells R. bytes s' x = bytes s x) \<and>
      (case r of Inl _ \<Rightarrow> refused s \<and> inv s' R
       | Inr p \<Rightarrow> (\<forall>q \<in> R. apart (p, n * width) q) \<and> inv s' (insert (p, n * width) R))"
    and gives: "inv s R \<Longrightarrow> (p, k) \<in> R \<Longrightarrow> \<exists>s'. give c p s = Returns () s' \<and>
      (\<forall>x \<in> cells (R - {(p, k)}). bytes s' x = bytes s x) \<and> inv s' (R - {(p, k)})"
    and writes: "inv s R \<Longrightarrow> (\<And>m x. x \<notin> cells R \<Longrightarrow> f m x = m x) \<Longrightarrow> inv (write_to f s) R \<and> bytes (write_to f s) = f (bytes s)"
begin

text \<open>The state a refused request has left.\<close>

definition turned_away :: "'s \<Rightarrow> bool" where
  "turned_away s' \<longleftrightarrow> (\<exists>s R c n e. inv s R \<and> refused s \<and> 0 < n \<and> n * width \<le> limit \<and> serve c n s = Returns (Inl e) s')"

lemma served_new:
  assumes "\<forall>q \<in> R. apart (p, n * width) q" "0 < n"
  shows "(p, n * width) \<notin> R"
  using assms width by fastforce

lemma writes_in:
  assumes "inv s R" "(p, k) \<in> R" "\<And>m x. x \<notin> {p..<p + k} \<Longrightarrow> f m x = m x"
  shows "inv (write_to f s) R" "bytes (write_to f s) = f (bytes s)"
proof -
  have "f m x = m x" if "x \<notin> cells R" for m x using that assms(2,3) by (auto simp: cells_iff)
  from writes [where f = f, OF assms(1) this] show "inv (write_to f s) R" "bytes (write_to f s) = f (bytes s)" by auto
qed

end

locale int_storage = storage serve give write_to bytes inv 4 limit refused
  for serve :: "'c \<Rightarrow> nat \<Rightarrow> 's \<Rightarrow> (bad_alloc + addr, 's) outcome" and give write_to bytes inv limit refused
begin

text \<open>The vector \<open>v\<close> has the elements \<open>xs\<close>, beside the regions \<open>R\<close>.\<close>

definition v_region :: "vector_int \<Rightarrow> region set" where
  "v_region v = (if v_capacity v = 0 then {} else {(v_data v, v_capacity v * 4)})"

definition vector_holds :: "'s \<Rightarrow> region set \<Rightarrow> vector_int \<Rightarrow> nat list \<Rightarrow> bool" where
  "vector_holds s R v xs \<longleftrightarrow> inv s (R \<union> v_region v) \<and> (\<forall>q \<in> v_region v. q \<notin> R \<and> (\<forall>r \<in> R. apart q r)) \<and>
     v_size v \<le> v_capacity v \<and> v_capacity v \<le> 2 * v_size v + 1 \<and> length xs = v_size v \<and>
     (\<forall>i < v_size v. vector_at (bytes s) v i = xs ! i)"

end

end
