(* ===== verification/ContainerProperties.thy ===== *)
theory ContainerProperties
  imports Containers
begin

text \<open>
  A vector keeps its elements through every move of its array, proved once over any storage; the
  adapters of this library are such a storage, and so the program that uses them prints what it must.
\<close>

section \<open>Vectors\<close>

lemma read_le_shift: "(\<And>i. i < k \<Longrightarrow> m (a + i) = m' (b + i)) \<Longrightarrow> read_le k m a = read_le k m' b"
proof (induction k arbitrary: a b)
  case (Suc k)
  have "read_le k m (Suc a) = read_le k m' (Suc b)"
    by (rule Suc.IH) (use Suc.prems [of "Suc i" for i] in auto)
  then show ?case using Suc.prems [of 0] by simp
qed simp

lemma read_memcpy_in: "j + k \<le> n \<Longrightarrow> read_le k (memcpy d s n m) (d + j) = read_le k m (s + j)"
  by (rule read_le_shift) (simp add: memcpy_def add.assoc)

lemma read_outside: "(\<And>x. x \<in> {a..<a + k} \<Longrightarrow> m x = m' x) \<Longrightarrow> read_le k m a = read_le k m' a"
  by (rule read_le_cong) auto

context int_storage
begin

lemma holds_empty: "inv s R \<Longrightarrow> vector_holds s R vector_empty []"
  by (simp add: vector_holds_def vector_empty_def v_region_def)

lemma elements_kept:
  assumes "\<forall>x \<in> cells (v_region v). bytes s' x = bytes s x" "v_size v \<le> v_capacity v" "i < v_size v"
  shows "vector_at (bytes s') v i = vector_at (bytes s) v i"
  unfolding vector_at_def
  by (rule read_outside) (use assms in \<open>auto simp: v_region_def cells_iff\<close>)

text \<open>There is room: the element goes behind the others.\<close>

lemma push_in_place:
  assumes "vector_holds s R v xs" "v_size v < v_capacity v" "x < 2 ^ 32"
  defines "s' \<equiv> write_to (write32 (v_data v + 4 * v_size v) x) s"
  shows "vector_holds s' R (v\<lparr>v_size := v_size v + 1\<rparr>) (xs @ [x]) \<and> (\<forall>y \<in> cells R. bytes s' y = bytes s y)"
proof -
  note h = assms(1)[unfolded vector_holds_def]
  let ?a = "v_data v + 4 * v_size v"
  have reg: "v_region v = {(v_data v, v_capacity v * 4)}" "v_region (v\<lparr>v_size := v_size v + 1\<rparr>) = v_region v"
    using assms(2) by (auto simp: v_region_def)
  have inside: "write32 ?a x m y = m y" if "y \<notin> cells (v_region v)" for m y
    using that assms(2) by (auto simp: reg(1) cells_iff write_le_def)
  have w: "inv s' (R \<union> v_region v)" "bytes s' = write32 ?a x (bytes s)"
    unfolding s'_def using writes [of s "R \<union> v_region v" "write32 ?a x"] h inside by (auto simp: cells_iff)
  have "vector_at (bytes s') v i = (xs @ [x]) ! i" if "i < v_size v + 1" for i
  proof (cases "i = v_size v")
    case True
    then show ?thesis using h assms(3) w(2) by (simp add: vector_at_def read_write_same nth_append)
  next
    case False
    then have "vector_at (bytes s') v i = vector_at (bytes s) v i"
      using that unfolding vector_at_def w(2) by (intro read_write_disjoint) auto
    then show ?thesis using h False that by (simp add: nth_append)
  qed
  moreover have "y \<notin> cells (v_region v)" if "y \<in> cells R" for y using that h by (fastforce simp: cells_iff reg(1))
  ultimately show ?thesis using h w inside assms(2) reg(2) by (auto simp: vector_holds_def vector_at_def)
qed

text \<open>There is none: the elements move to a larger array.\<close>

lemma moved_elements:
  fixes m :: memory
  assumes "\<forall>q \<in> v_region v. apart (p, n * 4) q" "v_size v \<le> v_capacity v" "v_size v < n" "x < 2 ^ 32"
  defines "m' \<equiv> memcpy p (v_data v) (4 * v_size v) (write32 (p + 4 * v_size v) x m)"
  shows "i < v_size v \<Longrightarrow> read32 m' (p + 4 * i) = vector_at m v i" "read32 m' (p + 4 * v_size v) = x"
    "y \<notin> {p..<p + n * 4} \<Longrightarrow> m' y = m y"
proof -
  show "read32 m' (p + 4 * i) = vector_at m v i" if i: "i < v_size v"
  proof -
    have "read32 m' (p + 4 * i) = read32 (write32 (p + 4 * v_size v) x m) (v_data v + 4 * i)"
      unfolding m'_def by (rule read_memcpy_in) (use i in simp)
    also have "\<dots> = read32 m (v_data v + 4 * i)"
      by (rule read_write_disjoint) (use assms(1-3) i in \<open>auto simp: v_region_def split: if_splits\<close>)
    finally show ?thesis by (simp add: vector_at_def)
  qed
  have "read32 m' (p + 4 * v_size v) = read32 (write32 (p + 4 * v_size v) x m) (p + 4 * v_size v)"
    unfolding m'_def by (rule read_memcpy_disjoint) simp
  then show "read32 m' (p + 4 * v_size v) = x" using assms(4) by (simp add: read_write_same)
  show "m' y = m y" if "y \<notin> {p..<p + n * 4}" using that assms(3) by (auto simp: m'_def memcpy_def write_le_def)
qed

lemma push_moves:
  assumes "vector_holds s R v xs" "v_size v = v_capacity v" "x < 2 ^ 32" "inv s1 (insert (p, n * 4) (R \<union> v_region v))"
    "\<forall>y \<in> cells (R \<union> v_region v). bytes s1 y = bytes s y" "\<forall>q \<in> R \<union> v_region v. apart (p, n * 4) q"
    "v_capacity v < n" "n \<le> 2 * v_capacity v + 1"
  defines "s2 \<equiv> write_to (memcpy p (v_data v) (4 * v_size v)) (write_to (write32 (p + 4 * v_size v) x) s1)"
  shows "\<exists>s3. vector_destroy give c v s2 = Returns () s3 \<and> (\<forall>y \<in> cells R. bytes s3 y = bytes s y) \<and>
    vector_holds s3 R \<lparr>v_data = p, v_size = v_size v + 1, v_capacity = n\<rparr> (xs @ [x])"
proof -
  note h = assms(1)[unfolded vector_holds_def]
  let ?w = "\<lparr>v_data = p, v_size = v_size v + 1, v_capacity = n\<rparr> :: vector_int" and ?old = "insert (p, n * 4) (R \<union> v_region v)"
  have w1: "inv (write_to (write32 (p + 4 * v_size v) x) s1) ?old"
      "bytes (write_to (write32 (p + 4 * v_size v) x) s1) = write32 (p + 4 * v_size v) x (bytes s1)"
    by (rule writes_in [OF assms(4) insertI1]; use assms(2,7) in \<open>auto simp: write_le_def\<close>)+
  have w2: "inv s2 ?old" "bytes s2 = memcpy p (v_data v) (4 * v_size v) (write32 (p + 4 * v_size v) x (bytes s1))"
    unfolding s2_def w1(2) [symmetric] by (rule writes_in [OF w1(1) insertI1]; use assms(2,7) in \<open>auto simp: memcpy_def\<close>)+
  have new: "(p, n * 4) \<notin> R \<union> v_region v" using served_new [OF assms(6)] assms(7) by simp
  obtain s3 where s3: "vector_destroy give c v s2 = Returns () s3" "inv s3 (insert (p, n * 4) R)"
    "\<forall>y \<in> cells (insert (p, n * 4) R). bytes s3 y = bytes s2 y"
  proof (cases "v_capacity v = 0")
    case True
    then show thesis using that [of s2] w2(1) by (simp add: vector_destroy_def v_region_def)
  next
    case False
    then have "(v_data v, v_capacity v * 4) \<in> ?old" by (simp add: v_region_def)
    from gives [OF w2(1) this, of c] False obtain s3 where "give c (v_data v) s2 = Returns () s3"
      "\<forall>y \<in> cells (?old - {(v_data v, v_capacity v * 4)}). bytes s3 y = bytes s2 y" "inv s3 (?old - {(v_data v, v_capacity v * 4)})" by blast
    moreover have "?old - {(v_data v, v_capacity v * 4)} = insert (p, n * 4) R" using h new False by (auto simp: v_region_def)
    ultimately show thesis using that False by (simp add: vector_destroy_def)
  qed
  note mv = moved_elements [where p = p and n = n and v = v and x = x and m = "bytes s1", folded w2(2)]
  have at: "vector_at (bytes s3) ?w i = vector_at (bytes s2) ?w i" if "i < v_size v + 1" for i
    unfolding vector_at_def by (rule read_outside) (use that s3(3) assms(2,7) in \<open>auto simp: cells_iff\<close>)
  have "vector_at (bytes s3) ?w i = (xs @ [x]) ! i" if i: "i < v_size v + 1" for i
  proof (cases "i = v_size v")
    case True
    then show ?thesis using at [OF i] mv(2) assms(2,3,6,7) h by (simp add: vector_at_def nth_append)
  next
    case False
    then have "vector_at (bytes s3) ?w i = vector_at (bytes s1) v i" using at [OF i] mv(1) [of i] assms(2,3,6,7) i by (simp add: vector_at_def)
    also have "\<dots> = vector_at (bytes s) v i" by (rule elements_kept) (use assms(2,5) False i in \<open>auto simp: cells_iff\<close>)
    finally show ?thesis using h False i by (simp add: nth_append)
  qed
  moreover have "bytes s3 y = bytes s y" if y: "y \<in> cells R" for y
  proof -
    obtain a k where "(a, k) \<in> R" "a \<le> y" "y < a + k" using y by (auto simp: cells_iff)
    then have "y \<notin> {p..<p + n * 4}" using bspec [OF assms(6), of "(a, k)"] by auto
    then show ?thesis using y s3(3) mv(3) assms(2,3,5,6,7) by (auto simp: cells_iff)
  qed
  ultimately show ?thesis using s3(1,2) h new assms(2,6-8) by (auto simp: vector_holds_def v_region_def)
qed

lemma push_back_holds:
  assumes "vector_holds s R v xs" "x < 2 ^ 32" "\<And>n. n < grow n \<and> grow n \<le> 2 * n + 1" "(2 * v_size v + 1) * 4 \<le> limit"
  shows "\<exists>r s'. vector_push_back serve give write_to grow c c' v x s = Returns r s' \<and>
    (case r of Inl _ \<Rightarrow> turned_away s'
     | Inr v' \<Rightarrow> vector_holds s' R v' (xs @ [x]) \<and> v_size v' = v_size v + 1 \<and> (\<forall>y \<in> cells R. bytes s' y = bytes s y))"
proof (cases "v_size v < v_capacity v")
  case True
  then show ?thesis using push_in_place [OF assms(1) True assms(2)] by (simp add: vector_push_back_def)
next
  case False
  note h = assms(1)[unfolded vector_holds_def]
  let ?n = "grow (v_capacity v)"
  have full: "v_size v = v_capacity v" using h False by simp
  have n: "0 < ?n" "?n * 4 \<le> limit" "v_capacity v < ?n" "?n \<le> 2 * v_capacity v + 1" using assms(3) [of "v_capacity v"] assms(4) full by auto
  from serves [OF conjunct1 [OF h] n(1,2), of c] obtain r s1 where r: "serve c ?n s = Returns r s1"
    "\<forall>y \<in> cells (R \<union> v_region v). bytes s1 y = bytes s y" "case r of Inl _ \<Rightarrow> refused s \<and> inv s1 (R \<union> v_region v)
       | Inr p \<Rightarrow> (\<forall>q \<in> R \<union> v_region v. apart (p, ?n * 4) q) \<and> inv s1 (insert (p, ?n * 4) (R \<union> v_region v))" by blast
  show ?thesis
  proof (cases r)
    case (Inl e)
    then have "turned_away s1" using r(1,3) n(1,2) h unfolding turned_away_def by auto
    then show ?thesis using Inl r(1) False by (simp add: vector_push_back_def)
  next
    case (Inr p)
    then have p: "\<forall>q \<in> R \<union> v_region v. apart (p, ?n * 4) q" "inv s1 (insert (p, ?n * 4) (R \<union> v_region v))" using r(3) by auto
    from push_moves [OF assms(1) full assms(2) p(2) r(2) p(1) n(3,4), of c'] show ?thesis using Inr r(1) False
      by (auto simp: vector_push_back_def vector_destroy_def Let_def)
  qed
qed

lemma push_squares_holds:
  assumes "vector_holds s R v (map (\<lambda>i. i * i) [0..<i])" "\<And>n. n < grow n \<and> grow n \<le> 2 * n + 1" "i + left \<le> 2 ^ 16" "(2 * (i + left) + 1) * 4 \<le> limit"
  shows "\<exists>r s'. push_squares serve give write_to grow cs i left v s = Returns r s' \<and>
    (case r of Inl _ \<Rightarrow> turned_away s'
     | Inr v' \<Rightarrow> vector_holds s' R v' (map (\<lambda>i. i * i) [0..<i + left]))"
  using assms(1,3,4)
proof (induction left arbitrary: i v s)
  case (Suc left)
  have sz: "v_size v = i" using Suc.prems(1) by (simp add: vector_holds_def)
  have "i < 2 ^ 16" using Suc.prems(2) by simp
  then have "i * i < 2 ^ 16 * 2 ^ 16" by (intro mult_strict_mono) auto
  then have x: "i * i < 2 ^ 32" by simp
  obtain r s1 where r: "vector_push_back serve give write_to grow (cs (2 * i)) (cs (2 * i + 1)) v (i * i) s = Returns r s1"
    "case r of Inl _ \<Rightarrow> turned_away s1
     | Inr v' \<Rightarrow> vector_holds s1 R v' (map (\<lambda>i. i * i) [0..<i] @ [i * i]) \<and> v_size v' = v_size v + 1 \<and> (\<forall>y \<in> cells R. bytes s1 y = bytes s y)"
    using push_back_holds [where grow = grow, OF Suc.prems(1) x assms(2), of "cs (2 * i)" "cs (2 * i + 1)"] Suc.prems(3) sz by auto
  show ?case
  proof (cases r)
    case (Inr v1)
    then have "vector_holds s1 R v1 (map (\<lambda>i. i * i) [0..<i + 1])" using r(2) by simp
    note this [unfolded Suc_eq_plus1 [symmetric]]
    from Suc.IH [OF this] Suc.prems(2,3) obtain r' s' where "push_squares serve give write_to grow cs (Suc i) left v1 s1 = Returns r' s'"
      "case r' of Inl _ \<Rightarrow> turned_away s' | Inr v' \<Rightarrow> vector_holds s' R v' (map (\<lambda>i. i * i) [0..<Suc i + left])" by auto
    then show ?thesis using r(1) Inr by (intro exI [of _ r'] exI [of _ s']) (cases r'; simp)
  qed (use r in auto)
qed auto

lemma destroy_holds:
  assumes "vector_holds s R v xs"
  shows "\<exists>s'. vector_destroy give c v s = Returns () s' \<and> inv s' R"
proof (cases "v_capacity v = 0")
  case False
  have "R \<union> {(v_data v, v_capacity v * 4)} - {(v_data v, v_capacity v * 4)} = R" using assms False by (auto simp: vector_holds_def v_region_def)
  then show ?thesis using assms False gives [of s "R \<union> {(v_data v, v_capacity v * 4)}" "v_data v" "v_capacity v * 4" c]
    by (auto simp: vector_holds_def v_region_def vector_destroy_def)
qed (use assms in \<open>auto simp: vector_holds_def v_region_def vector_destroy_def\<close>)

text \<open>What others do to their own memory leaves a vector as it is.\<close>

lemma holds_beside:
  assumes "vector_holds s R v xs" "inv s' (R' \<union> v_region v)" "\<forall>q \<in> v_region v. q \<notin> R' \<and> (\<forall>r \<in> R'. apart q r)"
    "\<forall>x \<in> cells (v_region v). bytes s' x = bytes s x"
  shows "vector_holds s' R' v xs"
  using assms elements_kept [OF assms(4)] by (auto simp: vector_holds_def)

end

section \<open>The adapters as storage\<close>

text \<open>The system has refused a mapping of at most the size of a segment.\<close>

definition refusal :: "os \<Rightarrow> Allocator \<Rightarrow> bool" where
  "refusal os a \<longleftrightarrow> (\<exists>s. a = Some s \<and> os_refuses os kSegmentSize (world s))"

text \<open>The allocator is in the state a refused request has left.\<close>

definition request_refused :: "os \<Rightarrow> tls \<Rightarrow> machine \<Rightarrow> Allocator \<Rightarrow> bool" where
  "request_refused os tls0 M0 a' \<longleftrightarrow> (\<exists>a R c n al. malloc_state os tls0 M0 a R \<and> refusal os a \<and>
     do_allocate os c n al a = Returns (Inl Bad_alloc) a')"

lemma memory_of_simps [simp]: "memory_of (Some s) = mem (world s)"
  by (simp add: memory_of_def)

lemma malloc_request:
  assumes "malloc_state os tls0 M0 a R" "0 < n" "n \<le> 2 ^ 16" "isPowerOfTwo al" "al \<le> 4096"
  shows "\<exists>p a'. (if 16 < al then Allocator_alignedAllocate os c al n a else Allocator_allocate os c n a) = Returns p a' \<and>
    (\<forall>x \<in> cells R. memory_of a' x = memory_of a x) \<and>
    (if p = 0 then refusal os a \<and> malloc_state os tls0 M0 a' R
     else (\<forall>q \<in> R. apart (p, n) q) \<and> malloc_state os tls0 M0 a' (insert (p, n) R))"
proof -
  obtain s where s: "fair_start os tls0 M0" "a = Some s" "impl_reach False os AllocatorConfig_default tls0 M0 s R" "config s = AllocatorConfig_default"
    by (rule malloc_stateE [OF assms(1)])
  let ?g = "if 16 < al then AllocatorImpl_alignedAllocate os c al n s else AllocatorImpl_allocate os c n s"
  have n: "asked n = n" "\<not> kMaxRequest < n" "al \<le> kMaxAlignment" "max kSegmentSize (n + 96) = kSegmentSize" "max kSegmentSize (n + al + 96) = kSegmentSize"
    using assms(2,3,5) by (auto simp: asked_def const_simps)
  have sure: "(\<exists>p s'. ?g = Returns (Inr p) s' \<and> granted s R p n s' \<and> impl_reach False os AllocatorConfig_default tls0 M0 s' (insert (p, n) R)) \<or>
      fails s R OutOfMemory 0 ?g \<and> os_refuses os kSegmentSize (world s)"
    using alignedAllocate_spec [OF s(1,3), of c al n] allocate_spec [OF s(1,3), of c n] n assms(4) by auto
  have run: "(if 16 < al then Allocator_alignedAllocate os c al n a else Allocator_allocate os c n a) =
      and_then (on_impl ?g) (\<lambda>r a'. Returns (value_or_null r) a')" using s(2) by (simp add: Allocator_alignedAllocate_def Allocator_allocate_def)
  from sure show ?thesis
  proof (elim disjE exE conjE)
    fix p s' assume g: "?g = Returns (Inr p) s'" "granted s R p n s'" "impl_reach False os AllocatorConfig_default tls0 M0 s' (insert (p, n) R)"
    then show ?thesis unfolding run g(1) using s(1,2) by (auto simp: value_or_null_def granted_def keeps_def malloc_state_def)
  next
    assume f: "fails s R OutOfMemory 0 ?g" "os_refuses os kSegmentSize (world s)"
    then obtain s' where e: "?g = Returns (Inl OutOfMemory) s'" "keeps R s s'" using s(4) by (auto simp: fails_def)
    then have "impl_reach False os AllocatorConfig_default tls0 M0 s' R"
      using impl_reach.not_aligned [OF s(3)] impl_reach.not_allocated [OF s(3)] by (auto split: if_splits)
    then show ?thesis unfolding run e(1) using s(1,2) f(2) e(2) by (auto simp: value_or_null_def keeps_def malloc_state_def refusal_def)
  qed
qed

lemma malloc_gives:
  assumes "malloc_state os tls0 M0 a R" "(p, k) \<in> R"
  shows "\<exists>a'. Allocator_deallocate os c p a = Returns () a' \<and> (\<forall>x \<in> cells (R - {(p, k)}). memory_of a' x = memory_of a x) \<and>
    malloc_state os tls0 M0 a' (R - {(p, k)})"
proof -
  obtain s where s: "fair_start os tls0 M0" "a = Some s" "impl_reach False os AllocatorConfig_default tls0 M0 s R"
    by (rule malloc_stateE [OF assms(1)])
  show ?thesis using release_live [OF s(1,3) assms(2), of c] s by (auto simp: Allocator_deallocate_def malloc_state_def keeps_def)
qed

lemma malloc_pokes:
  assumes "malloc_state os tls0 M0 a R" "\<And>m x. x \<notin> cells R \<Longrightarrow> f m x = m x"
  shows "malloc_state os tls0 M0 (poke f a) R \<and> memory_of (poke f a) = f (memory_of a)"
proof
  show "malloc_state os tls0 M0 (poke f a) R" unfolding poke_def by (rule malloc_write [where f = f, OF assms])
  show "memory_of (poke f a) = f (memory_of a)" by (rule malloc_stateE [OF assms(1)]) (simp add: poke_def on_mem_def)
qed

interpretation ints: int_storage "StlAllocator_allocate 4 4 os" "StlAllocator_deallocate os" poke memory_of "malloc_state os tls0 M0" "2 ^ 16"
  "refusal os" for os tls0 M0
proof
  fix a R c p k n
  show "\<exists>r a'. StlAllocator_allocate 4 4 os c n a = Returns r a' \<and> (\<forall>x \<in> cells R. memory_of a' x = memory_of a x) \<and>
      (case r of Inl _ \<Rightarrow> refusal os a \<and> malloc_state os tls0 M0 a' R
       | Inr p \<Rightarrow> (\<forall>q \<in> R. apart (p, n * 4) q) \<and> malloc_state os tls0 M0 a' (insert (p, n * 4) R))"
    if a: "malloc_state os tls0 M0 a R" "0 < n" "n * 4 \<le> 2 ^ 16"
  proof -
    have "n * 4 < size_max" using a(3) by (simp add: const_simps)
    moreover have "isPowerOfTwo 4" by code_simp
    ultimately show ?thesis using malloc_request [OF a(1), of "n * 4" 4 c] a(2,3) by (auto simp: stl_bytes or_throw_def)
  qed
  show "\<exists>a'. StlAllocator_deallocate os c p a = Returns () a' \<and> (\<forall>x \<in> cells (R - {(p, k)}). memory_of a' x = memory_of a x) \<and>
      malloc_state os tls0 M0 a' (R - {(p, k)})" if "malloc_state os tls0 M0 a R" "(p, k) \<in> R"
    using malloc_gives [OF that] by (simp add: StlAllocator_deallocate_def)
qed (use malloc_pokes in auto)

lemma ints_turned_away: "ints.turned_away os tls0 M0 a \<Longrightarrow> request_refused os tls0 M0 a"
proof -
  assume "ints.turned_away os tls0 M0 a"
  then obtain b R c n e where b: "malloc_state os tls0 M0 b R" "refusal os b" "n * 4 \<le> 2 ^ 16" "StlAllocator_allocate 4 4 os c n b = Returns (Inl e) a"
    unfolding ints.turned_away_def by blast
  have "n * 4 < size_max" using b(3) by (simp add: const_simps)
  then have "do_allocate os c (n * 4) 4 b = Returns (Inl Bad_alloc) a" using b(4) by (cases e) (simp add: stl_bytes do_allocate_def)
  then show ?thesis using b(1,2) unfolding request_refused_def by blast
qed

section \<open>The map\<close>

text \<open>
  What a standard library provides: inserting a node writes in the nodes of the map only, the new node
  then holds its pair, a short string included, the others theirs, and reading a node looks at its own
  bytes.
\<close>

definition layout_ok :: "node_layout \<Rightarrow> bool" where
  "layout_ok lay \<longleftrightarrow> 0 < node_size lay \<and> node_size lay \<le> 4096 \<and> isPowerOfTwo (node_align lay) \<and> node_align lay \<le> 4096 \<and>
     (\<forall>nodes p k v m x. (\<forall>q \<in> set (p # nodes). x \<notin> {q..<q + node_size lay}) \<longrightarrow> link_node lay nodes p k v m x = m x) \<and>
     (\<forall>nodes p k v m. k < 2 ^ 31 \<longrightarrow> length v \<le> 15 \<longrightarrow> (\<forall>q \<in> set nodes. apart (p, node_size lay) (q, node_size lay)) \<longrightarrow>
        node_pair lay (link_node lay nodes p k v m) p = (k, v) \<and>
        (\<forall>q \<in> set nodes. node_pair lay (link_node lay nodes p k v m) q = node_pair lay m q)) \<and>
     (\<forall>m m' p. (\<forall>x \<in> {p..<p + node_size lay}. m x = m' x) \<longrightarrow> node_pair lay m p = node_pair lay m' p)"

lemma layout_okD:
  assumes "layout_ok lay"
  shows "0 < node_size lay" "node_size lay \<le> 2 ^ 16" "isPowerOfTwo (node_align lay)" "node_align lay \<le> 4096"
    "(\<And>q. q \<in> set (p # nodes) \<Longrightarrow> x \<notin> {q..<q + node_size lay}) \<Longrightarrow> link_node lay nodes p k v m x = m x"
    "k < 2 ^ 31 \<Longrightarrow> length v \<le> 15 \<Longrightarrow> (\<And>q. q \<in> set nodes \<Longrightarrow> apart (p, node_size lay) (q, node_size lay)) \<Longrightarrow>
      node_pair lay (link_node lay nodes p k v m) p = (k, v) \<and> (\<forall>q \<in> set nodes. node_pair lay (link_node lay nodes p k v m) q = node_pair lay m q)"
    "(\<And>x. x \<in> {p..<p + node_size lay} \<Longrightarrow> m x = m' x) \<Longrightarrow> node_pair lay m p = node_pair lay m' p"
  using assms unfolding layout_ok_def by (fastforce, fastforce, fastforce, fastforce, blast, blast, blast)

definition node_regions :: "node_layout \<Rightarrow> addr list \<Rightarrow> region set" where
  "node_regions lay nodes = (\<lambda>p. (p, node_size lay)) ` set nodes"

text \<open>The map has the pairs \<open>kvs\<close>, beside the regions \<open>R\<close>.\<close>

definition map_holds :: "os \<Rightarrow> tls \<Rightarrow> machine \<Rightarrow> node_layout \<Rightarrow> Allocator \<Rightarrow> region set \<Rightarrow> addr list \<Rightarrow> (nat \<times> string) list \<Rightarrow> bool" where
  "map_holds os tls0 M0 lay a R nodes kvs \<longleftrightarrow> malloc_state os tls0 M0 a (R \<union> node_regions lay nodes) \<and> distinct nodes \<and>
     R \<inter> node_regions lay nodes = {} \<and> map (node_pair lay (memory_of a)) nodes = kvs"

lemma malloc_apart:
  assumes "malloc_state os tls0 M0 a R" "r \<in> R" "r' \<in> R" "r \<noteq> r'"
  shows "apart r r'"
proof -
  obtain s where s: "fair_start os tls0 M0" "impl_reach False os AllocatorConfig_default tls0 M0 s R" by (rule malloc_stateE [OF assms(1)])
  show ?thesis using reachable_safe_spec [OF s] assms(2-4) by blast
qed

lemma emplace_holds:
  assumes "map_holds os tls0 M0 lay a R nodes kvs" "layout_ok lay" "key \<notin> fst ` set kvs" "key < 2 ^ 31" "length val \<le> 15"
  shows "\<exists>r a'. map_emplace lay os c c' nodes key val a = Returns r a' \<and>
    (case r of Inl _ \<Rightarrow> request_refused os tls0 M0 a'
     | Inr nodes' \<Rightarrow> \<exists>p. nodes' = nodes @ [p] \<and> map_holds os tls0 M0 lay a' R nodes' (kvs @ [(key, val)]) \<and>
         (\<forall>x \<in> cells R. memory_of a' x = memory_of a x))"
proof -
  note lay = layout_okD [OF assms(2)]
  let ?Q = "R \<union> node_regions lay nodes" and ?n = "node_size lay"
  have h: "malloc_state os tls0 M0 a ?Q" "distinct nodes" "R \<inter> node_regions lay nodes = {}" "map (node_pair lay (memory_of a)) nodes = kvs"
    using assms(1) by (simp_all add: map_holds_def)
  obtain p a1 where p: "(if 16 < node_align lay then Allocator_alignedAllocate os c (node_align lay) ?n a else Allocator_allocate os c ?n a) = Returns p a1"
    "\<forall>x \<in> cells ?Q. memory_of a1 x = memory_of a x"
    "if p = 0 then refusal os a \<and> malloc_state os tls0 M0 a1 ?Q else (\<forall>q \<in> ?Q. apart (p, ?n) q) \<and> malloc_state os tls0 M0 a1 (insert (p, ?n) ?Q)"
    using malloc_request [OF h(1) lay(1-4), of c] by blast
  have old: "node_pair lay (memory_of a1) q = node_pair lay (memory_of a) q" if "q \<in> set nodes" for q
    by (rule lay(7)) (use p(2) that in \<open>auto simp: cells_iff node_regions_def\<close>)
  show ?thesis
  proof (cases "p = 0")
    case True
    then have d: "do_allocate os c ?n (node_align lay) a = Returns (Inl Bad_alloc) a1" using p(1) by (simp add: do_allocate_def or_throw_def)
    then have "request_refused os tls0 M0 a1" using p(3) True h(1) unfolding request_refused_def by auto
    then show ?thesis using d by (simp add: map_emplace_def)
  next
    case False
    then have new: "\<forall>q \<in> ?Q. apart (p, ?n) q" "malloc_state os tls0 M0 a1 (insert (p, ?n) ?Q)" using p(3) by auto
    let ?f = "link_node lay nodes p key val" and ?a = "poke (link_node lay nodes p key val) a1"
    have "?f m x = m x" if "x \<notin> cells (insert (p, ?n) ?Q)" for m x
      by (rule lay(5)) (use that in \<open>auto simp: cells_iff node_regions_def\<close>)
    from malloc_pokes [where f = ?f, OF new(2) this] have a: "malloc_state os tls0 M0 ?a (insert (p, ?n) ?Q)" "memory_of ?a = ?f (memory_of a1)" by auto
    have "apart (p, ?n) (q, ?n)" if "q \<in> set nodes" for q
      using bspec [OF new(1), of "(q, ?n)"] that by (simp add: node_regions_def)
    note link = lay(6) [OF assms(4,5) this]
    have "\<not> apart (p, ?n) (p, ?n)" using lay(1) by simp
    then have "(p, ?n) \<notin> ?Q" using new(1) by blast
    moreover have "p \<notin> set nodes" using calculation by (auto simp: node_regions_def)
    moreover have "map (node_pair lay (memory_of ?a)) (nodes @ [p]) = kvs @ [(key, val)]" using link old h(4) by (auto simp: a(2))
    ultimately have "map_holds os tls0 M0 lay ?a R (nodes @ [p]) (kvs @ [(key, val)])" using h a(1) by (auto simp: map_holds_def node_regions_def)
    moreover have "\<not> (\<exists>q \<in> set nodes. fst (node_pair lay (memory_of a1) q) = key)" using old assms(3) h(4) by force
    moreover have "memory_of ?a x = memory_of a x" if x: "x \<in> cells R" for x
    proof -
      obtain b k where b: "(b, k) \<in> R" "b \<le> x" "x < b + k" using x by (auto simp: cells_iff)
      have "apart (q, ?n) (b, k)" if "q \<in> set (p # nodes)" for q
        using that bspec [OF new(1), of "(b, k)"] malloc_apart [OF h(1), of "(q, ?n)" "(b, k)"] b(1) h(3)
        by (auto simp: node_regions_def)
      then have "?f (memory_of a1) x = memory_of a1 x" using b by (intro lay(5)) fastforce
      then show ?thesis using p(2) x a(2) by (auto simp: cells_iff)
    qed
    ultimately show ?thesis using p(1) False by (auto simp: map_emplace_def do_allocate_def or_throw_def)
  qed
qed

section \<open>The program\<close>

lemma squares_last: "map (\<lambda>i. i * i) [0..<1000] ! 999 = (998001 :: nat)"
  by simp

lemma release_nodes:
  assumes "malloc_state os tls0 M0 a (R \<union> node_regions lay nodes)" "distinct nodes" "R \<inter> node_regions lay nodes = {}"
  shows "\<exists>a'. release_each (do_deallocate os) cs k nodes a = Returns () a' \<and> malloc_state os tls0 M0 a' R"
  using assms
proof (induction nodes arbitrary: a k)
  case (Cons p nodes)
  have "R \<union> node_regions lay (p # nodes) - {(p, node_size lay)} = R \<union> node_regions lay nodes"
    using Cons.prems(2,3) by (auto simp: node_regions_def)
  then obtain a1 where a1: "Allocator_deallocate os (cs k) p a = Returns () a1" "malloc_state os tls0 M0 a1 (R \<union> node_regions lay nodes)"
    using malloc_releases [OF Cons.prems(1), of p "node_size lay" "cs k"] by (auto simp: node_regions_def)
  have "R \<inter> node_regions lay nodes = {}" using Cons.prems(3) by (auto simp: node_regions_def)
  from Cons.IH [OF a1(2) _ this, of "k + 1"] show ?case using a1(1) Cons.prems(2) by (simp add: do_deallocate_def)
qed (simp add: node_regions_def)

text \<open>The map alone: two entries, read back, beside whatever else is allocated.\<close>

lemma two_entries:
  assumes "malloc_state os tls0 M0 a1 R" "layout_ok lay"
  shows "(\<exists>a2. or_terminate (map_emplace lay os c0 c1 [] 1 ''alpha'' a1) = Aborts a2 \<and> request_refused os tls0 M0 a2) \<or>
    (\<exists>nodes a2 a3. or_terminate (map_emplace lay os c0 c1 [] 1 ''alpha'' a1) = Returns nodes a2 \<and>
       or_terminate (map_emplace lay os c2 c3 nodes 2 ''beta'' a2) = Aborts a3 \<and> request_refused os tls0 M0 a3) \<or>
    (\<exists>nodes a2 registry a3. or_terminate (map_emplace lay os c0 c1 [] 1 ''alpha'' a1) = Returns nodes a2 \<and>
       or_terminate (map_emplace lay os c2 c3 nodes 2 ''beta'' a2) = Returns registry a3 \<and>
       map_holds os tls0 M0 lay a3 R registry [(1, ''alpha''), (2, ''beta'')] \<and> length registry = 2 \<and>
       map_at lay (memory_of a3) registry 1 = Some ''alpha'' \<and> map_at lay (memory_of a3) registry 2 = Some ''beta'' \<and>
       (\<forall>x \<in> cells R. memory_of a3 x = memory_of a1 x))"
proof -
  have "map_holds os tls0 M0 lay a1 R [] []" using assms(1) by (simp add: map_holds_def node_regions_def)
  from emplace_holds [OF this assms(2), of 1 "''alpha''" c0 c1, unfolded append.simps] obtain r a2 where
    r: "map_emplace lay os c0 c1 [] 1 ''alpha'' a1 = Returns r a2" "case r of Inl _ \<Rightarrow> request_refused os tls0 M0 a2
     | Inr nodes' \<Rightarrow> \<exists>p. nodes' = [p] \<and> map_holds os tls0 M0 lay a2 R nodes' [(1, ''alpha'')] \<and>
         (\<forall>x \<in> cells R. memory_of a2 x = memory_of a1 x)" by auto
  show ?thesis
  proof (cases r)
    case (Inr nodes)
    then obtain p where p: "nodes = [p]" "map_holds os tls0 M0 lay a2 R [p] [(1, ''alpha'')]"
      "\<forall>x \<in> cells R. memory_of a2 x = memory_of a1 x" using r(2) by auto
    from emplace_holds [OF p(2) assms(2), of 2 "''beta''" c2 c3, unfolded append.simps] obtain r' a3 where
      r': "map_emplace lay os c2 c3 [p] 2 ''beta'' a2 = Returns r' a3" "case r' of Inl _ \<Rightarrow> request_refused os tls0 M0 a3
     | Inr nodes' \<Rightarrow> \<exists>q. nodes' = [p, q] \<and> map_holds os tls0 M0 lay a3 R nodes' [(1, ''alpha''), (2, ''beta'')] \<and>
         (\<forall>x \<in> cells R. memory_of a3 x = memory_of a2 x)" by auto
    show ?thesis
    proof (cases r')
      case (Inr registry)
      then obtain q where q: "registry = [p, q]" "map_holds os tls0 M0 lay a3 R [p, q] [(1, ''alpha''), (2, ''beta'')]"
        "\<forall>x \<in> cells R. memory_of a3 x = memory_of a2 x" using r'(2) by auto
      then have "map_at lay (memory_of a3) registry 1 = Some ''alpha''" "map_at lay (memory_of a3) registry 2 = Some ''beta''"
        by (simp_all add: map_holds_def map_at_def)
      then show ?thesis using r(1) r'(1) \<open>r = Inr nodes\<close> Inr p(1,3) q by (simp add: or_terminate_def)
    qed (use r(1) r' \<open>r = Inr nodes\<close> p(1) in \<open>auto simp: or_terminate_def\<close>)
  qed (use r in \<open>auto simp: or_terminate_def\<close>)
qed

text \<open>The vector in place: its array, and its elements.\<close>

lemma squares_held:
  assumes "ints.vector_holds os tls0 M0 a {} v (map (\<lambda>i. i * i) [0..<1000])"
  shows "v_size v = 1000" "v_capacity v \<noteq> 0" "malloc_state os tls0 M0 a {(v_data v, v_capacity v * 4)}"
    "vector_back (memory_of a) v = 998001"
    "\<forall>x \<in> cells {(v_data v, v_capacity v * 4)}. m x = memory_of a x \<Longrightarrow> i < 1000 \<Longrightarrow> vector_at m v i = i * i"
proof -
  show v: "v_size v = 1000" "v_capacity v \<noteq> 0" "malloc_state os tls0 M0 a {(v_data v, v_capacity v * 4)}"
    "vector_back (memory_of a) v = 998001"
    using assms squares_last by (auto simp: ints.vector_holds_def ints.v_region_def vector_back_def simp del: upt_rec_numeral)
  assume m: "\<forall>x \<in> cells {(v_data v, v_capacity v * 4)}. m x = memory_of a x" and i: "i < 1000"
  have "vector_at m v i = vector_at (memory_of a) v i"
    unfolding vector_at_def by (rule read_outside) (use m i v(1) assms in \<open>auto simp: cells_iff ints.vector_holds_def\<close>)
  then show "vector_at m v i = i * i" using assms i v(1) by (auto simp: ints.vector_holds_def simp del: upt_rec_numeral)
qed

text \<open>
  C22: the containers example, over any way a standard library may grow its vectors and lay out its map:
  it ends early only when a request of theirs fails, the system having refused memory at that moment;
  otherwise, when the containers are complete, each of the thousand elements of the vector is its square,
  after all the moves of its array and beside the map, both entries of the map are found with their
  strings, and exactly the array and the two nodes are allocated; the program prints the size, the last
  square, the entry and the number three, and when the containers are destroyed nothing stays allocated.
\<close>

theorem containers_keep_their_contents:
  assumes "fair_start os tls0 M0" "\<And>n. n < grow n \<and> grow n \<le> 2 * n + 1" "layout_ok lay"
  shows "(\<exists>a'. stl_integration_main grow lay os cs (Allocator_default tls0 M0) = Aborts a' \<and> request_refused os tls0 M0 a') \<or>
    (\<exists>numbers p q lines a a'. stl_integration_body grow lay os cs (Allocator_default tls0 M0) = Returns (numbers, [p, q], lines) a \<and>
      v_size numbers = 1000 \<and> (\<forall>i < 1000. vector_at (memory_of a) numbers i = i * i) \<and>
      map_at lay (memory_of a) [p, q] 1 = Some ''alpha'' \<and> map_at lay (memory_of a) [p, q] 2 = Some ''beta'' \<and>
      malloc_state os tls0 M0 a {(v_data numbers, v_capacity numbers * 4), (p, node_size lay), (q, node_size lay)} \<and>
      stl_integration_main grow lay os cs (Allocator_default tls0 M0) =
        Returns (0, [SquaresLine 1000 998001, Line ''pmr map entry 2 = beta'', LineNumber ''live allocations backing containers: '' 3]) a' \<and>
      malloc_state os tls0 M0 a' {})"
proof -
  let ?push = "push_squares (StlAllocator_allocate 4 4 os) (StlAllocator_deallocate os) poke grow cs 0 1000 vector_empty (Allocator_default tls0 M0)"
  have "ints.vector_holds os tls0 M0 (Allocator_default tls0 M0) {} vector_empty (map (\<lambda>i. i * i) [0..<0])"
    using ints.holds_empty [OF malloc_default [OF assms(1)]] by simp
  from ints.push_squares_holds [where grow = grow, OF this assms(2), of 1000 cs, unfolded add_0] obtain r a1 where r: "?push = Returns r a1"
    "case r of Inl _ \<Rightarrow> ints.turned_away os tls0 M0 a1
     | Inr v \<Rightarrow> ints.vector_holds os tls0 M0 a1 {} v (map (\<lambda>i. i * i) [0..<1000])" by (auto simp del: upt_rec_numeral)
  show ?thesis
  proof (cases r)
    case (Inl e)
    then show ?thesis using r ints_turned_away [of os tls0 M0 a1]
      by (simp add: stl_integration_main_def stl_integration_body_def or_terminate_def)
  next
    case (Inr v)
    let ?vr = "{(v_data v, v_capacity v * 4)}"
    have vh: "ints.vector_holds os tls0 M0 a1 {} v (map (\<lambda>i. i * i) [0..<1000])" using r(2) Inr by simp
    note v = squares_held [OF vh]
    have start: "or_terminate ?push = Returns v a1" using r(1) Inr by (simp add: or_terminate_def)
    from two_entries [OF v(3) assms(3), of "cs 2000" "cs 2001" "cs 2002" "cs 2003"] show ?thesis
    proof (elim disjE exE conjE)
      fix nodes a2 registry a3
      assume m: "or_terminate (map_emplace lay os (cs 2000) (cs 2001) [] 1 ''alpha'' a1) = Returns nodes a2"
        "or_terminate (map_emplace lay os (cs 2002) (cs 2003) nodes 2 ''beta'' a2) = Returns registry a3"
        "map_holds os tls0 M0 lay a3 ?vr registry [(1, ''alpha''), (2, ''beta'')]" "length registry = 2"
        "map_at lay (memory_of a3) registry 1 = Some ''alpha''" "map_at lay (memory_of a3) registry 2 = Some ''beta''"
        "\<forall>x \<in> cells ?vr. memory_of a3 x = memory_of a1 x"
      obtain p q where reg: "registry = [p, q]" using m(4) by (auto simp: length_Suc_conv numeral_2_eq_2)
      have h: "malloc_state os tls0 M0 a3 (?vr \<union> node_regions lay registry)" "distinct registry" "?vr \<inter> node_regions lay registry = {}"
        using m(3) by (simp_all add: map_holds_def)
      have "card (?vr \<union> node_regions lay registry) = 3" using h(2,3) by (auto simp: reg node_regions_def card_insert_if)
      then obtain t where t: "Allocator_statistics a3 = Returns t a3" "unat (activeAllocations t) = 3" using malloc_statistics [OF h(1)] by auto
      obtain a5 where a5: "release_each (do_deallocate os) cs 2004 registry a3 = Returns () a5" "malloc_state os tls0 M0 a5 ?vr"
        using release_nodes [OF h] by blast
      obtain a6 where a6: "vector_destroy (StlAllocator_deallocate os) (cs 2006) v a5 = Returns () a6" "malloc_state os tls0 M0 a6 {}"
        using malloc_releases [OF a5(2), of "v_data v" "v_capacity v * 4" "cs 2006"] v(2)
        by (auto simp: vector_destroy_def StlAllocator_deallocate_def)
      let ?lines = "[SquaresLine 1000 998001, Line ''pmr map entry 2 = beta'', LineNumber ''live allocations backing containers: '' 3]"
      have body: "stl_integration_body grow lay os cs (Allocator_default tls0 M0) = Returns (v, [p, q], ?lines) a3"
        using start m(1,2,6) t v(1,4) reg by (simp add: stl_integration_body_def)
      have "stl_integration_main grow lay os cs (Allocator_default tls0 M0) = Returns (0, ?lines) a6"
        using body a5(1) a6(1) reg by (simp add: stl_integration_main_def)
      moreover have "malloc_state os tls0 M0 a3 {(v_data v, v_capacity v * 4), (p, node_size lay), (q, node_size lay)}"
        using h(1) by (simp add: reg node_regions_def insert_commute)
      ultimately show ?thesis using body a6(2) v(1) v(5) [OF m(7)] m(5,6) reg by blast
    qed (use start in \<open>auto simp: stl_integration_main_def stl_integration_body_def\<close>)
  qed
qed

text \<open>A layout: the key, the length of the string, its characters, and no links.\<close>

definition flat_layout :: node_layout where
  "flat_layout = \<lparr>node_size = 64, node_align = 8,
     link_node = (\<lambda>_ p k v m. (\<lambda>x. if p + 5 \<le> x \<and> x < p + 5 + length (take 15 v) then word_of_nat (of_char (v ! (x - (p + 5)))) else
        write_le 1 (p + 4) (length v) (write32 p k m) x)),
     node_pair = (\<lambda>m p. (read32 m p, map (\<lambda>i. char_of (unat (m (p + 5 + i)))) [0..<min 15 (unat (m (p + 4)))]))\<rparr>"

lemma flat_simps: "node_size flat_layout = 64" "node_align flat_layout = 8"
  by (simp_all add: flat_layout_def)

lemma flat_out: "x \<notin> {p..<p + 64} \<Longrightarrow> link_node flat_layout nodes p k v m x = m x"
  by (auto simp: flat_layout_def write_le_def)

lemma flat_cong:
  assumes "\<And>x. x \<in> {p..<p + 64} \<Longrightarrow> m x = m' x"
  shows "node_pair flat_layout m p = node_pair flat_layout m' p"
proof -
  have "read32 m p = read32 m' p" by (rule read_outside) (use assms in auto)
  moreover have "m (p + 4) = m' (p + 4)" "i < 15 \<Longrightarrow> m (p + 5 + i) = m' (p + 5 + i)" for i using assms by auto
  ultimately show ?thesis by (auto simp: flat_layout_def)
qed

lemma flat_new:
  assumes "k < 2 ^ 31" "length v \<le> 15"
  shows "node_pair flat_layout (link_node flat_layout nodes p k v m) p = (k, v)"
proof -
  let ?m = "link_node flat_layout nodes p k v m"
  have "read32 ?m p = read32 (write32 p k m) p" by (rule read_outside) (auto simp: flat_layout_def write_le_def)
  then have key: "read32 ?m p = k" using assms(1) by (simp add: read_write_same)
  have len: "unat (?m (p + 4)) = length v" using assms(2) by (simp add: flat_layout_def write_le_def unat_of_nat)
  have "char_of (unat (?m (p + 5 + i))) = v ! i" if "i < length v" for i
  proof -
    have "unat (?m (p + 5 + i)) = of_char (v ! i) mod 256" using that assms(2) by (simp add: flat_layout_def unat_of_nat)
    then show ?thesis by simp
  qed
  then have "map (\<lambda>i. char_of (unat (?m (p + 5 + i)))) [0..<min 15 (length v)] = v" using assms(2) by (intro nth_equalityI) auto
  then show ?thesis using key len by (simp add: flat_layout_def)
qed

lemma flat_ok: "layout_ok flat_layout"
proof -
  have pow: "isPowerOfTwo 8" by code_simp
  have old: "node_pair flat_layout (link_node flat_layout nodes p k v m) q = node_pair flat_layout m q"
    if "apart (p, 64) (q, 64)" for nodes p k v m q
    by (rule flat_cong) (use that flat_out [where p = p] in auto)
  show ?thesis unfolding layout_ok_def flat_simps
  proof (intro conjI allI impI)
    fix nodes :: "addr list" and p k v m x
    assume "\<forall>q \<in> set (p # nodes). x \<notin> {q..<q + 64}"
    then show "link_node flat_layout nodes p k v m x = m x" by (intro flat_out) simp
  next
    fix m m' :: memory and p assume "\<forall>x \<in> {p..<p + 64}. m x = m' x"
    then show "node_pair flat_layout m p = node_pair flat_layout m' p" by (intro flat_cong) simp
  next
    fix nodes :: "addr list" and p k :: nat and v :: string and m assume "k < 2 ^ 31" "length v \<le> 15"
    then show "node_pair flat_layout (link_node flat_layout nodes p k v m) p = (k, v)" by (rule flat_new)
  next
    fix nodes :: "addr list" and p k v m assume "\<forall>q \<in> set nodes. apart (p, 64) (q, 64)"
    then show "\<forall>q \<in> set nodes. node_pair flat_layout (link_node flat_layout nodes p k v m) q = node_pair flat_layout m q"
      using old by blast
  qed (use pow in simp_all)
qed

theorem containers_keep_their_contents_witness:
  "(\<exists>a'. stl_integration_main (\<lambda>n. 2 * n + 1) flat_layout linear_os (\<lambda>_. caller0) (Allocator_default Map.empty blank_machine) = Aborts a' \<and>
        request_refused linear_os Map.empty blank_machine a') \<or>
     (\<exists>numbers p q lines a. stl_integration_body (\<lambda>n. 2 * n + 1) flat_layout linear_os (\<lambda>_. caller0) (Allocator_default Map.empty blank_machine) =
        Returns (numbers, [p, q], lines) a \<and> (\<forall>i < 1000. vector_at (memory_of a) numbers i = i * i) \<and>
        map_at flat_layout (memory_of a) [p, q] 1 = Some ''alpha'')"
proof -
  have "n < 2 * n + 1 \<and> 2 * n + 1 \<le> 2 * n + 1" for n :: nat by simp
  from containers_keep_their_contents [where grow = "\<lambda>n. 2 * n + 1", OF fair_linear this flat_ok, of "\<lambda>_. caller0"] show ?thesis by blast
qed

end
