(* ===== verification/Spec2Isabelle.thy ===== *)
theory Spec2Isabelle
  imports SegmentProperties DebugLimits UntrackedFree LiveHeaders AllocatorLifetime RegistryRace BenchmarkMain ContainerProperties
begin

text \<open>
  \<^bold>\<open>m-alloc, a general-purpose memory allocator, verified.\<close>

  \<^bold>\<open>The program.\<close>  An \<^verbatim>\<open>ma::Allocator\<close> is an independent heap.  A request is rounded into one of three
  tiers by its size: small blocks come from thirty size-class pools, optionally through a cache of the
  calling thread; medium ones from segments of 4 MiB managed with boundary tags and binned free lists;
  large ones are mappings of their own.  Every block starts with a 16-byte header that names its tier,
  its size and whether it is live.  Over-aligned and guarded allocations sit inside such a block behind
  a second header, a shim, that leads back to the first.  A debug layer adds guard bytes, poison and a
  registry of live and released pointers; atomic counters feed the statistics.

  \<^bold>\<open>The model.\<close>  Memory is one function from addresses to bytes, shared by all components: free-list
  links, boundary tags and headers are bytes in it, read and written little-endian, so that a component
  could destroy another's data and the proofs show that none does.  A \<open>machine\<close> is that memory with the
  list of live mappings.  The system calls are a record \<open>os\<close> of functions over the machine; \<open>os_ok\<close>
  states what their documentation promises (fresh, aligned, disjoint mappings; nothing else touched;
  addresses below 2^56), and \<open>linear_os\<close> is an instance that keeps it.  Values of \<^verbatim>\<open>std::size_t\<close> are
  naturals with the wrap-around written out (\<open>size_add\<close>, \<open>size_sub\<close>), counters and tag words are
  64-bit words.  A call has an \<open>outcome\<close>: it returns a value and a state, ends the process
  (\<open>abortOnError\<close>), is undefined (it reads where nothing is mapped, or out of an array), or does not
  return (a walk along a cyclic list).  The theorems exclude the last two rather than assume them away:
  list walks are partial functions whose termination is proved for reachable heaps.

  \<^bold>\<open>Theories and sources\<close> (below \<^verbatim>\<open>src/\<close>):

  \<^item> \<open>Prelude\<close>: arithmetic of sizes, byte memory, regions and their cells, outcomes.
  \<^item> \<open>BlockHeader\<close> (\<^verbatim>\<open>src/BlockHeader.hpp\<close>): headers, tiers, \<open>alignUp\<close>, \<open>isPowerOfTwo\<close>.
  \<^item> \<open>SizeClassTable\<close> (\<^verbatim>\<open>src/SizeClassTable.hpp\<close>): the table as its loops fill it is the smallest-fit map.
  \<^item> \<open>SystemMemory\<close> (\<^verbatim>\<open>src/SystemMemory.*\<close>): page rounding, mapping, \<open>MappedRegion\<close>.
  \<^item> \<open>FreeList\<close> (\<^verbatim>\<open>src/FreeList.hpp\<close>): the intrusive list refines a list of blocks.
  \<^item> \<open>TierContract\<close>, \<open>TierPair\<close>: the locale \<open>tier\<close>, the contract every tier keeps (extents handed out
    are in its mappings, apart, aligned, large enough; a call changes only its own free memory; what it
    does not own may change under it), with the lemmas that follow from the laws alone; and that two
    tiers with separate mappings are again one.
  \<^item> \<open>PoolAllocator\<close> (\<^verbatim>\<open>src/PoolAllocator.*\<close>), \<open>LargeAllocator\<close> (\<^verbatim>\<open>src/LargeAllocator.*\<close>),
    \<open>ThreadCache\<close> (\<^verbatim>\<open>src/ThreadCache.*\<close> and the thread map of \<^verbatim>\<open>src/AllocatorImpl.cpp\<close>): each is
    interpreted as a tier.
  \<^item> \<open>SegmentHeap\<close> (\<^verbatim>\<open>src/SegmentHeap.*\<close>) is the code; \<open>SegmentBins\<close> says which abstract heap its bytes
    represent, \<open>SegmentLayout\<close> treats tilings of segments without memory, \<open>SegmentOps\<close> shows that
    splitting and coalescing in memory are splitting and merging of that heap, \<open>SegmentTier\<close> interprets
    it as a tier, \<open>SegmentProperties\<close> has its properties.
  \<^item> \<open>Statistics\<close> (\<^verbatim>\<open>src/StatisticsCollector.hpp\<close>, \<^verbatim>\<open>include/MAlloc/Statistics.hpp\<close>): calls as sequences of
    atomic accesses, in every interleaving, and as functions.
  \<^item> \<open>DebugLayer\<close> (\<^verbatim>\<open>src/DebugLayer.hpp\<close>), \<open>Config\<close> (\<^verbatim>\<open>include/MAlloc/Config.hpp\<close>, \<^verbatim>\<open>Error.hpp\<close>, \<^verbatim>\<open>Version.hpp\<close>).
  \<^item> \<open>AllocatorImpl\<close> (\<^verbatim>\<open>src/AllocatorImpl.*\<close>, \<^verbatim>\<open>src/CentralState.hpp\<close>): every operation, errors and
    destruction included.  \<open>Allocator\<close> (\<^verbatim>\<open>src/Allocator.cpp\<close>, \<^verbatim>\<open>include/MAlloc/StlAllocator.hpp\<close>,
    \<^verbatim>\<open>MemoryResource.hpp\<close>): the facade and the adapters.
  \<^item> \<open>AllocatorTiers\<close> puts the tiers together, \<open>OutOfMemory\<close> shows when they give up,
    \<open>AllocatorInvariant\<close> has the invariant of the whole allocator over the set of live allocations,
    \<open>AllocatorOps\<close> and \<open>AllocatorRelease\<close> run every operation against it, \<open>AllocatorReach\<close> closes it
    under all a program can do (\<open>impl_reach\<close>).
  \<^item> \<open>AllocatorProperties\<close>, \<open>LiveHeaders\<close>, \<open>UntrackedFree\<close>, \<open>AllocatorLifetime\<close>, \<open>AdapterProperties\<close>,
    \<open>DebugLimits\<close>: what follows for a program.
  \<^item> \<open>AllocatorCalls\<close> cuts the calls of \<^verbatim>\<open>src/AllocatorImpl.cpp\<close> into the parts between which other threads can
    come; \<open>Concurrent\<close> interleaves them, the counting access by access (\<open>conc_step\<close>, \<open>conc_reach\<close>) and matches every such run with one of
    whole calls; \<open>ConcurrentProperties\<close> and \<open>RegistryRace\<close> have what follows and what does not.
  \<^item> \<open>Adapters\<close> and \<open>Runner\<close> (\<^verbatim>\<open>benchmarks/\<close>): the abstract adapter as the locale \<open>lender\<close>, for allocators
    that may throw, and its case \<open>adapter\<close>, for those that return null, with this library as an instance;
    and the three measuring loops over it, the last with workers in any schedule, their calls counted.
  \<^item> \<open>Examples\<close>, \<open>ExampleProperties\<close> (\<^verbatim>\<open>examples/\<close>), \<open>BenchmarkMain\<close> (\<^verbatim>\<open>benchmarks/main.cpp\<close>,
    \<^verbatim>\<open>examples/benchmark_example.cpp\<close>): the programs.
  \<^item> \<open>Containers\<close>, \<open>ContainerProperties\<close> (\<^verbatim>\<open>examples/stl_integration.cpp\<close>, the handles of the adapters): a
    vector and a map in the bytes of the machine, over the locale \<open>storage\<close> that says what a container
    relies on, with \<open>StlAllocator\<close> as its instance.

  \<^bold>\<open>What is shown.\<close>  For every sequence of calls by any threads, with writes of the program into its
  own payloads in between: live allocations are aligned, mapped, disjoint and keep their size and their
  bytes, and the header in front of each is well formed; every call comes back with the documented result or error; out of memory is reported only
  when the operating system refuses a mapping; resizing keeps the common prefix; releases of pointers
  that are not live are reported when allocations are tracked, and second releases of small blocks even
  when they are not; overwritten guards are reported; the
  statistics and leak counts are exact; destruction returns exactly the mappings made, and memory of
  others is never touched.  Below that, per component: smallest-fit size classes and their waste,
  refinement of lists by free lists, no block in two hands whatever threads do, maximal coalescing,
  return of free segments, exact counters under every interleaving of atomic accesses.  When the
  threads are interleaved inside their calls, those of a moving \<open>reallocate\<close> included, regions stay
  disjoint and keep their bytes, a call can always
  finish alone and is held up by others only where they raise the peak, and the statistics are exact
  whenever no call is under way.  The benchmarks and examples
  release what they allocate, whatever memory they are granted, the runner makes exactly the calls it
  counts, and containers over the adapters keep
  their contents.  Four theorems show limits: the waste of
  a size class and underruns into the shim header are worse than documented, a release removes its entry
  from the registry too late (another thread may own the block again), and the basic example loses its
  buffer when growing it fails.

  \<^bold>\<open>Choices.\<close>  A call that holds a mutex is one step, as no other thread can see its inside; atomic
  counters are the exception and are interleaved access by access.  \<open>impl_reach\<close> takes whole calls as
  steps; \<open>conc_reach\<close> takes their critical sections.  There a step is one critical section together with
  the accesses around it to the block only its thread knows, or one access to a counter, with the retry
  loop of \<open>updatePeak\<close> and its spurious failures; the two look-ups of a rejected release are one.
  Waiting for a mutex is not a step: no critical section contains another, so that nobody waits in a circle,
  but that the system grants a mutex is not part of the model.
  A moving \<open>reallocate\<close> reads the size, takes the steps of an allocation, copies, and
  takes the steps of a release, at most twenty when it is alone; its old and its new block are its own meanwhile.  Answers of the host heap (room for a thread's cache, for a
  registry entry) are fields of the caller, so that each can fail.  Error handlers and prints are events
  in the state.  Ratios of the statistics are exact reals where the code has doubles; the rates of the
  benchmarks are so too, with what a division by zero gives.  \<open>kMaxRequest\<close> =
  2^46 and addresses below 2^56 keep all sums of sizes below 2^64; where the code adds without a check
  the theorem shows that nothing wraps.

  \<^bold>\<open>Not modelled.\<close>  The Windows branch of \<^verbatim>\<open>src/SystemMemory.cpp\<close> (another system interface behind the
  same functions); exhaustion of the host heap inside \<^verbatim>\<open>std::vector\<close> and \<^verbatim>\<open>std::unordered_map\<close> of the
  tiers, which ends the process in a \<^verbatim>\<open>noexcept\<close> function; what an error handler does.  Of
  the benchmarks the other allocators are parameters of their adapters, the clock, the random
  sizes, the scheduler and the room for the runner's own arrays and threads arguments, and the small vectors
  of \<^verbatim>\<open>main\<close> are taken to have room; of the containers how a vector grows and how a map lays out its
  nodes, with short strings in the node and no node for an empty map.  The numbers that programs print are
  in the model, their formatting is not.  Tests and build
  files are not part of the library.
\<close>

end
